(* ===== verification/Prelude.thy ===== *)
theory Prelude
  imports Main
begin

text \<open>
  Shared vocabulary of the development.  A SQLite table is the list of its rows in insertion
  order; \<open>sql_update\<close>, \<open>rows_affected\<close>, \<open>sql_exists\<close>, \<open>sql_select\<close> and
  \<open>next_rowid\<close> are the statements the store package issues, and the lemmas in
  \<open>sql_simps\<close> say what each statement does to keys, lengths and lookups.  The second
  half renders integers in decimal (SQL's \<open>||\<close> and Go's \<open>%d\<close>) and proves that the
  colon-separated keys built from them are injective.
\<close>

section \<open>Results\<close>

text \<open>A store operation ends in an error, with the database untouched, or in a value and the
  database it leaves behind.\<close>

datatype store_error =
    ErrDriver                  \<comment> \<open>the driver or the disk refused the statement\<close>
  | ErrInvalid string          \<comment> \<open>a validate method refused the argument\<close>
  | ErrConstraint string       \<comment> \<open>a CHECK, UNIQUE or FOREIGN KEY constraint refused the row\<close>
  | ErrRowMissing              \<comment> \<open>sql.ErrNoRows on a row the caller named\<close>
  | ErrWrongState              \<comment> \<open>a guarded UPDATE found the row in another state\<close>
  | ErrNotCreating
  | ErrNotActive
  | ErrRetryBudgetExhausted
  | ErrSideEffectingAttempt
  | ErrSealed                  \<comment> \<open>a replied event admits no new outbound row\<close>
  | ErrReplyOutranTurn         \<comment> \<open>an ack for an event still received or processing\<close>
  | ErrTerminallyFailed        \<comment> \<open>an ack for a failed delivery\<close>
  | ErrResolved                \<comment> \<open>no unresolved dead letter\<close>
  | ErrDisagree                \<comment> \<open>dead-letter record and event disagree\<close>
  | ErrCwd                     \<comment> \<open>a working directory that does not resolve\<close>

type_synonym 'a res = "store_error + 'a"

section \<open>Tables\<close>

named_theorems sql_simps \<open>what a statement does to a table\<close>

definition sql_update :: "('r \<Rightarrow> bool) \<Rightarrow> ('r \<Rightarrow> 'r) \<Rightarrow> 'r list \<Rightarrow> 'r list" where
  "sql_update P f t = map (\<lambda>r. if P r then f r else r) t"

definition rows_affected :: "('r \<Rightarrow> bool) \<Rightarrow> 'r list \<Rightarrow> nat" where
  "rows_affected P t = length (filter P t)"

definition sql_exists :: "('r \<Rightarrow> bool) \<Rightarrow> 'r list \<Rightarrow> bool" where
  "sql_exists P t = list_ex P t"

text \<open>\<open>SELECT \<dots> WHERE P ORDER BY k\<close>: the sort is stable, as \<open>sort_key\<close> is.\<close>

definition sql_select :: "('r \<Rightarrow> bool) \<Rightarrow> ('r \<Rightarrow> int) \<Rightarrow> 'r list \<Rightarrow> 'r list" where
  "sql_select P k t = sort_key k (filter P t)"

text \<open>\<open>INTEGER PRIMARY KEY\<close>: one more than the largest key, 1 on an empty table.\<close>

definition next_rowid :: "('r \<Rightarrow> int) \<Rightarrow> 'r list \<Rightarrow> int" where
  "next_rowid k t = foldr (\<lambda>r m. max (k r) m) t 0 + 1"

text \<open>Keys strictly ascending and positive: what assigning \<open>next_rowid\<close> keeps.\<close>

definition keyed :: "('r \<Rightarrow> int) \<Rightarrow> 'r list \<Rightarrow> bool" where
  "keyed k t \<longleftrightarrow> sorted_wrt (<) (map k t) \<and> (\<forall>i \<in> set (map k t). 0 < i)"

text \<open>NULLIF(s, '') and the NullString accessor.\<close>

definition nullif_empty :: "string \<Rightarrow> string option" where
  "nullif_empty s = (if s = [] then None else Some s)"

definition null_string :: "string option \<Rightarrow> string" where
  "null_string s = (case s of None \<Rightarrow> [] | Some x \<Rightarrow> x)"

definition null_int :: "int option \<Rightarrow> int" where
  "null_int n = (case n of None \<Rightarrow> 0 | Some x \<Rightarrow> x)"

section \<open>Decimal rendering\<close>

fun dec_nat :: "nat \<Rightarrow> string" where
  "dec_nat n =
     (if n < 10 then [char_of (48 + n)] else dec_nat (n div 10) @ [char_of (48 + n mod 10)])"

declare dec_nat.simps [simp del]

definition dec_int :: "int \<Rightarrow> string" where
  "dec_int i = (if i < 0 then CHR ''-'' # dec_nat (nat (- i)) else dec_nat (nat i))"

section \<open>Strings\<close>

definition has_prefix :: "string \<Rightarrow> string \<Rightarrow> bool" where
  "has_prefix p s = (take (length p) s = p)"

text \<open>\<open>strings.Cut(s, ":")\<close>, first component.\<close>

definition cut_before :: "char \<Rightarrow> string \<Rightarrow> string" where
  "cut_before c s = takeWhile (\<lambda>x. x \<noteq> c) s"

definition ascii_lower :: "char \<Rightarrow> char" where
  "ascii_lower c =
     (let n = (of_char c :: nat) in if 65 \<le> n \<and> n \<le> 90 then char_of (n + 32) else c)"

definition to_lower :: "string \<Rightarrow> string" where
  "to_lower s = map ascii_lower s"

section \<open>Lemmas on tables\<close>

lemma length_sql_update [sql_simps]: "length (sql_update P f t) = length t"
  by (simp add: sql_update_def)

lemma sql_update_Nil [sql_simps]: "sql_update P f [] = []"
  by (simp add: sql_update_def)

lemma sql_update_Cons [sql_simps]:
  "sql_update P f (r # t) = (if P r then f r else r) # sql_update P f t"
  by (simp add: sql_update_def)

lemma sql_update_append [sql_simps]:
  "sql_update P f (t @ u) = sql_update P f t @ sql_update P f u"
  by (simp add: sql_update_def)

lemma set_sql_update: "set (sql_update P f t) = (\<lambda>r. if P r then f r else r) ` set t"
  by (simp add: sql_update_def)

lemma in_sql_update [elim]:
  assumes "r \<in> set (sql_update P f t)"
  obtains (changed) q where "q \<in> set t" "P q" "r = f q" | (kept) "r \<in> set t" "\<not> P r"
  using assms by (auto simp: set_sql_update split: if_splits)

lemma ball_sql_update:
  "(\<forall>r \<in> set (sql_update P f t). Q r) \<longleftrightarrow> (\<forall>r \<in> set t. if P r then Q (f r) else Q r)"
  by (induction t) (simp_all add: sql_simps)

lemma bex_sql_update:
  "(\<exists>r \<in> set (sql_update P f t). Q r) \<longleftrightarrow> (\<exists>r \<in> set t. if P r then Q (f r) else Q r)"
  by (induction t) (simp_all add: sql_simps)

lemmas quant_sql_update = ball_sql_update bex_sql_update

lemma in_sql_updateI_kept: "r \<in> set t \<Longrightarrow> \<not> P r \<Longrightarrow> r \<in> set (sql_update P f t)"
  by (force simp: set_sql_update)

lemma in_sql_updateI_changed: "r \<in> set t \<Longrightarrow> P r \<Longrightarrow> f r \<in> set (sql_update P f t)"
  by (force simp: set_sql_update)

text \<open>An update that leaves a column alone leaves the column of the whole table alone.\<close>

lemma map_sql_update: "(\<And>r. g (f r) = g r) \<Longrightarrow> map g (sql_update P f t) = map g t"
  by (simp add: sql_update_def)

lemma sql_update_none: "(\<And>r. r \<in> set t \<Longrightarrow> \<not> P r) \<Longrightarrow> sql_update P f t = t"
  by (auto simp: sql_update_def intro: map_idI)

lemma rows_affected_0 [sql_simps]: "rows_affected P t = 0 \<longleftrightarrow> (\<forall>r \<in> set t. \<not> P r)"
  by (simp add: rows_affected_def filter_empty_conv)

lemma rows_affected_pos: "0 < rows_affected P t \<longleftrightarrow> (\<exists>r \<in> set t. P r)"
  using rows_affected_0 [of P t] by auto

lemma sql_exists_iff [sql_simps]: "sql_exists P t \<longleftrightarrow> (\<exists>r \<in> set t. P r)"
  by (simp add: sql_exists_def list_ex_iff)

lemma sql_exists_key: "sql_exists (\<lambda>r. k r = x) t \<longleftrightarrow> x \<in> k ` set t"
  by (force simp: sql_exists_iff)

lemma set_sql_select [sql_simps]: "set (sql_select P k t) = {r \<in> set t. P r}"
  by (simp add: sql_select_def)

lemma sql_select_Nil: "sql_select P k t = [] \<longleftrightarrow> (\<forall>r \<in> set t. \<not> P r)"
proof -
  have "sql_select P k t = [] \<longleftrightarrow> set (sql_select P k t) = {}" by simp
  then show ?thesis unfolding set_sql_select by blast
qed

lemma sorted_sql_select: "sorted (map k (sql_select P k t))"
  by (simp add: sql_select_def)

lemma foldr_max_ge: "r \<in> set t \<Longrightarrow> k r \<le> foldr (\<lambda>r m. max (k r) m) t (0::int)"
  by (induction t) auto

lemma next_rowid_gt: "r \<in> set t \<Longrightarrow> k r < next_rowid k t"
  using foldr_max_ge [of r t k] by (simp add: next_rowid_def)

lemma next_rowid_pos: "0 < next_rowid k t"
proof -
  have "0 \<le> foldr (\<lambda>r m. max (k r) m) t (0::int)" by (induction t) auto
  then show ?thesis by (simp add: next_rowid_def)
qed

lemma next_rowid_fresh: "next_rowid k t \<notin> k ` set t"
proof
  assume "next_rowid k t \<in> k ` set t"
  then obtain r where "r \<in> set t" "k r = next_rowid k t" by auto
  with next_rowid_gt [of r t k] show False by simp
qed

lemma keyed_Nil [simp]: "keyed k []"
  by (simp add: keyed_def)

lemma keyed_append_next:
  assumes "keyed k t" and "k r = next_rowid k t"
  shows "keyed k (t @ [r])"
  using assms next_rowid_gt [of _ t k] next_rowid_pos [of k t]
  by (auto simp: keyed_def sorted_wrt_append)

lemma keyed_sql_update: "(\<And>r. k (f r) = k r) \<Longrightarrow> keyed k (sql_update P f t) = keyed k t"
  by (simp only: keyed_def map_sql_update)

lemma keyed_distinct: "keyed k t \<Longrightarrow> distinct (map k t)"
  by (auto simp: keyed_def strict_sorted_iff)

lemma keyed_inj: "keyed k t \<Longrightarrow> r \<in> set t \<Longrightarrow> q \<in> set t \<Longrightarrow> k r = k q \<Longrightarrow> r = q"
  using keyed_distinct by (metis distinct_map inj_onD)

lemma distinct_key_inj:
  "distinct (map k t) \<Longrightarrow> r \<in> set t \<Longrightarrow> q \<in> set t \<Longrightarrow> k r = k q \<Longrightarrow> r = q"
  by (metis distinct_map inj_onD)

text \<open>On a keyed table a select by any predicate is already in key order.\<close>

lemma sql_select_keyed: "keyed k t \<Longrightarrow> sql_select P k t = filter P t"
proof -
  assume "keyed k t"
  then have "sorted (map k t)" by (simp add: keyed_def strict_sorted_imp_sorted)
  then have "sorted (map k (filter P t))" by (rule sorted_filter)
  then show ?thesis by (simp add: sql_select_def sort_key_id_if_sorted)
qed

lemma nullif_empty_simps [simp]:
  "nullif_empty [] = None" "s \<noteq> [] \<Longrightarrow> nullif_empty s = Some s"
  by (simp_all add: nullif_empty_def)

lemma null_string_nullif [simp]: "null_string (nullif_empty s) = s"
  by (simp add: nullif_empty_def null_string_def)

section \<open>Evolution of a table\<close>

text \<open>
  No statement of the store deletes a row of the queue, the outbox or the session registry: a
  table grows at its end, and a row changes only the way its lifecycle allows.
  \<open>table_evolves ok fresh t t'\<close> says that \<open>t'\<close> is \<open>t\<close> with every row changed within
  \<open>ok\<close>, followed by new rows that satisfy \<open>fresh\<close>.
\<close>

definition table_evolves ::
  "('r \<Rightarrow> 'r \<Rightarrow> bool) \<Rightarrow> ('r \<Rightarrow> bool) \<Rightarrow> 'r list \<Rightarrow> 'r list \<Rightarrow> bool" where
  "table_evolves ok fresh t t' \<longleftrightarrow>
     length t \<le> length t' \<and> list_all2 ok t (take (length t) t') \<and>
     (\<forall>r \<in> set (drop (length t) t'). fresh r)"

locale row_lifecycle =
  fixes ok :: "'r \<Rightarrow> 'r \<Rightarrow> bool" and fresh :: "'r \<Rightarrow> bool"
  assumes ok_refl: "ok r r"
begin

lemma evolves_refl [simp]: "table_evolves ok fresh t t"
  by (simp add: table_evolves_def list_all2_same ok_refl)

lemma evolves_update: "(\<And>r. r \<in> set t \<Longrightarrow> P r \<Longrightarrow> ok r (f r)) \<Longrightarrow> table_evolves ok fresh t (sql_update P f t)"
  by (auto simp: table_evolves_def length_sql_update list_all2_conv_all_nth sql_update_def ok_refl)

lemma evolves_insert: "fresh r \<Longrightarrow> table_evolves ok fresh t (t @ [r])"
  by (simp add: table_evolves_def list_all2_same ok_refl)

text \<open>A row of the old table has its successor in the new one.\<close>

lemma evolves_row:
  assumes "table_evolves ok fresh t t'" and "r \<in> set t"
  shows "\<exists>r' \<in> set t'. ok r r'"
proof -
  from assms(2) obtain i where "i < length t" "t ! i = r" by (auto simp: in_set_conv_nth)
  with assms(1) have "ok r (t' ! i)" "i < length t'"
    by (auto simp: table_evolves_def list_all2_conv_all_nth)
  then show ?thesis by auto
qed

end

section \<open>Write-once inserts\<close>

text \<open>
  The contract shared by the two write-once chokepoints of the store (events by dedup key,
  deliveries by delivery key): a known key is a reported no-op, a new key is appended.
  \<open>run_inserts\<close> feeds a whole history of calls, errors included, and collects the accepted
  ones.
\<close>

fun run_inserts :: "('a \<Rightarrow> 'd \<Rightarrow> ((int \<times> bool) \<times> 'd) res) \<Rightarrow> 'a list \<Rightarrow> 'd \<Rightarrow> 'a list \<times> 'd" where
  "run_inserts ins [] d = ([], d)"
| "run_inserts ins (x # xs) d =
     (case ins x d of
        Inl _ \<Rightarrow> run_inserts ins xs d
      | Inr ((_, b), d') \<Rightarrow>
          (let (acc, e) = run_inserts ins xs d' in (if b then x # acc else acc, e)))"

locale keyed_insert =
  fixes ins :: "'a \<Rightarrow> 'd \<Rightarrow> ((int \<times> bool) \<times> 'd) res"
    and key :: "'a \<Rightarrow> string" and keys :: "'d \<Rightarrow> string list"
  assumes ins_dup: "ins x d = Inr ((i, b), d') \<Longrightarrow> key x \<in> set (keys d) \<Longrightarrow> \<not> b \<and> d' = d"
    and ins_new: "ins x d = Inr ((i, b), d') \<Longrightarrow> key x \<notin> set (keys d) \<Longrightarrow> b \<and> keys d' = keys d @ [key x]"
begin

lemma run_inserts_keys: "run_inserts ins xs d = (acc, e) \<Longrightarrow> keys e = keys d @ map key acc"
proof (induction xs arbitrary: d acc e)
  case Nil
  then show ?case by simp
next
  case (Cons x xs)
  show ?case
  proof (cases "ins x d")
    case (Inl a)
    with Cons show ?thesis by simp
  next
    case (Inr y)
    obtain i b d' where y: "y = ((i, b), d')" by (metis prod.exhaust)
    obtain acc' e' where r: "run_inserts ins xs d' = (acc', e')" by fastforce
    from Cons.IH [OF r] Cons.prems Inr y r ins_dup [of x d i b d'] ins_new [of x d i b d']
    show ?thesis by (cases "key x \<in> set (keys d)") auto
  qed
qed

lemma run_inserts_distinct:
  "run_inserts ins xs d = (acc, e) \<Longrightarrow> distinct (keys d) \<Longrightarrow> distinct (keys e)"
proof (induction xs arbitrary: d acc e)
  case Nil
  then show ?case by simp
next
  case (Cons x xs)
  show ?case
  proof (cases "ins x d")
    case (Inl a)
    with Cons show ?thesis by simp
  next
    case (Inr y)
    obtain i b d' where y: "y = ((i, b), d')" by (metis prod.exhaust)
    obtain acc' e' where r: "run_inserts ins xs d' = (acc', e')" by fastforce
    have "distinct (keys d')"
      using Cons.prems(2) Inr y ins_dup [of x d i b d'] ins_new [of x d i b d']
      by (cases "key x \<in> set (keys d)") auto
    from Cons.IH [OF r this] Cons.prems(1) Inr y r show ?thesis by simp
  qed
qed

text \<open>Each key is accepted at most once in any history, and never when it was there before.\<close>

lemma run_inserts_once:
  assumes "run_inserts ins xs d = (acc, e)" and "distinct (keys d)"
  shows "distinct (map key acc)" "set (map key acc) \<inter> set (keys d) = {}"
  using run_inserts_distinct [OF assms] run_inserts_keys [OF assms(1)] by auto

lemma ins_again: "ins x d = Inr ((i, b), d') \<Longrightarrow> ins x d' = Inr ((j, c), d'') \<Longrightarrow> \<not> c \<and> d'' = d'"
  using ins_dup [of x d i b d'] ins_new [of x d i b d'] ins_dup [of x d' j c d'']
  by (cases "key x \<in> set (keys d)") auto

end

section \<open>Lemmas on decimal rendering and keys\<close>

lemma dec_nat_digit: "c \<in> set (dec_nat n) \<Longrightarrow> 48 \<le> (of_char c :: nat) \<and> (of_char c :: nat) \<le> 57"
proof (induction n rule: dec_nat.induct)
  case (1 n)
  have b: "of_char (char_of (48 + m) :: char) = (48 + m :: nat)" if "m < 10" for m :: nat
    using that by simp
  show ?case
  proof (cases "n < 10")
    case True
    with "1.prems" b [of n] show ?thesis by (subst (asm) dec_nat.simps) simp
  next
    case False
    have "n mod 10 < 10" by simp
    with "1" False b [of "n mod 10"] show ?thesis
      by (subst (asm) dec_nat.simps) auto
  qed
qed

lemma dec_nat_no_colon: "CHR '':'' \<notin> set (dec_nat n)"
  using dec_nat_digit [of "CHR '':''" n] by auto

lemma dec_nat_no_minus: "CHR ''-'' \<notin> set (dec_nat n)"
  using dec_nat_digit [of "CHR ''-''" n] by auto

lemma dec_nat_inj: "dec_nat m = dec_nat n \<Longrightarrow> m = n"
proof (induction m arbitrary: n rule: dec_nat.induct)
  case (1 m)
  have b: "of_char (char_of (48 + k) :: char) = (48 + k :: nat)" if "k < 10" for k :: nat
    using that by simp
  have eqd: "k = l" if "char_of (48 + k) = (char_of (48 + l) :: char)" "k < 10" "l < 10" for k l :: nat
    using that b [of k] b [of l] by simp
  have ne: "dec_nat k \<noteq> []" for k by (subst dec_nat.simps) simp
  show ?case
  proof (cases "m < 10")
    case m: True
    show ?thesis
    proof (cases "n < 10")
      case True
      with m "1.prems" show ?thesis
        by (auto simp: dec_nat.simps [of m] dec_nat.simps [of n] intro: eqd)
    next
      case False
      with m "1.prems" ne [of "n div 10"] show ?thesis
        by (auto simp: dec_nat.simps [of m] dec_nat.simps [of n])
    qed
  next
    case m: False
    show ?thesis
    proof (cases "n < 10")
      case True
      with m "1.prems" ne [of "m div 10"] show ?thesis
        by (auto simp: dec_nat.simps [of m] dec_nat.simps [of n])
    next
      case False
      with m "1.prems" have "dec_nat (m div 10) = dec_nat (n div 10)"
        and d: "char_of (48 + m mod 10) = (char_of (48 + n mod 10) :: char)"
        by (simp_all add: dec_nat.simps [of m] dec_nat.simps [of n])
      then have "m div 10 = n div 10" using "1.IH" [of "n div 10"] m by blast
      moreover have "m mod 10 = n mod 10" using eqd [OF d] by simp
      ultimately show ?thesis by (metis div_mod_decomp)
    qed
  qed
qed

lemma dec_int_no_colon: "CHR '':'' \<notin> set (dec_int i)"
  by (simp add: dec_int_def dec_nat_no_colon)

lemma dec_int_inj: "dec_int i = dec_int j \<Longrightarrow> i = j"
proof -
  assume a: "dec_int i = dec_int j"
  have hd: "CHR ''-'' # u \<noteq> dec_nat n" for u n
    using dec_nat_no_minus [of n] list.set_intros(1) [of "CHR ''-''" u] by metis
  show "i = j"
    using a hd hd [symmetric] by (auto simp: dec_int_def split: if_splits dest: dec_nat_inj)
qed

text \<open>A key \<open>prefix:base:number\<close> determines its base and its number: the number holds no
  colon, so the last colon of the key is the separator, whatever the base holds.\<close>

lemma append_sep_unique:
  assumes "x @ c # u = y @ c # v" and "c \<notin> set u" and "c \<notin> set v"
  shows "x = y \<and> u = v"
proof -
  have "rev u @ c # rev x = rev v @ c # rev y"
    using arg_cong [OF assms(1), of rev] by simp
  moreover have "takeWhile (\<lambda>z. z \<noteq> c) (rev u @ c # rev x) = rev u"
    using assms(2) by (subst takeWhile_append2) auto
  moreover have "takeWhile (\<lambda>z. z \<noteq> c) (rev v @ c # rev y) = rev v"
    using assms(3) by (subst takeWhile_append2) auto
  ultimately have "rev u = rev v" by simp
  with assms(1) show ?thesis by simp
qed

lemma numbered_key_inj:
  assumes "p @ b @ '':'' @ dec_int i = p @ b' @ '':'' @ dec_int j"
  shows "b = b' \<and> i = j"
  using append_sep_unique [of b "CHR '':''" "dec_int i" b' "dec_int j"] assms
    dec_int_no_colon dec_int_inj by auto

lemma has_prefix_append [simp]: "has_prefix p (p @ s)"
  by (simp add: has_prefix_def)

lemma has_prefix_iff: "has_prefix p s \<longleftrightarrow> (\<exists>t. s = p @ t)"
  by (metis append_take_drop_id has_prefix_append has_prefix_def)

section \<open>Step relations\<close>

text \<open>An invariant of the single steps of a machine holds along its runs.\<close>

locale step_invariant =
  fixes step :: "'s \<Rightarrow> 's \<Rightarrow> bool" and inv :: "'s \<Rightarrow> bool"
  assumes step_inv: "step s t \<Longrightarrow> inv s \<Longrightarrow> inv t"
begin

lemma steps_inv: "step\<^sup>*\<^sup>* s t \<Longrightarrow> inv s \<Longrightarrow> inv t"
  by (induction rule: rtranclp_induct) (auto dest: step_inv)

end

end
