(* ===== verification/Trust.thy ===== *)
theory Trust
  imports Prelude
begin

text \<open>
  Package trust (\<open>src/internal/trust/trust.go\<close>): participant levels, the clamp applied
  when an event is stamped, the taint rule and the session floor.  A level is a string, as in
  the source, so that values outside the closed set are representable; \<open>rank\<close> is the map
  literal of the source with Go's zero value for an absent key.  The locale \<open>ranked_meet\<close>
  states what a rank-based minimum promises and derives the laws of the floor over a list once;
  the interpretation \<open>tm\<close> discharges it for \<open>Min_level\<close>.
\<close>

section \<open>Levels\<close>

type_synonym level = string

definition Untrusted :: level where "Untrusted = ''untrusted''"
definition Known :: level where "Known = ''known''"
definition Owner :: level where "Owner = ''owner''"

definition rank :: "level \<Rightarrow> int" where
  "rank l = (if l = Untrusted then 1 else if l = Known then 2 else if l = Owner then 3 else 0)"

definition normalize :: "level \<Rightarrow> level" where
  "normalize l = (if rank l = 0 then Untrusted else l)"

definition Parse_level :: "string \<Rightarrow> unit + level" where
  "Parse_level s = (if rank s = 0 then Inl () else Inr s)"

definition Min_level :: "level \<Rightarrow> level \<Rightarrow> level" where
  "Min_level a b =
     (let a = normalize a; b = normalize b in if rank a < rank b then a else b)"

section \<open>Stamping\<close>

record Stamped =
  st_Trust :: level
  st_ReadOnly :: bool
  st_MayApprove :: bool

definition Stamp :: "string \<Rightarrow> level \<Rightarrow> Stamped" where
  "Stamp auth lookup =
     (if auth = ''strong'' then
        \<lparr>st_Trust = Min_level lookup Owner, st_ReadOnly = False, st_MayApprove = True\<rparr>
      else if auth = ''weak'' then
        \<lparr>st_Trust = Min_level lookup Known, st_ReadOnly = True, st_MayApprove = False\<rparr>
      else \<lparr>st_Trust = Untrusted, st_ReadOnly = True, st_MayApprove = False\<rparr>)"

section \<open>Taint\<close>

text \<open>\<open>IngestKind\<close> is an int; the constants are \<open>iota + 1\<close>, so 0 is no kind.\<close>

definition IngestInboundMessage :: int where "IngestInboundMessage = 1"
definition IngestMCPResult :: int where "IngestMCPResult = 2"
definition IngestWebFetch :: int where "IngestWebFetch = 3"
definition IngestCodexWebRead :: int where "IngestCodexWebRead = 4"
definition IngestCodexCritique :: int where "IngestCodexCritique = 5"
definition IngestAttachment :: int where "IngestAttachment = 6"

definition Taints :: "int \<Rightarrow> level \<Rightarrow> bool" where
  "Taints kind author =
     (if kind = IngestInboundMessage \<or> kind = IngestMCPResult then normalize author \<noteq> Owner
      else if kind = IngestCodexCritique then False
      else True)"

section \<open>Floor\<close>

text \<open>The loop of \<open>Floor\<close>: the first participant starts the floor, each later one lowers it.\<close>

fun floor_loop :: "level \<Rightarrow> level list \<Rightarrow> level" where
  "floor_loop fl [] = fl"
| "floor_loop fl (p # ps) = floor_loop (Min_level fl p) ps"

definition Floor :: "level list \<Rightarrow> level" where
  "Floor ps = (case ps of [] \<Rightarrow> Untrusted | p # ps' \<Rightarrow> floor_loop (normalize p) ps')"

section \<open>The contract of a rank-based minimum\<close>

locale ranked_meet =
  fixes rk :: "'l \<Rightarrow> int" and norm :: "'l \<Rightarrow> 'l" and meet :: "'l \<Rightarrow> 'l \<Rightarrow> 'l"
  assumes norm_idem: "norm (norm a) = norm a"
    and rk_inj: "rk (norm a) = rk (norm b) \<Longrightarrow> norm a = norm b"
    and meet_cases: "meet a b = norm a \<or> meet a b = norm b"
    and rk_meet: "rk (meet a b) = min (rk (norm a)) (rk (norm b))"
begin

lemma norm_meet: "norm (meet a b) = meet a b"
  using meet_cases [of a b] norm_idem by auto

lemma meet_eqI: "rk (meet a b) = rk (meet c d) \<Longrightarrow> meet a b = meet c d"
  using rk_inj [of "meet a b" "meet c d"] by (simp add: norm_meet)

lemma meet_comm: "meet a b = meet b a"
  by (rule meet_eqI) (simp add: rk_meet min.commute)

lemma meet_assoc: "meet (meet a b) c = meet a (meet b c)"
  by (rule meet_eqI) (simp add: rk_meet norm_meet min.assoc)

lemma meet_norm [simp]: "meet (norm a) b = meet a b" "meet a (norm b) = meet a b"
  by (rule meet_eqI, simp add: rk_meet norm_idem)+

lemma meet_self [simp]: "meet a a = norm a"
  using meet_cases [of a a] by auto

lemma foldl_meet_rk: "rk (foldl meet (norm a) xs) = fold (\<lambda>x m. min m (rk (norm x))) xs (rk (norm a))"
  and foldl_meet_norm: "norm (foldl meet (norm a) xs) = foldl meet (norm a) xs"
  by (induction xs rule: rev_induct) (simp_all add: norm_idem rk_meet norm_meet)

lemma foldl_meet_rk_Min:
  "rk (foldl meet (norm a) xs) = Min (rk ` norm ` set (a # xs))"
proof (induction xs rule: rev_induct)
  case Nil
  then show ?case by simp
next
  case (snoc x xs)
  have ins: "rk ` norm ` set (a # xs @ [x]) = insert (rk (norm x)) (rk ` norm ` set (a # xs))"
    by auto
  show ?case
    unfolding ins using snoc by (simp add: rk_meet foldl_meet_norm min.commute)
qed

text \<open>The floor over a non-empty list depends on its members only.\<close>

lemma foldl_meet_set_eq:
  "set (a # xs) = set (b # ys) \<Longrightarrow> foldl meet (norm a) xs = foldl meet (norm b) ys"
  using rk_inj [of "foldl meet (norm a) xs" "foldl meet (norm b) ys"]
  by (simp add: foldl_meet_norm foldl_meet_rk_Min)

lemma foldl_meet_le: "x \<in> set (a # xs) \<Longrightarrow> rk (foldl meet (norm a) xs) \<le> rk (norm x)"
  unfolding foldl_meet_rk_Min by (rule Min_le) auto

lemma foldl_meet_mem: "foldl meet (norm a) xs \<in> norm ` set (a # xs)"
proof -
  have "Min (rk ` norm ` set (a # xs)) \<in> rk ` norm ` set (a # xs)" by (rule Min_in) auto
  then obtain x where x: "x \<in> set (a # xs)" "rk (foldl meet (norm a) xs) = rk (norm x)"
    by (auto simp: foldl_meet_rk_Min)
  then have "foldl meet (norm a) xs = norm x"
    using rk_inj [of "foldl meet (norm a) xs" x] by (simp add: foldl_meet_norm)
  with x show ?thesis by auto
qed

end

section \<open>Lemmas\<close>

lemmas level_defs = Untrusted_def Known_def Owner_def

lemma levels_distinct [simp]:
  "Untrusted \<noteq> Known" "Untrusted \<noteq> Owner" "Known \<noteq> Owner"
  "Known \<noteq> Untrusted" "Owner \<noteq> Untrusted" "Owner \<noteq> Known"
  by (simp_all add: level_defs)

lemma rank_simps [simp]: "rank Untrusted = 1" "rank Known = 2" "rank Owner = 3"
  by (simp_all add: rank_def)

lemma normalize_simps [simp]:
  "normalize Untrusted = Untrusted" "normalize Known = Known" "normalize Owner = Owner"
  by (simp_all add: normalize_def)

lemma normalize_closed: "normalize l = Untrusted \<or> normalize l = Known \<or> normalize l = Owner"
  by (simp add: normalize_def rank_def)

lemma normalize_cases:
  obtains "normalize l = Untrusted" | "normalize l = Known" | "normalize l = Owner"
  using normalize_closed [of l] by blast

lemma normalize_Owner_iff: "normalize l = Owner \<longleftrightarrow> l = Owner"
  by (auto simp: normalize_def rank_def)

lemma rank_normalize_ge: "1 \<le> rank (normalize l)"
  by (rule normalize_cases [of l]) simp_all

interpretation tm: ranked_meet rank normalize Min_level
proof
  show "normalize (normalize a) = normalize a" for a
    by (simp add: normalize_def)
  show "rank (normalize a) = rank (normalize b) \<Longrightarrow> normalize a = normalize b" for a b
    by (rule normalize_cases [of a]; rule normalize_cases [of b]) simp_all
  show "Min_level a b = normalize a \<or> Min_level a b = normalize b" for a b
    by (simp add: Min_level_def Let_def)
  show "rank (Min_level a b) = min (rank (normalize a)) (rank (normalize b))" for a b
    by (auto simp: Min_level_def Let_def)
qed

lemma floor_loop_foldl: "floor_loop fl ps = foldl Min_level fl ps"
  by (induction ps arbitrary: fl) simp_all

lemma Floor_Cons: "Floor (p # ps) = foldl Min_level (normalize p) ps"
  by (simp add: Floor_def floor_loop_foldl)

lemma Floor_singleton [simp]: "Floor [p] = normalize p"
  by (simp add: Floor_def)

lemma Floor_mem: "ps \<noteq> [] \<Longrightarrow> Floor ps \<in> normalize ` set ps"
  using tm.foldl_meet_mem [of "hd ps" "tl ps"] by (cases ps) (simp_all add: Floor_Cons)

lemma Floor_le: "p \<in> set ps \<Longrightarrow> rank (Floor ps) \<le> rank (normalize p)"
  using tm.foldl_meet_le [of p "hd ps" "tl ps"] by (cases ps) (simp_all add: Floor_Cons)

lemma Floor_set_eq: "set qs = set ps \<Longrightarrow> Floor qs = Floor ps"
  using tm.foldl_meet_set_eq [of "hd qs" "tl qs" "hd ps" "tl ps"]
  by (cases ps; cases qs) (simp_all add: Floor_Cons)

lemma Stamp_trust_cases:
  "st_Trust (Stamp auth l) = Untrusted \<or>
   (auth = ''weak'' \<and> st_Trust (Stamp auth l) = Min_level l Known) \<or>
   (auth = ''strong'' \<and> st_Trust (Stamp auth l) = Min_level l Owner)"
  by (simp add: Stamp_def)

lemma Min_level_Owner [simp]: "Min_level l Owner = normalize l"
  by (rule normalize_cases [of l]) (simp_all add: Min_level_def)

lemma rank_Min_level_Known: "rank (Min_level l Known) \<le> 2"
  by (simp add: tm.rk_meet)

section \<open>Properties\<close>

text \<open>
  \<open>Floor\<close> is the greatest lower bound of the participants and depends on nothing else.
  On a non-empty list the floor is the normalised level of some participant, no participant ranks
  below it, any list with the same members (any order, any repetition) has the same floor, and the
  empty list fails safe to untrusted.
\<close>

lemma Floor_greatest_lower_bound:
  assumes "ps \<noteq> []"
  shows "Floor ps \<in> normalize ` set ps \<and>
    (\<forall>p \<in> set ps. rank (Floor ps) \<le> rank (normalize p)) \<and>
    (\<forall>qs. set qs = set ps \<longrightarrow> Floor qs = Floor ps) \<and> Floor [] = Untrusted"
proof (intro conjI ballI allI impI)
  show "Floor ps \<in> normalize ` set ps" using assms by (rule Floor_mem)
  show "Floor [] = Untrusted" by (simp add: Floor_def)
qed (erule Floor_le Floor_set_eq)+

lemma Floor_greatest_lower_bound_example:
  "rank (Floor [Owner, Known, ''junk'']) \<le> rank (normalize ''junk'') \<and>
   Floor [''junk'', Known, Owner, Known] = Floor [Owner, Known, ''junk'']"
proof -
  have "[Owner, Known, ''junk''] \<noteq> []" by simp
  note glb = Floor_greatest_lower_bound [OF this]
  have m: "''junk'' \<in> set [Owner, Known, ''junk'']" by simp
  have "set [''junk'', Known, Owner, Known] = set [Owner, Known, ''junk'']" by auto
  with glb m show ?thesis by blast
qed

end
