(* ===== verification/Schema.thy ===== *)
theory Schema
  imports Complex_Main Prelude
begin

text \<open>
  The tables of \<open>approach.db\<close> (\<open>src/internal/store/migrations\<close>) as records and lists of
  records, the CHECK constraints and partial unique indexes as bool-valued functions, and the
  invariants the store keeps between tables.  A nullable column is an option; a closed status
  column is a datatype; \<open>kind\<close>, \<open>trust\<close> and \<open>trust_floor\<close> stay strings, because the
  code hands them to SQLite unchecked and the CHECK constraint refuses them.
\<close>

section \<open>Rows\<close>

datatype ev_status = Received | Processing | Completed | Replied | Interrupted | Skipped | Dead
datatype sess_status = Creating | Active | Rotated | ResumeFailed | Failed
datatype del_status = Pending | Sent | DFailed
datatype att_state = Started | Done | AFailed
datatype resolution = Requeued | Discarded

record event_row =
  ev_id :: int
  ev_dedup_key :: string
  ev_thread_key :: string
  ev_kind :: string
  ev_trust :: string
  ev_payload :: string
  ev_status :: ev_status
  ev_attempts :: int
  ev_received :: int
  ev_updated :: "int option"
  ev_correlation :: "string option"
  ev_parks :: int

record session_row =
  se_thread_key :: string
  se_session_id :: string
  se_status :: sess_status
  se_cwd :: string
  se_origin :: "string option"
  se_trust_floor :: string
  se_created_at :: int
  se_activation_deadline :: "int option"
  se_rotated_to :: "string option"
  se_last_seen :: "int option"
  se_turns :: "int option"
  se_tainted :: bool

record delivery_row =
  de_id :: int
  de_delivery_key :: string
  de_event_id :: "int option"
  de_target :: string
  de_payload :: string
  de_status :: del_status
  de_attempts :: int
  de_last_attempt :: "int option"
  de_acked :: "int option"

record attempt_row =
  ta_id :: int
  ta_session_id :: string
  ta_event_id :: "int option"
  ta_tool :: string
  ta_args_digest :: string
  ta_idempotency_key :: "string option"
  ta_state :: att_state
  ta_started_at :: int
  ta_ended_at :: "int option"

record dead_row =
  dl_event_id :: int
  dl_reason :: string
  dl_entered :: int
  dl_acked :: "int option"
  dl_resolution :: "resolution option"
  dl_entries :: int

record identity_row =
  id_channel :: string
  id_native_id :: string
  id_trust :: string
  id_owner_id :: "string option"
  id_label :: "string option"

record turn_row =
  tu_id :: int
  tu_session_id :: string
  tu_ts :: int
  tu_kind :: "string option"
  tu_model :: "string option"
  tu_input_tokens :: "int option"
  tu_output_tokens :: "int option"
  tu_cost_usd :: "rat option"
  tu_tool_calls :: int
  tu_duration_ms :: int
  tu_outcome :: string

record db =
  identities :: "identity_row list"
  sessions :: "session_row list"
  events :: "event_row list"
  deliveries :: "delivery_row list"
  tool_attempts :: "attempt_row list"
  dead_letters :: "dead_row list"
  turns :: "turn_row list"

definition empty_db :: db where
  "empty_db = \<lparr>identities = [], sessions = [], events = [], deliveries = [], tool_attempts = [],
     dead_letters = [], turns = []\<rparr>"

section \<open>CHECK constraints and indexes\<close>

definition event_kinds :: "string list" where
  "event_kinds = [''message'', ''heartbeat'', ''webhook'', ''cron'', ''approval'', ''task'']"

definition event_trusts :: "string list" where
  "event_trusts = [''owner'', ''known'', ''untrusted'', ''system'', ''system-worker'']"

definition event_check :: "event_row \<Rightarrow> bool" where
  "event_check r \<longleftrightarrow> ev_kind r \<in> set event_kinds \<and> ev_trust r \<in> set event_trusts"

definition floor_check :: "string \<Rightarrow> bool" where
  "floor_check fl \<longleftrightarrow> fl \<in> set [''owner'', ''known'', ''untrusted'']"

definition identity_check :: "identity_row \<Rightarrow> bool" where
  "identity_check r \<longleftrightarrow>
     (id_trust r = ''owner'' \<and> id_owner_id r \<noteq> None \<and> id_owner_id r \<noteq> Some []) \<or>
     (id_trust r = ''known'' \<and> id_owner_id r = None)"

definition live_status :: "sess_status \<Rightarrow> bool" where
  "live_status s \<longleftrightarrow> s = Creating \<or> s = Active"

definition live :: "session_row \<Rightarrow> bool" where
  "live s \<longleftrightarrow> live_status (se_status s)"

text \<open>SQLite's LIKE folds ASCII case: this is \<open>thread_key LIKE 'task:%'\<close>.\<close>

definition like_task :: "string \<Rightarrow> bool" where
  "like_task k = has_prefix ''task:'' (to_lower k)"

definition one_live_session :: "session_row list \<Rightarrow> bool" where
  "one_live_session t \<longleftrightarrow> distinct (map se_thread_key (filter live t))"

definition one_worker_per_repo :: "session_row list \<Rightarrow> bool" where
  "one_worker_per_repo t \<longleftrightarrow>
     distinct (map se_cwd (filter (\<lambda>s. live s \<and> like_task (se_thread_key s)) t))"

text \<open>Owed a send: the predicate of the deliveries_resend index.\<close>

definition owed :: "delivery_row \<Rightarrow> bool" where
  "owed d \<longleftrightarrow> de_acked d = None \<and> de_status d \<noteq> DFailed"

section \<open>Statements\<close>

text \<open>\<open>ExecContext\<close> with \<open>RowsAffected\<close>, one function per table.\<close>

definition exec_events ::
  "(event_row \<Rightarrow> bool) \<Rightarrow> (event_row \<Rightarrow> event_row) \<Rightarrow> db \<Rightarrow> nat \<times> db" where
  "exec_events P f d = (rows_affected P (events d), d\<lparr>events := sql_update P f (events d)\<rparr>)"

definition exec_sessions ::
  "(session_row \<Rightarrow> bool) \<Rightarrow> (session_row \<Rightarrow> session_row) \<Rightarrow> db \<Rightarrow> nat \<times> db" where
  "exec_sessions P f d = (rows_affected P (sessions d), d\<lparr>sessions := sql_update P f (sessions d)\<rparr>)"

definition exec_deliveries ::
  "(delivery_row \<Rightarrow> bool) \<Rightarrow> (delivery_row \<Rightarrow> delivery_row) \<Rightarrow> db \<Rightarrow> nat \<times> db" where
  "exec_deliveries P f d =
     (rows_affected P (deliveries d), d\<lparr>deliveries := sql_update P f (deliveries d)\<rparr>)"

definition exec_attempts ::
  "(attempt_row \<Rightarrow> bool) \<Rightarrow> (attempt_row \<Rightarrow> attempt_row) \<Rightarrow> db \<Rightarrow> nat \<times> db" where
  "exec_attempts P f d =
     (rows_affected P (tool_attempts d), d\<lparr>tool_attempts := sql_update P f (tool_attempts d)\<rparr>)"

definition exec_dead_letters ::
  "(dead_row \<Rightarrow> bool) \<Rightarrow> (dead_row \<Rightarrow> dead_row) \<Rightarrow> db \<Rightarrow> nat \<times> db" where
  "exec_dead_letters P f d =
     (rows_affected P (dead_letters d), d\<lparr>dead_letters := sql_update P f (dead_letters d)\<rparr>)"

lemmas exec_defs = exec_events_def exec_sessions_def exec_deliveries_def exec_attempts_def
  exec_dead_letters_def

definition event_by_id :: "int \<Rightarrow> db \<Rightarrow> event_row option" where
  "event_by_id i d = find (\<lambda>r. ev_id r = i) (events d)"

definition delivery_by_id :: "int \<Rightarrow> db \<Rightarrow> delivery_row option" where
  "delivery_by_id i d = find (\<lambda>r. de_id r = i) (deliveries d)"

section \<open>Lifecycles\<close>

text \<open>The edges of the event status column, as the header comments of the store name them.\<close>

inductive ev_edge :: "ev_status \<Rightarrow> ev_status \<Rightarrow> bool" where
  claim: "ev_edge Received Processing"
| park_unstarted: "ev_edge Received Interrupted"
| complete: "ev_edge Processing Completed"
| complete_replied: "ev_edge Processing Replied"
| skip: "ev_edge Processing Skipped"
| retry: "ev_edge Processing Received"
| park: "ev_edge Processing Interrupted"
| die: "ev_edge Processing Dead"
| reply: "ev_edge Completed Replied"
| human_retry: "ev_edge Interrupted Received"
| die_parked: "ev_edge Interrupted Dead"
| requeue_dead: "ev_edge Dead Received"

inductive_simps ev_edge_simps [simp]:
  "ev_edge Received s" "ev_edge Processing s" "ev_edge Completed s" "ev_edge Replied s"
  "ev_edge Interrupted s" "ev_edge Skipped s" "ev_edge Dead s"

inductive sess_edge :: "sess_status \<Rightarrow> sess_status \<Rightarrow> bool" where
  activate: "sess_edge Creating Active"
| expire: "sess_edge Creating Failed"
| rotate: "sess_edge Active Rotated"
| resume_fail: "sess_edge Active ResumeFailed"

inductive_simps sess_edge_simps [simp]:
  "sess_edge Creating s" "sess_edge Active s" "sess_edge Rotated s" "sess_edge ResumeFailed s"
  "sess_edge Failed s"

definition event_ok :: "event_row \<Rightarrow> event_row \<Rightarrow> bool" where
  "event_ok r r' \<longleftrightarrow>
     (\<exists>s a u p. r' = r\<lparr>ev_status := s, ev_attempts := a, ev_updated := u, ev_parks := p\<rparr> \<and>
        (s = ev_status r \<or> ev_edge (ev_status r) s) \<and> ev_attempts r \<le> a \<and> ev_parks r \<le> p)"

definition event_fresh :: "event_row \<Rightarrow> bool" where
  "event_fresh r \<longleftrightarrow> ev_status r = Received \<and> ev_attempts r = 0 \<and> ev_parks r = 0 \<and> event_check r"

definition session_ok :: "session_row \<Rightarrow> session_row \<Rightarrow> bool" where
  "session_ok r r' \<longleftrightarrow>
     (\<exists>s l ls tn tt. r' = r\<lparr>se_status := s, se_rotated_to := l, se_last_seen := ls, se_turns := tn,
          se_tainted := tt\<rparr> \<and>
        (s = se_status r \<or> sess_edge (se_status r) s) \<and>
        (se_tainted r \<longrightarrow> tt) \<and> null_int (se_turns r) \<le> null_int tn \<and>
        (se_rotated_to r \<noteq> None \<longrightarrow> l = se_rotated_to r))"

definition session_fresh :: "session_row \<Rightarrow> bool" where
  "session_fresh r \<longleftrightarrow> se_status r = Creating \<and> \<not> se_tainted r \<and> se_rotated_to r = None \<and>
     se_turns r = None \<and> floor_check (se_trust_floor r) \<and>
     (\<exists>x. se_activation_deadline r = Some x \<and> se_created_at r < x)"

definition delivery_ok :: "delivery_row \<Rightarrow> delivery_row \<Rightarrow> bool" where
  "delivery_ok r r' \<longleftrightarrow>
     (\<exists>s a la k. r' = r\<lparr>de_status := s, de_attempts := a, de_last_attempt := la, de_acked := k\<rparr> \<and>
        (de_status r \<noteq> Pending \<longrightarrow> s = de_status r) \<and> de_attempts r \<le> a \<and>
        (de_acked r \<noteq> None \<longrightarrow> k = de_acked r))"

definition delivery_fresh :: "delivery_row \<Rightarrow> bool" where
  "delivery_fresh r \<longleftrightarrow> de_status r = Pending \<and> de_attempts r = 0 \<and> de_acked r = None"

interpretation el: row_lifecycle event_ok event_fresh
proof
  show "event_ok r r" for r
    by (rule event_row.cases [of r]) (auto simp: event_ok_def)
qed

interpretation sl: row_lifecycle session_ok session_fresh
proof
  show "session_ok r r" for r
    by (rule session_row.cases [of r]) (auto simp: session_ok_def)
qed

interpretation dl: row_lifecycle delivery_ok delivery_fresh
proof
  show "delivery_ok r r" for r
    by (rule delivery_row.cases [of r]) (auto simp: delivery_ok_def)
qed

text \<open>The same relations field by field, for the simplifier.\<close>

lemma event_ok_iff:
  "event_ok r r' \<longleftrightarrow> ev_id r' = ev_id r \<and> ev_dedup_key r' = ev_dedup_key r \<and>
     ev_thread_key r' = ev_thread_key r \<and> ev_kind r' = ev_kind r \<and> ev_trust r' = ev_trust r \<and>
     ev_payload r' = ev_payload r \<and> ev_received r' = ev_received r \<and>
     ev_correlation r' = ev_correlation r \<and>
     (ev_status r' = ev_status r \<or> ev_edge (ev_status r) (ev_status r')) \<and>
     ev_attempts r \<le> ev_attempts r' \<and> ev_parks r \<le> ev_parks r'"
  by (rule event_row.cases [of r], rule event_row.cases [of r']) (auto simp: event_ok_def)

lemma session_ok_iff:
  "session_ok r r' \<longleftrightarrow> se_thread_key r' = se_thread_key r \<and> se_session_id r' = se_session_id r \<and>
     se_cwd r' = se_cwd r \<and> se_origin r' = se_origin r \<and> se_trust_floor r' = se_trust_floor r \<and>
     se_created_at r' = se_created_at r \<and> se_activation_deadline r' = se_activation_deadline r \<and>
     (se_status r' = se_status r \<or> sess_edge (se_status r) (se_status r')) \<and>
     (se_tainted r \<longrightarrow> se_tainted r') \<and> null_int (se_turns r) \<le> null_int (se_turns r') \<and>
     (se_rotated_to r \<noteq> None \<longrightarrow> se_rotated_to r' = se_rotated_to r)"
  by (rule session_row.cases [of r], rule session_row.cases [of r']) (auto simp: session_ok_def)

lemma delivery_ok_iff:
  "delivery_ok r r' \<longleftrightarrow> de_id r' = de_id r \<and> de_delivery_key r' = de_delivery_key r \<and>
     de_event_id r' = de_event_id r \<and> de_target r' = de_target r \<and> de_payload r' = de_payload r \<and>
     (de_status r \<noteq> Pending \<longrightarrow> de_status r' = de_status r) \<and> de_attempts r \<le> de_attempts r' \<and>
     (de_acked r \<noteq> None \<longrightarrow> de_acked r' = de_acked r)"
  by (rule delivery_row.cases [of r], rule delivery_row.cases [of r']) (auto simp: delivery_ok_def)

text \<open>What a whole store step may do to the three lifecycle tables.\<close>

definition db_evolves :: "db \<Rightarrow> db \<Rightarrow> bool" where
  "db_evolves d d' \<longleftrightarrow>
     table_evolves event_ok event_fresh (events d) (events d') \<and>
     table_evolves session_ok session_fresh (sessions d) (sessions d') \<and>
     table_evolves delivery_ok delivery_fresh (deliveries d) (deliveries d')"

lemma db_evolves_refl [simp]: "db_evolves d d"
  by (simp add: db_evolves_def)

end
