(* ===== verification/Invariants.thy ===== *)
theory Invariants
  imports Schema
begin

text \<open>
  The invariant of the store: what the schema enforces (keys, unique indexes, foreign keys,
  CHECKs) together with what the guards of the store's statements keep between tables.  The lemmas
  are grouped by the statement that changes the database, so that the preservation lemma of an
  operation is one application of the lemma for its statement.
\<close>

section \<open>The invariant\<close>

definition maxEventRetries :: int where "maxEventRetries = 2"

definition isWorkerThreadKey :: "string \<Rightarrow> bool" where
  "isWorkerThreadKey k = has_prefix ''task:'' k"

definition event_inv :: "event_row \<Rightarrow> bool" where
  "event_inv r \<longleftrightarrow> event_check r \<and> 0 \<le> ev_attempts r \<and> ev_attempts r \<le> maxEventRetries \<and>
     0 \<le> ev_parks r \<and> (ev_status r = Interrupted \<longrightarrow> 0 < ev_parks r)"

definition events_wf :: "event_row list \<Rightarrow> bool" where
  "events_wf t \<longleftrightarrow> keyed ev_id t \<and> distinct (map ev_dedup_key t) \<and> (\<forall>r \<in> set t. event_inv r)"

definition session_inv :: "session_row \<Rightarrow> bool" where
  "session_inv r \<longleftrightarrow> floor_check (se_trust_floor r) \<and> (live r \<longrightarrow> se_rotated_to r = None) \<and>
     (\<exists>x. se_activation_deadline r = Some x \<and> se_created_at r < x) \<and>
     (isWorkerThreadKey (se_thread_key r) \<longrightarrow> se_origin r \<noteq> None)"

definition sessions_wf :: "session_row list \<Rightarrow> bool" where
  "sessions_wf t \<longleftrightarrow> distinct (map se_session_id t) \<and> one_live_session t \<and> one_worker_per_repo t \<and>
     (\<forall>r \<in> set t. session_inv r) \<and>
     (\<forall>r \<in> set t. \<forall>x. se_rotated_to r = Some x \<longrightarrow>
        (\<exists>q \<in> set t. se_session_id q = x \<and> se_thread_key q = se_thread_key r))"

definition delivery_inv :: "delivery_row \<Rightarrow> bool" where
  "delivery_inv r \<longleftrightarrow> (de_acked r \<noteq> None \<longleftrightarrow> de_status r = Sent)"

definition deliveries_wf :: "delivery_row list \<Rightarrow> bool" where
  "deliveries_wf t \<longleftrightarrow> keyed de_id t \<and> distinct (map de_delivery_key t) \<and>
     (\<forall>r \<in> set t. delivery_inv r)"

text \<open>Foreign keys.  An attempt that binds an event is filed under a session of the event's
  thread.\<close>

definition refs_wf :: "db \<Rightarrow> bool" where
  "refs_wf d \<longleftrightarrow>
     (\<forall>x \<in> set (deliveries d). \<forall>i. de_event_id x = Some i \<longrightarrow> i \<in> ev_id ` set (events d)) \<and>
     (\<forall>a \<in> set (tool_attempts d). ta_session_id a \<in> se_session_id ` set (sessions d)) \<and>
     (\<forall>a \<in> set (tool_attempts d). \<forall>i. ta_event_id a = Some i \<longrightarrow>
        (\<exists>s \<in> set (sessions d). \<exists>e \<in> set (events d).
           se_session_id s = ta_session_id a \<and> ev_id e = i \<and> ev_thread_key e = se_thread_key s)) \<and>
     keyed ta_id (tool_attempts d)"

text \<open>A replied event has at least one outbound row and every one of them is acked.\<close>

definition sealed_ok :: "delivery_row list \<Rightarrow> int \<Rightarrow> bool" where
  "sealed_ok t i \<longleftrightarrow> (\<exists>x \<in> set t. de_event_id x = Some i) \<and>
     (\<forall>x \<in> set t. de_event_id x = Some i \<longrightarrow> de_acked x \<noteq> None)"

definition sealed :: "db \<Rightarrow> bool" where
  "sealed d \<longleftrightarrow>
     (\<forall>e \<in> set (events d). ev_status e = Replied \<longrightarrow> sealed_ok (deliveries d) (ev_id e))"

text \<open>Dead letters and dead events agree: a record that was not requeued belongs to a dead event,
  and a dead event has such a record.\<close>

definition deaths_agree :: "db \<Rightarrow> bool" where
  "deaths_agree d \<longleftrightarrow> distinct (map dl_event_id (dead_letters d)) \<and>
     (\<forall>x \<in> set (dead_letters d). 1 \<le> dl_entries x \<and>
        (\<exists>e \<in> set (events d). ev_id e = dl_event_id x \<and>
           (dl_resolution x \<noteq> Some Requeued \<longrightarrow> ev_status e = Dead))) \<and>
     (\<forall>e \<in> set (events d). ev_status e = Dead \<longrightarrow>
        (\<exists>x \<in> set (dead_letters d). dl_event_id x = ev_id e \<and> dl_resolution x \<noteq> Some Requeued))"

definition wf_db :: "db \<Rightarrow> bool" where
  "wf_db d \<longleftrightarrow> events_wf (events d) \<and> sessions_wf (sessions d) \<and> deliveries_wf (deliveries d) \<and>
     refs_wf d \<and> sealed d \<and> deaths_agree d"

section \<open>Destruction\<close>

lemma wf_dbD:
  assumes "wf_db d"
  shows "events_wf (events d)" "sessions_wf (sessions d)" "deliveries_wf (deliveries d)"
    "refs_wf d" "sealed d" "deaths_agree d"
  using assms by (simp_all add: wf_db_def)

lemma wf_events_keyed: "wf_db d \<Longrightarrow> keyed ev_id (events d)"
  by (simp add: wf_db_def events_wf_def)

lemma wf_deliveries_keyed: "wf_db d \<Longrightarrow> keyed de_id (deliveries d)"
  by (simp add: wf_db_def deliveries_wf_def)

lemma wf_event_inv: "wf_db d \<Longrightarrow> r \<in> set (events d) \<Longrightarrow> event_inv r"
  by (simp add: wf_db_def events_wf_def)

lemma wf_delivery_inv: "wf_db d \<Longrightarrow> r \<in> set (deliveries d) \<Longrightarrow> delivery_inv r"
  by (simp add: wf_db_def deliveries_wf_def)

lemma wf_session_inv: "wf_db d \<Longrightarrow> r \<in> set (sessions d) \<Longrightarrow> session_inv r"
  by (simp add: wf_db_def sessions_wf_def)

lemma wf_event_unique:
  "wf_db d \<Longrightarrow> r \<in> set (events d) \<Longrightarrow> q \<in> set (events d) \<Longrightarrow> ev_id r = ev_id q \<Longrightarrow> r = q"
  by (blast intro: keyed_inj wf_events_keyed)

lemma wf_delivery_unique:
  "wf_db d \<Longrightarrow> r \<in> set (deliveries d) \<Longrightarrow> q \<in> set (deliveries d) \<Longrightarrow> de_id r = de_id q \<Longrightarrow> r = q"
  by (blast intro: keyed_inj wf_deliveries_keyed)

lemma wf_session_unique:
  "wf_db d \<Longrightarrow> r \<in> set (sessions d) \<Longrightarrow> q \<in> set (sessions d) \<Longrightarrow>
   se_session_id r = se_session_id q \<Longrightarrow> r = q"
  unfolding wf_db_def sessions_wf_def by (blast intro: distinct_key_inj)

lemma find_eq_Some: "find P t = Some r \<Longrightarrow> r \<in> set t \<and> P r"
  by (induction t) (auto split: if_splits)

lemma find_eq_None: "find P t = None \<longleftrightarrow> (\<forall>r \<in> set t. \<not> P r)"
  by (auto simp: find_None_iff)

lemma event_by_id_SomeD: "event_by_id i d = Some r \<Longrightarrow> r \<in> set (events d) \<and> ev_id r = i"
  by (auto simp: event_by_id_def dest: find_eq_Some)

lemma event_by_id_eq: "wf_db d \<Longrightarrow> r \<in> set (events d) \<Longrightarrow> event_by_id (ev_id r) d = Some r"
  using wf_event_unique [of d _ r]
  by (cases "event_by_id (ev_id r) d")
    (auto simp: event_by_id_def find_eq_None dest!: find_eq_Some)

lemma delivery_by_id_SomeD: "delivery_by_id i d = Some r \<Longrightarrow> r \<in> set (deliveries d) \<and> de_id r = i"
  by (auto simp: delivery_by_id_def dest: find_eq_Some)

lemma delivery_by_id_eq: "wf_db d \<Longrightarrow> r \<in> set (deliveries d) \<Longrightarrow> delivery_by_id (de_id r) d = Some r"
  using wf_delivery_unique [of d _ r]
  by (cases "delivery_by_id (de_id r) d")
    (auto simp: delivery_by_id_def find_eq_None dest!: find_eq_Some)

lemma wf_empty_db [simp]: "wf_db empty_db"
  by (simp add: wf_db_def empty_db_def events_wf_def sessions_wf_def deliveries_wf_def refs_wf_def
      sealed_def deaths_agree_def one_live_session_def one_worker_per_repo_def)

section \<open>Statements that update events\<close>

lemma event_ok_fields:
  assumes "event_ok r r'"
  shows "ev_id r' = ev_id r" "ev_dedup_key r' = ev_dedup_key r" "ev_thread_key r' = ev_thread_key r"
    "ev_kind r' = ev_kind r" "ev_trust r' = ev_trust r" "ev_payload r' = ev_payload r"
    "ev_received r' = ev_received r" "ev_correlation r' = ev_correlation r"
    "event_check r' = event_check r" "ev_attempts r \<le> ev_attempts r'" "ev_parks r \<le> ev_parks r'"
    "ev_status r' = ev_status r \<or> ev_edge (ev_status r) (ev_status r')"
  using assms by (auto simp: event_ok_def event_check_def)

text \<open>A conditional update keeps a column on which the update agrees with the row.\<close>

lemma map_sql_update_on:
  "(\<And>r. r \<in> set t \<Longrightarrow> P r \<Longrightarrow> g (f r) = g r) \<Longrightarrow> map g (sql_update P f t) = map g t"
  by (auto simp: sql_update_def)

lemma keyed_cong: "map k t' = map k t \<Longrightarrow> keyed k t' = keyed k t"
  by (simp only: keyed_def)

lemma image_map_cong: "map k t' = map k t \<Longrightarrow> k ` set t' = k ` set t"
  by (metis set_map)

lemma events_wf_update:
  assumes "events_wf t" and "\<And>r. r \<in> set t \<Longrightarrow> P r \<Longrightarrow> event_ok r (f r) \<and> event_inv (f r)"
  shows "events_wf (sql_update P f t)"
proof -
  have ok: "event_ok r (f r)" if "r \<in> set t" "P r" for r using assms(2) that by blast
  have ids: "map ev_id (sql_update P f t) = map ev_id t"
    by (rule map_sql_update_on) (rule event_ok_fields(1) [OF ok])
  have keys: "map ev_dedup_key (sql_update P f t) = map ev_dedup_key t"
    by (rule map_sql_update_on) (rule event_ok_fields(2) [OF ok])
  have "\<forall>r \<in> set (sql_update P f t). event_inv r"
    using assms by (simp add: events_wf_def ball_sql_update)
  with assms(1) keys keyed_cong [OF ids] show ?thesis by (simp add: events_wf_def)
qed

lemma refs_wf_events:
  assumes "refs_wf d"
    and "map (\<lambda>e. (ev_id e, ev_thread_key e)) t = map (\<lambda>e. (ev_id e, ev_thread_key e)) (events d)"
  shows "refs_wf (d\<lparr>events := t\<rparr>)"
proof -
  have pairs: "(\<lambda>e. (ev_id e, ev_thread_key e)) ` set t = (\<lambda>e. (ev_id e, ev_thread_key e)) ` set (events d)"
    using assms(2) by (rule image_map_cong)
  have "map ev_id t = map ev_id (events d)"
    using arg_cong [OF assms(2), of "map fst"] by (simp add: comp_def)
  then have ids: "ev_id ` set t = ev_id ` set (events d)" by (rule image_map_cong)
  have "\<exists>e' \<in> set t. ev_id e' = ev_id e \<and> ev_thread_key e' = ev_thread_key e" if "e \<in> set (events d)" for e
  proof -
    have "(ev_id e, ev_thread_key e) \<in> (\<lambda>e. (ev_id e, ev_thread_key e)) ` set t"
      using that pairs by auto
    then show ?thesis by auto
  qed
  with assms(1) show ?thesis unfolding refs_wf_def by (simp add: ids) metis
qed

lemma refs_wf_update_events:
  assumes "refs_wf d" and "\<And>r. r \<in> set (events d) \<Longrightarrow> P r \<Longrightarrow> event_ok r (f r)"
  shows "refs_wf (d\<lparr>events := sql_update P f (events d)\<rparr>)"
  by (intro refs_wf_events map_sql_update_on assms(1)) (metis assms(2) event_ok_fields(1,3))

text \<open>The general statement: every changed row follows the lifecycle, keeps its own invariant,
  neither is nor becomes dead, and becomes replied only when its deliveries seal it.\<close>

lemma wf_update_events:
  assumes "wf_db d"
    and f: "\<And>r. r \<in> set (events d) \<Longrightarrow> P r \<Longrightarrow> event_ok r (f r) \<and> event_inv (f r)"
    and live: "\<And>r. r \<in> set (events d) \<Longrightarrow> P r \<Longrightarrow> ev_status r \<noteq> Dead \<and> ev_status (f r) \<noteq> Dead"
    and seal: "\<And>r. r \<in> set (events d) \<Longrightarrow> P r \<Longrightarrow> ev_status (f r) = Replied \<Longrightarrow>
      sealed_ok (deliveries d) (ev_id r)"
  shows "wf_db (d\<lparr>events := sql_update P f (events d)\<rparr>)"
proof -
  let ?t = "sql_update P f (events d)"
  have "sealed (d\<lparr>events := ?t\<rparr>)"
    using wf_dbD(5) [OF assms(1)] seal f event_ok_fields(1)
    unfolding sealed_def by (simp, metis in_sql_update)
  moreover have "deaths_agree (d\<lparr>events := ?t\<rparr>)"
  proof -
    have keep: "e \<in> set ?t" if "e \<in> set (events d)" "ev_status e = Dead" for e
      using that live by (blast intro: in_sql_updateI_kept)
    have ids: "\<exists>e' \<in> set ?t. ev_id e' = ev_id e" if "e \<in> set (events d)" for e
      using that f event_ok_fields(1) in_sql_updateI_changed [of e "events d" P f]
        in_sql_updateI_kept [of e "events d" P f] by (cases "P e") force+
    have old: "e \<in> set (events d)" if "e \<in> set ?t" "ev_status e = Dead" for e
      using that live by (auto elim!: in_sql_update)
    from wf_dbD(6) [OF assms(1)] show ?thesis
      unfolding deaths_agree_def
      by (simp, intro conjI ballI impI; metis keep ids old)
  qed
  ultimately show ?thesis
    using assms(1) f
    by (simp add: wf_db_def events_wf_update refs_wf_update_events)
qed

lemma evolves_update_events:
  "(\<And>r. r \<in> set (events d) \<Longrightarrow> P r \<Longrightarrow> event_ok r (f r)) \<Longrightarrow>
   db_evolves d (d\<lparr>events := sql_update P f (events d)\<rparr>)"
  by (simp add: db_evolves_def el.evolves_update)

lemma event_fresh_inv: "event_fresh r \<Longrightarrow> event_inv r"
  by (simp add: event_fresh_def event_inv_def maxEventRetries_def)

lemma wf_insert_event:
  assumes "wf_db d" and "event_fresh r" and "ev_id r = next_rowid ev_id (events d)"
    and "ev_dedup_key r \<notin> ev_dedup_key ` set (events d)"
  shows "wf_db (d\<lparr>events := events d @ [r]\<rparr>)"
proof -
  have "events_wf (events d @ [r])"
    using wf_dbD(1) [OF assms(1)] assms(2-4)
    by (auto simp: events_wf_def keyed_append_next event_fresh_inv)
  moreover have "ev_status r = Received" using assms(2) by (simp add: event_fresh_def)
  ultimately show ?thesis
    using wf_dbD [OF assms(1)]
    by (simp add: wf_db_def refs_wf_def sealed_def deaths_agree_def) blast
qed

lemma evolves_insert_event:
  "event_fresh r \<Longrightarrow> db_evolves d (d\<lparr>events := events d @ [r]\<rparr>)"
  by (simp add: db_evolves_def el.evolves_insert)

section \<open>Statements that change deliveries\<close>

lemma delivery_ok_fields:
  assumes "delivery_ok r r'"
  shows "de_id r' = de_id r" "de_delivery_key r' = de_delivery_key r" "de_event_id r' = de_event_id r"
    "de_target r' = de_target r" "de_payload r' = de_payload r"
    "de_acked r \<noteq> None \<Longrightarrow> de_acked r' = de_acked r"
  using assms by (auto simp: delivery_ok_def)

lemma deliveries_wf_update:
  assumes "deliveries_wf t"
    and "\<And>r. r \<in> set t \<Longrightarrow> P r \<Longrightarrow> delivery_ok r (f r) \<and> delivery_inv (f r)"
  shows "deliveries_wf (sql_update P f t)"
proof -
  have ok: "delivery_ok r (f r)" if "r \<in> set t" "P r" for r using assms(2) that by blast
  have ids: "map de_id (sql_update P f t) = map de_id t"
    by (rule map_sql_update_on) (rule delivery_ok_fields(1) [OF ok])
  have keys: "map de_delivery_key (sql_update P f t) = map de_delivery_key t"
    by (rule map_sql_update_on) (rule delivery_ok_fields(2) [OF ok])
  have "\<forall>r \<in> set (sql_update P f t). delivery_inv r"
    using assms by (simp add: deliveries_wf_def ball_sql_update)
  with assms(1) keys keyed_cong [OF ids] show ?thesis by (simp add: deliveries_wf_def)
qed

lemma sealed_ok_update:
  assumes "sealed_ok t i" and "\<And>r. r \<in> set t \<Longrightarrow> P r \<Longrightarrow> delivery_ok r (f r)"
  shows "sealed_ok (sql_update P f t) i"
proof -
  have "de_event_id (f r) = de_event_id r" "de_acked r \<noteq> None \<Longrightarrow> de_acked (f r) \<noteq> None"
    if "r \<in> set t" "P r" for r
    using delivery_ok_fields(3,6) [OF assms(2) [OF that]] by auto
  with assms(1) show ?thesis by (auto simp: sealed_ok_def quant_sql_update)
qed

lemma wf_update_deliveries:
  assumes "wf_db d"
    and f: "\<And>r. r \<in> set (deliveries d) \<Longrightarrow> P r \<Longrightarrow> delivery_ok r (f r) \<and> delivery_inv (f r)"
  shows "wf_db (d\<lparr>deliveries := sql_update P f (deliveries d)\<rparr>)"
proof -
  have ok: "delivery_ok r (f r)" if "r \<in> set (deliveries d)" "P r" for r using f that by blast
  have ev: "de_event_id (f r) = de_event_id r" if "r \<in> set (deliveries d)" "P r" for r
    by (rule delivery_ok_fields(3) [OF ok [OF that]])
  have "refs_wf (d\<lparr>deliveries := sql_update P f (deliveries d)\<rparr>)"
    using wf_dbD(4) [OF assms(1)] ev by (simp add: refs_wf_def ball_sql_update)
  moreover have "sealed (d\<lparr>deliveries := sql_update P f (deliveries d)\<rparr>)"
    using wf_dbD(5) [OF assms(1)] sealed_ok_update [of "deliveries d" _ P f, OF _ ok]
    by (simp add: sealed_def)
  ultimately show ?thesis
    using wf_dbD [OF assms(1)] deliveries_wf_update [of "deliveries d" P f, OF _ f]
    by (simp add: wf_db_def deaths_agree_def)
qed

lemma evolves_update_deliveries:
  "(\<And>r. r \<in> set (deliveries d) \<Longrightarrow> P r \<Longrightarrow> delivery_ok r (f r)) \<Longrightarrow>
   db_evolves d (d\<lparr>deliveries := sql_update P f (deliveries d)\<rparr>)"
  by (simp add: db_evolves_def dl.evolves_update)

lemma wf_insert_delivery:
  assumes "wf_db d" and "delivery_fresh r" and "de_id r = next_rowid de_id (deliveries d)"
    and "de_delivery_key r \<notin> de_delivery_key ` set (deliveries d)"
    and "\<And>i. de_event_id r = Some i \<Longrightarrow> i \<in> ev_id ` set (events d)"
    and "\<And>e. e \<in> set (events d) \<Longrightarrow> de_event_id r = Some (ev_id e) \<Longrightarrow> ev_status e \<noteq> Replied"
  shows "wf_db (d\<lparr>deliveries := deliveries d @ [r]\<rparr>)"
proof -
  have "deliveries_wf (deliveries d @ [r])"
    using wf_dbD(3) [OF assms(1)] assms(2-4)
    by (auto simp: deliveries_wf_def keyed_append_next delivery_inv_def delivery_fresh_def)
  moreover have "sealed (d\<lparr>deliveries := deliveries d @ [r]\<rparr>)"
    using wf_dbD(5) [OF assms(1)] assms(6) by (auto simp: sealed_def sealed_ok_def)
  moreover have "refs_wf (d\<lparr>deliveries := deliveries d @ [r]\<rparr>)"
    using wf_dbD(4) [OF assms(1)] assms(5) by (auto simp: refs_wf_def)
  ultimately show ?thesis
    using wf_dbD [OF assms(1)] by (simp add: wf_db_def deaths_agree_def)
qed

lemma evolves_insert_delivery:
  "delivery_fresh r \<Longrightarrow> db_evolves d (d\<lparr>deliveries := deliveries d @ [r]\<rparr>)"
  by (simp add: db_evolves_def dl.evolves_insert)

section \<open>Statements that change sessions, attempts and the other tables\<close>

lemma wf_sessions:
  assumes "wf_db d" and "sessions_wf t"
    and cover: "\<And>s. s \<in> set (sessions d) \<Longrightarrow>
      \<exists>s' \<in> set t. se_session_id s' = se_session_id s \<and> se_thread_key s' = se_thread_key s"
  shows "wf_db (d\<lparr>sessions := t\<rparr>)"
proof -
  have "se_session_id ` set (sessions d) \<subseteq> se_session_id ` set t"
    by (rule image_subsetI) (metis cover image_eqI)
  then have "refs_wf (d\<lparr>sessions := t\<rparr>)"
    using wf_dbD(4) [OF assms(1)] cover unfolding refs_wf_def
    by (simp, intro conjI ballI allI impI) (blast, metis)
  with assms(2) wf_dbD [OF assms(1)] show ?thesis
    by (simp add: wf_db_def sealed_def deaths_agree_def)
qed

lemma wf_insert_attempt:
  assumes "wf_db d" and "ta_id r = next_rowid ta_id (tool_attempts d)"
    and "ta_session_id r \<in> se_session_id ` set (sessions d)"
    and "\<And>i. ta_event_id r = Some i \<Longrightarrow>
      \<exists>s \<in> set (sessions d). \<exists>e \<in> set (events d).
        se_session_id s = ta_session_id r \<and> ev_id e = i \<and> ev_thread_key e = se_thread_key s"
  shows "wf_db (d\<lparr>tool_attempts := tool_attempts d @ [r]\<rparr>)"
proof -
  have "refs_wf (d\<lparr>tool_attempts := tool_attempts d @ [r]\<rparr>)"
    using wf_dbD(4) [OF assms(1)] assms(2-4) by (auto simp: refs_wf_def keyed_append_next)
  with wf_dbD [OF assms(1)] show ?thesis
    by (simp add: wf_db_def sealed_def deaths_agree_def)
qed

lemma wf_update_attempts:
  assumes "wf_db d"
    and f: "\<And>r. ta_id (f r) = ta_id r \<and> ta_session_id (f r) = ta_session_id r \<and> ta_event_id (f r) = ta_event_id r"
  shows "wf_db (d\<lparr>tool_attempts := sql_update P f (tool_attempts d)\<rparr>)"
proof -
  have "refs_wf (d\<lparr>tool_attempts := sql_update P f (tool_attempts d)\<rparr>)"
    using wf_dbD(4) [OF assms(1)] f by (simp add: refs_wf_def ball_sql_update keyed_sql_update)
  with wf_dbD [OF assms(1)] show ?thesis
    by (simp add: wf_db_def sealed_def deaths_agree_def)
qed

lemma wf_untracked:
  "wf_db (d\<lparr>identities := t\<rparr>) = wf_db d" "wf_db (d\<lparr>turns := u\<rparr>) = wf_db d"
  by (simp_all add: wf_db_def refs_wf_def sealed_def deaths_agree_def)

lemma evolves_untracked [simp]:
  "db_evolves d (d\<lparr>identities := t\<rparr>)" "db_evolves d (d\<lparr>turns := u\<rparr>)"
  "db_evolves d (d\<lparr>tool_attempts := v\<rparr>)" "db_evolves d (d\<lparr>dead_letters := w\<rparr>)"
  by (simp_all add: db_evolves_def)

section \<open>Concrete stores\<close>

text \<open>Small well-formed stores on which the hypotheses of the properties are discharged: a dead
  event, a reply with one of its two chunks acked, and a turn in progress.\<close>

definition ex_event :: "int \<Rightarrow> string \<Rightarrow> ev_status \<Rightarrow> event_row" where
  "ex_event i key st =
     \<lparr>ev_id = i, ev_dedup_key = key, ev_thread_key = ''discord:dm:7'', ev_kind = ''message'',
      ev_trust = ''owner'', ev_payload = ''{}'', ev_status = st, ev_attempts = 0, ev_received = 1,
      ev_updated = None, ev_correlation = None, ev_parks = (if st = Interrupted then 1 else 0)\<rparr>"

definition ex_delivery :: "int \<Rightarrow> string \<Rightarrow> int option \<Rightarrow> delivery_row" where
  "ex_delivery i key acked =
     \<lparr>de_id = i, de_delivery_key = key, de_event_id = Some 1, de_target = ''discord:dm:7'',
      de_payload = ''hi'', de_status = (if acked = None then Pending else Sent), de_attempts = 0,
      de_last_attempt = None, de_acked = acked\<rparr>"

definition ex_session :: "string \<Rightarrow> sess_status \<Rightarrow> session_row" where
  "ex_session sid st =
     \<lparr>se_thread_key = ''discord:dm:7'', se_session_id = sid, se_status = st, se_cwd = ''/w'',
      se_origin = None, se_trust_floor = ''owner'', se_created_at = 10, se_activation_deadline = Some 20,
      se_rotated_to = None, se_last_seen = None, se_turns = None, se_tainted = False\<rparr>"

definition ex_dead_db :: db where
  "ex_dead_db = empty_db\<lparr>events := [ex_event 1 ''m1'' Dead],
     dead_letters := [\<lparr>dl_event_id = 1, dl_reason = ''malformed'', dl_entered = 5, dl_acked = None,
       dl_resolution = None, dl_entries = 1\<rparr>]\<rparr>"

definition ex_reply_db :: db where
  "ex_reply_db = empty_db\<lparr>events := [ex_event 1 ''m1'' Completed],
     deliveries := [ex_delivery 1 ''r1'' (Some 9), ex_delivery 2 ''r2'' None]\<rparr>"

definition ex_turn_db :: db where
  "ex_turn_db = empty_db\<lparr>events := [ex_event 1 ''m1'' Processing, ex_event 2 ''m2'' Received],
     sessions := [ex_session ''s1'' Active]\<rparr>"

lemmas wf_eval = wf_db_def events_wf_def sessions_wf_def deliveries_wf_def refs_wf_def sealed_def
  sealed_ok_def deaths_agree_def one_live_session_def one_worker_per_repo_def keyed_def event_inv_def
  event_check_def event_kinds_def event_trusts_def session_inv_def delivery_inv_def maxEventRetries_def
  floor_check_def live_def live_status_def like_task_def isWorkerThreadKey_def has_prefix_def empty_db_def

lemmas ex_defs = ex_event_def ex_delivery_def ex_session_def ex_dead_db_def ex_reply_db_def ex_turn_db_def

lemma wf_ex_dead_db: "wf_db ex_dead_db" by (simp add: wf_eval ex_defs)

lemma wf_ex_reply_db: "wf_db ex_reply_db" by (simp add: wf_eval ex_defs)

lemma wf_ex_turn_db: "wf_db ex_turn_db" by (simp add: wf_eval ex_defs)

end
