(* ===== verification/Store_Events.thy ===== *)
theory Store_Events
  imports Invariants
begin

text \<open>
  The durable queue: \<open>src/internal/store/events.go\<close>, \<open>queue.go\<close> and \<open>retry.go\<close>.  Each
  operation is the function of the same name, with its SQL guard as the row predicate of the
  statement and every error return as a value.  Decoding the payload is the parameter
  \<open>unmarshal\<close> (package encoding/json): \<open>None\<close> when the bytes do not decode into the four
  mirrored fields.  A driver failure is not in these functions: it ends in an error with the
  database unchanged, whichever operation it hits, and the callers that react to one take it as a
  parameter.
\<close>

section \<open>Data\<close>

record Event =
  Event_DedupKey :: string
  Event_ThreadKey :: string
  Event_Kind :: string
  Event_Trust :: string
  Event_Payload :: string
  Event_Received :: int
  Event_Correlation :: string

record QueuedEvent =
  Q_ID :: int
  Q_DedupKey :: string
  Q_ThreadKey :: string
  Q_Kind :: string
  Q_Trust :: string
  Q_Payload :: string
  Q_Status :: ev_status
  Q_Received :: int
  Q_Correlation :: string

text \<open>The anonymous struct the payload decodes into.\<close>

record mirror =
  P_DedupKey :: string
  P_ThreadKey :: string
  P_Kind :: string
  P_Trust :: string

section \<open>Receipt\<close>

definition Event_validatePayload :: "(string \<Rightarrow> mirror option) \<Rightarrow> Event \<Rightarrow> string option" where
  "Event_validatePayload unmarshal ev =
     (case unmarshal (Event_Payload ev) of
        None \<Rightarrow> Some ''payload is not a normalized event JSON object''
      | Some p \<Rightarrow>
          if P_DedupKey p \<noteq> Event_DedupKey ev then Some ''payload dedup_key disagrees''
          else if P_ThreadKey p \<noteq> Event_ThreadKey ev then Some ''payload thread_key disagrees''
          else if P_Kind p \<noteq> Event_Kind ev then Some ''payload kind disagrees''
          else if P_Trust p \<noteq> Event_Trust ev then Some ''payload trust disagrees''
          else None)"

definition Event_validate :: "(string \<Rightarrow> mirror option) \<Rightarrow> Event \<Rightarrow> string option" where
  "Event_validate unmarshal ev =
     (if Event_DedupKey ev = [] then Some ''empty dedup_key''
      else if Event_ThreadKey ev = [] then Some ''empty thread_key''
      else if Event_Kind ev = [] then Some ''empty kind''
      else if Event_Trust ev = [] then Some ''empty trust''
      else if Event_Received ev \<le> 0 then Some ''received is not positive''
      else if Event_Correlation ev = Event_DedupKey ev then Some ''correlation equals dedup_key''
      else Event_validatePayload unmarshal ev)"

definition new_event_row :: "Event \<Rightarrow> db \<Rightarrow> event_row" where
  "new_event_row ev d =
     \<lparr>ev_id = next_rowid ev_id (events d), ev_dedup_key = Event_DedupKey ev,
      ev_thread_key = Event_ThreadKey ev, ev_kind = Event_Kind ev, ev_trust = Event_Trust ev,
      ev_payload = Event_Payload ev, ev_status = Received, ev_attempts = 0,
      ev_received = Event_Received ev, ev_updated = None,
      ev_correlation = nullif_empty (Event_Correlation ev), ev_parks = 0\<rparr>"

definition InsertEvent ::
  "(string \<Rightarrow> mirror option) \<Rightarrow> Event \<Rightarrow> db \<Rightarrow> ((int \<times> bool) \<times> db) res" where
  "InsertEvent unmarshal ev d =
     (case Event_validate unmarshal ev of
        Some m \<Rightarrow> Inl (ErrInvalid m)
      | None \<Rightarrow>
          let row = new_event_row ev d in
          if \<not> event_check row then Inl (ErrConstraint ''events'')
          else if sql_exists (\<lambda>r. ev_dedup_key r = Event_DedupKey ev) (events d) then
            Inr ((0, False), d)
          else Inr ((ev_id row, True), d\<lparr>events := events d @ [row]\<rparr>))"

definition scanQueuedEvent :: "event_row \<Rightarrow> QueuedEvent" where
  "scanQueuedEvent r =
     \<lparr>Q_ID = ev_id r, Q_DedupKey = ev_dedup_key r, Q_ThreadKey = ev_thread_key r,
      Q_Kind = ev_kind r, Q_Trust = ev_trust r, Q_Payload = ev_payload r, Q_Status = ev_status r,
      Q_Received = ev_received r, Q_Correlation = null_string (ev_correlation r)\<rparr>"

definition CorrelatedEvents :: "string \<Rightarrow> db \<Rightarrow> QueuedEvent list res" where
  "CorrelatedEvents c d =
     (if c = [] then Inl (ErrInvalid ''empty link'')
      else Inr (map scanQueuedEvent (sql_select (\<lambda>r. ev_correlation r = Some c) ev_id (events d))))"

section \<open>Transitions\<close>

definition ParkEvent :: "int \<Rightarrow> int \<Rightarrow> db \<Rightarrow> db" where
  "ParkEvent i now d =
     snd (exec_events (\<lambda>r. ev_id r = i \<and> ev_status r \<in> {Received, Processing})
       (\<lambda>r. r\<lparr>ev_status := Interrupted, ev_updated := Some now, ev_parks := ev_parks r + 1\<rparr>) d)"

definition MarkEventProcessing :: "int \<Rightarrow> int \<Rightarrow> db \<Rightarrow> db res" where
  "MarkEventProcessing i now d =
     (let (n, d') = exec_events (\<lambda>r. ev_id r = i \<and> ev_status r = Received)
        (\<lambda>r. r\<lparr>ev_status := Processing, ev_updated := Some now\<rparr>) d
      in if n = 0 then Inl ErrWrongState else Inr d')"

definition MarkEventCompleted :: "int \<Rightarrow> int \<Rightarrow> db \<Rightarrow> db res" where
  "MarkEventCompleted i now d =
     (let (n, d') = exec_events (\<lambda>r. ev_id r = i \<and> ev_status r = Processing)
        (\<lambda>r. r\<lparr>ev_status := Completed, ev_updated := Some now\<rparr>) d
      in if n = 0 then Inl ErrWrongState else Inr d')"

definition MarkEventCompletedReconciled :: "int \<Rightarrow> int \<Rightarrow> db \<Rightarrow> db res" where
  "MarkEventCompletedReconciled i now d =
     (let done_status =
        (if sql_exists (\<lambda>x. de_event_id x = Some i) (deliveries d)
            \<and> \<not> sql_exists (\<lambda>x. de_event_id x = Some i \<and> de_acked x = None) (deliveries d)
         then Replied else Completed);
        (n, d') = exec_events (\<lambda>r. ev_id r = i \<and> ev_status r = Processing)
          (\<lambda>r. r\<lparr>ev_status := done_status, ev_updated := Some now\<rparr>) d
      in if n = 0 then Inl ErrWrongState else Inr d')"

definition SkipEvent :: "int \<Rightarrow> int \<Rightarrow> db \<Rightarrow> db res" where
  "SkipEvent i now d =
     (let (n, d') = exec_events (\<lambda>r. ev_id r = i \<and> ev_status r = Processing)
        (\<lambda>r. r\<lparr>ev_status := Skipped, ev_updated := Some now\<rparr>) d
      in if n = 0 then Inl ErrWrongState else Inr d')"

definition UnprocessedEvents :: "db \<Rightarrow> QueuedEvent list" where
  "UnprocessedEvents d =
     map scanQueuedEvent (sql_select (\<lambda>r. ev_status r \<in> {Received, Processing}) ev_id (events d))"

definition unkeyed_attempt :: "int \<Rightarrow> db \<Rightarrow> bool" where
  "unkeyed_attempt i d =
     sql_exists (\<lambda>a. ta_event_id a = Some i \<and> ta_idempotency_key a = None) (tool_attempts d)"

definition RequeueEventForRetry :: "int \<Rightarrow> int \<Rightarrow> db \<Rightarrow> db res" where
  "RequeueEventForRetry i now d =
     (let (n, d') = exec_events
        (\<lambda>r. ev_id r = i \<and> ev_status r = Processing \<and> ev_attempts r < maxEventRetries
             \<and> \<not> unkeyed_attempt i d)
        (\<lambda>r. r\<lparr>ev_status := Received, ev_attempts := ev_attempts r + 1, ev_updated := Some now\<rparr>) d
      in if n = 0 then
           (case event_by_id i d of
              None \<Rightarrow> Inl ErrRowMissing
            | Some r \<Rightarrow>
                if ev_status r \<noteq> Processing then Inl ErrWrongState
                else if ev_attempts r \<ge> maxEventRetries then Inl ErrRetryBudgetExhausted
                else Inl ErrSideEffectingAttempt)
         else Inr d')"

text \<open>The keys of the two kinds of notice; \<open>||\<close> renders the counter in decimal.\<close>

definition interrupted_key :: "string \<Rightarrow> int \<Rightarrow> string" where
  "interrupted_key dedup parks = ''interrupted:'' @ dedup @ '':'' @ dec_int parks"

definition dead_key :: "string \<Rightarrow> int \<Rightarrow> string" where
  "dead_key dedup entries = ''dead:'' @ dedup @ '':'' @ dec_int entries"

definition UnsurfacedInterruptedEvents :: "db \<Rightarrow> QueuedEvent list" where
  "UnsurfacedInterruptedEvents d =
     map scanQueuedEvent (sql_select
       (\<lambda>e. ev_status e = Interrupted \<and>
         \<not> sql_exists (\<lambda>x. de_delivery_key x = interrupted_key (ev_dedup_key e) (ev_parks e))
              (deliveries d))
       ev_id (events d))"

definition dead_join :: "db \<Rightarrow> (dead_row \<times> event_row) list" where
  "dead_join d = [(x, e). x \<leftarrow> dead_letters d, e \<leftarrow> events d, ev_id e = dl_event_id x]"

definition UnsurfacedDeadLetters :: "db \<Rightarrow> QueuedEvent list" where
  "UnsurfacedDeadLetters d =
     map (scanQueuedEvent \<circ> snd) (sql_select
       (\<lambda>(x, e). dl_resolution x = None \<and>
         \<not> sql_exists (\<lambda>v. de_delivery_key v = dead_key (ev_dedup_key e) (dl_entries x))
              (deliveries d))
       (\<lambda>(x, e). ev_id e) (dead_join d))"

definition RequeueInterruptedEvent :: "int \<Rightarrow> int \<Rightarrow> db \<Rightarrow> (QueuedEvent \<times> db) res" where
  "RequeueInterruptedEvent i now d =
     (let (n, d') = exec_events (\<lambda>r. ev_id r = i \<and> ev_status r = Interrupted)
        (\<lambda>r. r\<lparr>ev_status := Received, ev_updated := Some now\<rparr>) d
      in if n = 0 then
           (case event_by_id i d of None \<Rightarrow> Inl ErrRowMissing | Some r \<Rightarrow> Inl ErrWrongState)
         else
           (case event_by_id i d' of
              None \<Rightarrow> Inl ErrRowMissing
            | Some r \<Rightarrow> Inr (scanQueuedEvent r, d')))"

section \<open>The contract of a guarded transition\<close>

text \<open>Three of the transitions share one contract: they succeed exactly on an event in the source
  state, and then move that event to the target state and nothing else.\<close>

locale guarded_transition =
  fixes act :: "int \<Rightarrow> int \<Rightarrow> db \<Rightarrow> db res" and src :: ev_status and tgt :: ev_status
  assumes act_ok: "e \<in> set (events d) \<Longrightarrow> ev_id e = i \<Longrightarrow> ev_status e = src \<Longrightarrow>
      act i now d = Inr (d\<lparr>events := sql_update (\<lambda>r. ev_id r = i \<and> ev_status r = src)
        (\<lambda>r. r\<lparr>ev_status := tgt, ev_updated := Some now\<rparr>) (events d)\<rparr>)"
    and act_err: "(\<And>e. e \<in> set (events d) \<Longrightarrow> ev_id e = i \<Longrightarrow> ev_status e \<noteq> src) \<Longrightarrow>
      act i now d = Inl ErrWrongState"
    and edge: "ev_edge src tgt"
    and tgt_quiet: "tgt \<noteq> Dead" "tgt \<noteq> Replied" "tgt \<noteq> Interrupted" "src \<noteq> Dead" "tgt \<noteq> src"
begin

lemma act_InrE:
  assumes "act i now d = Inr d'"
  obtains e where "e \<in> set (events d)" "ev_id e = i" "ev_status e = src"
    "d' = d\<lparr>events := sql_update (\<lambda>r. ev_id r = i \<and> ev_status r = src)
        (\<lambda>r. r\<lparr>ev_status := tgt, ev_updated := Some now\<rparr>) (events d)\<rparr>"
proof (cases "\<exists>e \<in> set (events d). ev_id e = i \<and> ev_status e = src")
  case True
  with assms show ?thesis using act_ok [of _ d i now] that by auto
next
  case False
  then have "act i now d = Inl ErrWrongState" by (intro act_err) blast
  with assms show ?thesis by simp
qed

lemma act_iff: "(\<exists>d'. act i now d = Inr d') \<longleftrightarrow> (\<exists>e \<in> set (events d). ev_id e = i \<and> ev_status e = src)"
proof
  assume "\<exists>d'. act i now d = Inr d'"
  then show "\<exists>e \<in> set (events d). ev_id e = i \<and> ev_status e = src" by (elim exE act_InrE) blast
qed (elim bexE conjE, rule exI, rule act_ok)

lemma row_ok: "ev_status r = src \<Longrightarrow> event_ok r (r\<lparr>ev_status := tgt, ev_updated := Some now\<rparr>)"
  using edge by (simp add: event_ok_iff)

lemma act_wf: "act i now d = Inr d' \<Longrightarrow> wf_db d \<Longrightarrow> wf_db d'"
  using tgt_quiet
  by (elim act_InrE)
    (auto intro!: wf_update_events row_ok simp: event_inv_def event_check_def dest: wf_event_inv)

lemma act_evolves: "act i now d = Inr d' \<Longrightarrow> db_evolves d d'"
  by (elim act_InrE) (auto intro!: evolves_update_events row_ok)

text \<open>The transition is taken once: after it, the same call is refused.\<close>

lemma act_once: "act i now d = Inr d' \<Longrightarrow> act i now' d' = Inl ErrWrongState"
  using tgt_quiet by (elim act_InrE) (auto intro!: act_err elim!: in_sql_update)

lemma act_status:
  assumes "act i now d = Inr d'" and "wf_db d"
  shows "\<exists>r'. event_by_id i d' = Some r' \<and> ev_status r' = tgt"
proof -
  from assms(1) obtain e where e: "e \<in> set (events d)" "ev_id e = i" "ev_status e = src"
    and d': "d' = d\<lparr>events := sql_update (\<lambda>r. ev_id r = i \<and> ev_status r = src)
        (\<lambda>r. r\<lparr>ev_status := tgt, ev_updated := Some now\<rparr>) (events d)\<rparr>" by (rule act_InrE)
  let ?r = "e\<lparr>ev_status := tgt, ev_updated := Some now\<rparr>"
  have "?r \<in> set (events d')"
    using in_sql_updateI_changed [of e "events d" "\<lambda>r. ev_id r = i \<and> ev_status r = src"] e
    by (simp add: d')
  from event_by_id_eq [OF act_wf [OF assms] this] e show ?thesis by auto
qed

end

interpretation mp: guarded_transition MarkEventProcessing Received Processing
  by unfold_locales
    (auto simp: MarkEventProcessing_def exec_defs rows_affected_0)

interpretation mc: guarded_transition MarkEventCompleted Processing Completed
  by unfold_locales
    (auto simp: MarkEventCompleted_def exec_defs rows_affected_0)

interpretation sk: guarded_transition SkipEvent Processing Skipped
  by unfold_locales
    (auto simp: SkipEvent_def exec_defs rows_affected_0)

section \<open>Success and preservation\<close>

lemma InsertEvent_InrE:
  assumes "InsertEvent u ev d = Inr ((i, b), d')"
  obtains (dup) "i = 0" "\<not> b" "d' = d" "Event_DedupKey ev \<in> ev_dedup_key ` set (events d)"
    | (new) "b" "i = next_rowid ev_id (events d)" "event_fresh (new_event_row ev d)"
      "d' = d\<lparr>events := events d @ [new_event_row ev d]\<rparr>"
      "Event_DedupKey ev \<notin> ev_dedup_key ` set (events d)" "Event_validate u ev = None"
proof (cases "sql_exists (\<lambda>r. ev_dedup_key r = Event_DedupKey ev) (events d)")
  case True
  then have "Event_DedupKey ev \<in> ev_dedup_key ` set (events d)"
    by (auto simp: sql_exists_iff intro: rev_image_eqI)
  with True assms show ?thesis
    by (intro dup) (simp_all add: InsertEvent_def Let_def split: option.splits if_splits)
next
  case False
  with assms show ?thesis
    by (intro new) (auto simp: InsertEvent_def Let_def sql_simps event_fresh_def new_event_row_def
        split: option.splits if_splits)
qed

lemma InsertEvent_wf: "InsertEvent u ev d = Inr (x, d') \<Longrightarrow> wf_db d \<Longrightarrow> wf_db d'"
  by (cases x) (auto elim!: InsertEvent_InrE intro!: wf_insert_event simp: new_event_row_def)

lemma InsertEvent_evolves: "InsertEvent u ev d = Inr (x, d') \<Longrightarrow> db_evolves d d'"
  by (cases x) (auto elim!: InsertEvent_InrE intro!: evolves_insert_event)

interpretation ie: keyed_insert "InsertEvent u" Event_DedupKey "\<lambda>d. map ev_dedup_key (events d)"
  by unfold_locales (auto elim!: InsertEvent_InrE simp: new_event_row_def)

lemma ParkEvent_eq:
  "ParkEvent i now d = d\<lparr>events := sql_update
     (\<lambda>r. ev_id r = i \<and> ev_status r \<in> {Received, Processing})
     (\<lambda>r. r\<lparr>ev_status := Interrupted, ev_updated := Some now, ev_parks := ev_parks r + 1\<rparr>) (events d)\<rparr>"
  by (simp add: ParkEvent_def exec_defs)

lemma ParkEvent_wf: "wf_db d \<Longrightarrow> wf_db (ParkEvent i now d)"
  unfolding ParkEvent_eq
  by (rule wf_update_events) (auto simp: event_ok_iff event_inv_def event_check_def dest!: wf_event_inv)

lemma ParkEvent_evolves: "db_evolves d (ParkEvent i now d)"
  unfolding ParkEvent_eq by (rule evolves_update_events) (auto simp: event_ok_iff)

lemma Reconciled_InrE:
  assumes "MarkEventCompletedReconciled i now d = Inr d'"
  obtains s where "s = Completed \<or> (s = Replied \<and> sealed_ok (deliveries d) i)"
    "d' = d\<lparr>events := sql_update (\<lambda>r. ev_id r = i \<and> ev_status r = Processing)
        (\<lambda>r. r\<lparr>ev_status := s, ev_updated := Some now\<rparr>) (events d)\<rparr>"
    "\<exists>e \<in> set (events d). ev_id e = i \<and> ev_status e = Processing"
proof
  let ?s = "if sealed_ok (deliveries d) i then Replied else Completed"
  show "?s = Completed \<or> (?s = Replied \<and> sealed_ok (deliveries d) i)" by simp
  show "d' = d\<lparr>events := sql_update (\<lambda>r. ev_id r = i \<and> ev_status r = Processing)
        (\<lambda>r. r\<lparr>ev_status := ?s, ev_updated := Some now\<rparr>) (events d)\<rparr>"
    using assms unfolding MarkEventCompletedReconciled_def
    by (auto simp: Let_def exec_defs sql_simps sealed_ok_def split: if_splits)
  show "\<exists>e \<in> set (events d). ev_id e = i \<and> ev_status e = Processing"
    using assms unfolding MarkEventCompletedReconciled_def
    by (auto simp: Let_def exec_defs sql_simps split: if_splits)
qed

lemma Reconciled_wf: "MarkEventCompletedReconciled i now d = Inr d' \<Longrightarrow> wf_db d \<Longrightarrow> wf_db d'"
  by (elim Reconciled_InrE)
    (auto intro!: wf_update_events simp: event_ok_iff event_inv_def event_check_def dest: wf_event_inv)

lemma Reconciled_evolves: "MarkEventCompletedReconciled i now d = Inr d' \<Longrightarrow> db_evolves d d'"
  by (elim Reconciled_InrE) (auto intro!: evolves_update_events simp: event_ok_iff)

lemma Requeue_InrE:
  assumes "RequeueEventForRetry i now d = Inr d'"
  obtains e where "e \<in> set (events d)" "ev_id e = i" "ev_status e = Processing"
    "ev_attempts e < maxEventRetries" "\<not> unkeyed_attempt i d"
    "d' = d\<lparr>events := sql_update
       (\<lambda>r. ev_id r = i \<and> ev_status r = Processing \<and> ev_attempts r < maxEventRetries)
       (\<lambda>r. r\<lparr>ev_status := Received, ev_attempts := ev_attempts r + 1, ev_updated := Some now\<rparr>)
       (events d)\<rparr>"
  using assms unfolding RequeueEventForRetry_def
  by (auto simp: exec_defs sql_simps split: if_splits option.splits)

lemma Requeue_wf: "RequeueEventForRetry i now d = Inr d' \<Longrightarrow> wf_db d \<Longrightarrow> wf_db d'"
  by (elim Requeue_InrE)
    (auto intro!: wf_update_events simp: event_ok_iff event_inv_def event_check_def maxEventRetries_def
      dest: wf_event_inv)

lemma Requeue_evolves: "RequeueEventForRetry i now d = Inr d' \<Longrightarrow> db_evolves d d'"
  by (elim Requeue_InrE) (auto intro!: evolves_update_events simp: event_ok_iff)

lemma RequeueInterrupted_InrE:
  assumes "RequeueInterruptedEvent i now d = Inr (q, d')"
  obtains e where "e \<in> set (events d)" "ev_id e = i" "ev_status e = Interrupted"
    "d' = d\<lparr>events := sql_update (\<lambda>r. ev_id r = i \<and> ev_status r = Interrupted)
        (\<lambda>r. r\<lparr>ev_status := Received, ev_updated := Some now\<rparr>) (events d)\<rparr>"
    "\<exists>r. event_by_id i d' = Some r \<and> q = scanQueuedEvent r"
  using assms unfolding RequeueInterruptedEvent_def
  by (auto simp: exec_defs sql_simps split: if_splits option.splits)

lemma RequeueInterrupted_wf: "RequeueInterruptedEvent i now d = Inr (q, d') \<Longrightarrow> wf_db d \<Longrightarrow> wf_db d'"
  by (elim RequeueInterrupted_InrE)
    (auto intro!: wf_update_events simp: event_ok_iff event_inv_def event_check_def dest: wf_event_inv)

lemma RequeueInterrupted_evolves: "RequeueInterruptedEvent i now d = Inr (q, d') \<Longrightarrow> db_evolves d d'"
  by (elim RequeueInterrupted_InrE) (auto intro!: evolves_update_events simp: event_ok_iff)

lemma interrupted_key_inj: "interrupted_key b i = interrupted_key c j \<Longrightarrow> b = c \<and> i = j"
  unfolding interrupted_key_def by (rule numbered_key_inj)

lemma dead_key_inj: "dead_key b i = dead_key c j \<Longrightarrow> b = c \<and> i = j"
  unfolding dead_key_def by (rule numbered_key_inj)

lemma notice_keys_disjoint: "interrupted_key b i \<noteq> dead_key c j"
  by (simp add: interrupted_key_def dead_key_def)

end
