(* ===== verification/Store_Attempts.thy ===== *)
theory Store_Attempts
  imports Store_Events
begin

text \<open>
  The journal of side-effecting tool calls (\<open>src/internal/store/tool_attempts.go\<close>), which the
  retry decision reads.  The two checks of the insert ride its statement, and the foreign key on
  \<open>session_id\<close> refuses a session the daemon never created.
\<close>

section \<open>Operations\<close>

record ToolAttempt =
  TA_SessionID :: string
  TA_EventID :: int
  TA_Tool :: string
  TA_ArgsDigest :: string
  TA_IdempotencyKey :: string
  TA_StartedAt :: int
  TA_State :: att_state
  TA_EndedAt :: int

definition ToolAttempt_validate :: "ToolAttempt \<Rightarrow> string option" where
  "ToolAttempt_validate a =
     (if TA_SessionID a = [] then Some ''empty session_id''
      else if TA_Tool a = [] then Some ''empty tool''
      else if TA_ArgsDigest a = [] then Some ''empty args_digest''
      else if TA_StartedAt a \<le> 0 then Some ''started_at is not positive''
      else if TA_EventID a < 0 then Some ''negative event_id''
      else None)"

definition zero_null :: "int \<Rightarrow> int option" where
  "zero_null i = (if i = 0 then None else Some i)"

definition one_live_turn :: "string \<Rightarrow> int \<Rightarrow> db \<Rightarrow> bool" where
  "one_live_turn sid i d =
     sql_exists (\<lambda>s. se_session_id s = sid \<and>
       sql_exists (\<lambda>e. ev_thread_key e = se_thread_key s \<and> ev_id e = i \<and> ev_status e = Processing) (events d))
     (sessions d)"

definition new_attempt_row :: "ToolAttempt \<Rightarrow> db \<Rightarrow> attempt_row" where
  "new_attempt_row a d =
     \<lparr>ta_id = next_rowid ta_id (tool_attempts d), ta_session_id = TA_SessionID a,
      ta_event_id = zero_null (TA_EventID a), ta_tool = TA_Tool a, ta_args_digest = TA_ArgsDigest a,
      ta_idempotency_key = nullif_empty (TA_IdempotencyKey a), ta_state = Started,
      ta_started_at = TA_StartedAt a, ta_ended_at = None\<rparr>"

definition InsertToolAttempt :: "ToolAttempt \<Rightarrow> db \<Rightarrow> (int \<times> db) res" where
  "InsertToolAttempt a d =
     (case ToolAttempt_validate a of
        Some m \<Rightarrow> Inl (ErrInvalid m)
      | None \<Rightarrow>
          if TA_EventID a \<noteq> 0 \<and> \<not> one_live_turn (TA_SessionID a) (TA_EventID a) d then Inl ErrWrongState
          else if \<not> sql_exists (\<lambda>s. se_session_id s = TA_SessionID a) (sessions d) then
            Inl (ErrConstraint ''tool_attempts.session_id'')
          else Inr (ta_id (new_attempt_row a d),
                    d\<lparr>tool_attempts := tool_attempts d @ [new_attempt_row a d]\<rparr>))"

definition CompleteToolAttempt :: "int \<Rightarrow> string \<Rightarrow> int \<Rightarrow> db \<Rightarrow> db res" where
  "CompleteToolAttempt i outcome endedAt d =
     (if outcome \<noteq> ''done'' \<and> outcome \<noteq> ''failed'' then Inl (ErrInvalid ''outcome is not done or failed'')
      else
        let (n, d') = exec_attempts (\<lambda>a. ta_id a = i \<and> ta_state a = Started)
          (\<lambda>a. a\<lparr>ta_state := (if outcome = ''done'' then Done else AFailed), ta_ended_at := Some endedAt\<rparr>) d
        in if n = 0 then Inl ErrWrongState else Inr d')"

definition AttemptsForEvent :: "int \<Rightarrow> db \<Rightarrow> ToolAttempt list" where
  "AttemptsForEvent i d =
     map (\<lambda>a. \<lparr>TA_SessionID = ta_session_id a, TA_EventID = null_int (ta_event_id a), TA_Tool = ta_tool a,
            TA_ArgsDigest = ta_args_digest a, TA_IdempotencyKey = null_string (ta_idempotency_key a),
            TA_StartedAt = ta_started_at a, TA_State = ta_state a, TA_EndedAt = null_int (ta_ended_at a)\<rparr>)
       (sql_select (\<lambda>a. ta_event_id a = Some i) ta_id (tool_attempts d))"

section \<open>Preservation\<close>

lemma InsertAttempt_InrE:
  assumes "InsertToolAttempt a d = Inr (i, d')"
  obtains "ToolAttempt_validate a = None"
    "d' = d\<lparr>tool_attempts := tool_attempts d @ [new_attempt_row a d]\<rparr>" "i = ta_id (new_attempt_row a d)"
    "\<exists>s \<in> set (sessions d). se_session_id s = TA_SessionID a"
    "TA_EventID a = 0 \<or> one_live_turn (TA_SessionID a) (TA_EventID a) d"
  using assms unfolding InsertToolAttempt_def sql_exists_iff
  by (simp split: option.splits if_splits)

lemma one_live_turn_iff:
  "one_live_turn sid i d \<longleftrightarrow> (\<exists>s \<in> set (sessions d). \<exists>e \<in> set (events d). se_session_id s = sid \<and>
     ev_id e = i \<and> ev_thread_key e = se_thread_key s \<and> ev_status e = Processing)"
  by (auto simp: one_live_turn_def sql_exists_iff)

lemma InsertAttempt_wf: "InsertToolAttempt a d = Inr (i, d') \<Longrightarrow> wf_db d \<Longrightarrow> wf_db d'"
proof (erule InsertAttempt_InrE)
  assume wf: "wf_db d" and d': "d' = d\<lparr>tool_attempts := tool_attempts d @ [new_attempt_row a d]\<rparr>"
    and s: "\<exists>s \<in> set (sessions d). se_session_id s = TA_SessionID a"
    and turn: "TA_EventID a = 0 \<or> one_live_turn (TA_SessionID a) (TA_EventID a) d"
  show ?thesis
    unfolding d'
  proof (rule wf_insert_attempt [OF wf])
    show "ta_session_id (new_attempt_row a d) \<in> se_session_id ` set (sessions d)"
      using s by (auto simp: new_attempt_row_def intro: rev_image_eqI)
    fix j assume "ta_event_id (new_attempt_row a d) = Some j"
    then have "TA_EventID a = j" "j \<noteq> 0" by (auto simp: new_attempt_row_def zero_null_def split: if_splits)
    with turn show "\<exists>s \<in> set (sessions d). \<exists>e \<in> set (events d). se_session_id s =
        ta_session_id (new_attempt_row a d) \<and> ev_id e = j \<and> ev_thread_key e = se_thread_key s"
      unfolding one_live_turn_iff new_attempt_row_def by fastforce
  qed (simp add: new_attempt_row_def)
qed

lemma InsertAttempt_evolves: "InsertToolAttempt a d = Inr (i, d') \<Longrightarrow> db_evolves d d'"
  by (erule InsertAttempt_InrE) simp

lemma CompleteAttempt_InrE:
  assumes "CompleteToolAttempt i outcome endedAt d = Inr d'"
  obtains a where "a \<in> set (tool_attempts d)" "ta_id a = i" "ta_state a = Started"
    "d' = d\<lparr>tool_attempts := sql_update (\<lambda>a. ta_id a = i \<and> ta_state a = Started)
      (\<lambda>a. a\<lparr>ta_state := (if outcome = ''done'' then Done else AFailed), ta_ended_at := Some endedAt\<rparr>)
      (tool_attempts d)\<rparr>"
  using assms unfolding CompleteToolAttempt_def by (auto simp: exec_defs sql_simps split: if_splits)

lemma CompleteAttempt_wf: "CompleteToolAttempt i outcome endedAt d = Inr d' \<Longrightarrow> wf_db d \<Longrightarrow> wf_db d'"
  by (erule CompleteAttempt_InrE) (auto intro!: wf_update_attempts)

lemma CompleteAttempt_evolves: "CompleteToolAttempt i outcome endedAt d = Inr d' \<Longrightarrow> db_evolves d d'"
  by (erule CompleteAttempt_InrE) simp

text \<open>The retry guard and the journal agree: an event has an unkeyed attempt exactly when the read
  API shows one without an idempotency key.\<close>

lemma unkeyed_attempt_iff:
  assumes "\<And>a. a \<in> set (tool_attempts d) \<Longrightarrow> ta_idempotency_key a \<noteq> Some []"
  shows "unkeyed_attempt i d \<longleftrightarrow> (\<exists>a \<in> set (AttemptsForEvent i d). TA_IdempotencyKey a = [])"
proof -
  have "null_string (ta_idempotency_key a) = [] \<longleftrightarrow> ta_idempotency_key a = None"
    if "a \<in> set (tool_attempts d)" for a
    using assms [OF that] by (cases "ta_idempotency_key a") (auto simp: null_string_def)
  then show ?thesis
    by (auto simp: unkeyed_attempt_def AttemptsForEvent_def sql_exists_iff set_sql_select)
qed

end
