(* ===== verification/Store_Outbox.thy ===== *)
theory Store_Outbox
  imports Store_Attempts
begin

text \<open>
  The outbox (\<open>src/internal/store/deliveries.go\<close>): write-before-send inserts, the scan of what is
  owed a send, attempt stamps, the platform ack that may advance an event to replied, and the
  terminal give-up.
\<close>

section \<open>Inserts\<close>

record Delivery =
  D_DeliveryKey :: string
  D_EventID :: int
  D_Target :: string
  D_Payload :: string

definition Delivery_validate :: "Delivery \<Rightarrow> string option" where
  "Delivery_validate x =
     (if D_DeliveryKey x = [] then Some ''empty delivery_key''
      else if D_Target x = [] then Some ''empty target''
      else if D_Payload x = [] then Some ''empty payload''
      else if D_EventID x < 0 then Some ''negative event_id''
      else None)"

definition new_delivery_row :: "Delivery \<Rightarrow> db \<Rightarrow> delivery_row" where
  "new_delivery_row x d =
     \<lparr>de_id = next_rowid de_id (deliveries d), de_delivery_key = D_DeliveryKey x,
      de_event_id = zero_null (D_EventID x), de_target = D_Target x, de_payload = D_Payload x,
      de_status = Pending, de_attempts = 0, de_last_attempt = None, de_acked = None\<rparr>"

definition insertDelivery :: "Delivery \<Rightarrow> db \<Rightarrow> ((int \<times> bool) \<times> db) res" where
  "insertDelivery x d =
     (case Delivery_validate x of
        Some m \<Rightarrow> Inl (ErrInvalid m)
      | None \<Rightarrow>
          let known = sql_exists (\<lambda>r. de_delivery_key r = D_DeliveryKey x) (deliveries d);
              replied = sql_exists (\<lambda>e. zero_null (D_EventID x) = Some (ev_id e) \<and> ev_status e = Replied) (events d)
          in if replied \<or> known then (if known then Inr ((0, False), d) else Inl ErrSealed)
             else if D_EventID x \<noteq> 0 \<and> \<not> sql_exists (\<lambda>e. ev_id e = D_EventID x) (events d) then
               Inl (ErrConstraint ''deliveries.event_id'')
             else Inr ((next_rowid de_id (deliveries d), True),
                       d\<lparr>deliveries := deliveries d @ [new_delivery_row x d]\<rparr>))"

definition InsertDelivery :: "Delivery \<Rightarrow> db \<Rightarrow> ((int \<times> bool) \<times> db) res" where
  "InsertDelivery = insertDelivery"

text \<open>The loop of the batch insert over the transaction's database; \<open>Inr None\<close> is the early return
  on a duplicate key.\<close>

fun insert_batch :: "Delivery list \<Rightarrow> db \<Rightarrow> ((int list \<times> db) option) res" where
  "insert_batch [] d = Inr (Some ([], d))"
| "insert_batch (x # xs) d =
     (case insertDelivery x d of
        Inl e \<Rightarrow> Inl e
      | Inr ((i, b), d') \<Rightarrow>
          if \<not> b then Inr None
          else (case insert_batch xs d' of
                  Inl e \<Rightarrow> Inl e
                | Inr None \<Rightarrow> Inr None
                | Inr (Some (ids, d'')) \<Rightarrow> Inr (Some (i # ids, d''))))"

definition InsertDeliveries :: "Delivery list \<Rightarrow> db \<Rightarrow> ((int list \<times> bool) \<times> db) res" where
  "InsertDeliveries xs d =
     (case insert_batch xs d of
        Inl e \<Rightarrow> Inl e
      | Inr None \<Rightarrow> Inr (([], False), d)
      | Inr (Some (ids, d')) \<Rightarrow> Inr ((ids, True), d'))"

section \<open>Reads\<close>

definition OwedDeliveriesBefore :: "string \<Rightarrow> int \<Rightarrow> db \<Rightarrow> nat" where
  "OwedDeliveriesBefore target before d =
     rows_affected (\<lambda>r. de_target r = target \<and> de_id r < before \<and> owed r) (deliveries d)"

definition HasOwedDeliveries :: "string \<Rightarrow> db \<Rightarrow> bool" where
  "HasOwedDeliveries target d = sql_exists (\<lambda>r. de_target r = target \<and> owed r) (deliveries d)"

definition EventHasDeliveries :: "int \<Rightarrow> db \<Rightarrow> bool" where
  "EventHasDeliveries i d = sql_exists (\<lambda>r. de_event_id r = Some i) (deliveries d)"

record ResendableDelivery =
  RD_ID :: int
  RD_DeliveryKey :: string
  RD_EventID :: int
  RD_Target :: string
  RD_Payload :: string
  RD_Attempts :: int

definition scanResendable :: "delivery_row \<Rightarrow> ResendableDelivery" where
  "scanResendable r =
     \<lparr>RD_ID = de_id r, RD_DeliveryKey = de_delivery_key r, RD_EventID = null_int (de_event_id r),
      RD_Target = de_target r, RD_Payload = de_payload r, RD_Attempts = de_attempts r\<rparr>"

definition ResendableDeliveries :: "db \<Rightarrow> ResendableDelivery list" where
  "ResendableDeliveries d = map scanResendable (sql_select owed de_id (deliveries d))"

section \<open>Transitions\<close>

definition MarkDeliveryAttempt :: "int \<Rightarrow> int \<Rightarrow> db \<Rightarrow> db res" where
  "MarkDeliveryAttempt i now d =
     (let (n, d') = exec_deliveries (\<lambda>r. de_id r = i \<and> owed r)
        (\<lambda>r. r\<lparr>de_attempts := de_attempts r + 1, de_last_attempt := Some now\<rparr>) d
      in if n = 0 then Inl ErrWrongState else Inr d')"

definition AckDelivery :: "int \<Rightarrow> int \<Rightarrow> db \<Rightarrow> db res" where
  "AckDelivery i now d =
     (let (n, d1) = exec_deliveries (\<lambda>r. de_id r = i \<and> owed r)
        (\<lambda>r. r\<lparr>de_status := Sent, de_acked := Some now\<rparr>) d
      in if n = 0 then
           (case delivery_by_id i d1 of
              None \<Rightarrow> Inl ErrRowMissing
            | Some r \<Rightarrow> if de_acked r \<noteq> None then Inr d else Inl ErrTerminallyFailed)
         else
           (case delivery_by_id i d1 of
              None \<Rightarrow> Inl ErrRowMissing
            | Some r \<Rightarrow>
                (case de_event_id r of
                   None \<Rightarrow> Inr d1
                 | Some ev \<Rightarrow>
                     let (m, d2) = exec_events
                       (\<lambda>e. ev_id e = ev \<and> ev_status e = Completed \<and>
                         \<not> sql_exists (\<lambda>x. de_event_id x = Some ev \<and> de_acked x = None) (deliveries d1))
                       (\<lambda>e. e\<lparr>ev_status := Replied, ev_updated := Some now\<rparr>) d1
                     in if m = 0 then
                          (case event_by_id ev d1 of
                             None \<Rightarrow> Inl ErrRowMissing
                           | Some e \<Rightarrow>
                               if ev_status e = Received \<or> ev_status e = Processing then
                                 Inl ErrReplyOutranTurn
                               else Inr d2)
                        else Inr d2)))"

definition MarkDeliveryFailed :: "int \<Rightarrow> db \<Rightarrow> db res" where
  "MarkDeliveryFailed i d =
     (let (n, d') = exec_deliveries (\<lambda>r. de_id r = i \<and> owed r) (\<lambda>r. r\<lparr>de_status := DFailed\<rparr>) d
      in if n = 0 then Inl ErrWrongState else Inr d')"

section \<open>Preservation by inserts\<close>

lemma new_delivery_fresh: "delivery_fresh (new_delivery_row x d)"
  by (simp add: delivery_fresh_def new_delivery_row_def)

lemma insertDelivery_InrE:
  assumes "insertDelivery x d = Inr ((i, b), d')"
  obtains (dup) "i = 0" "\<not> b" "d' = d" "D_DeliveryKey x \<in> de_delivery_key ` set (deliveries d)"
    | (new) "b" "i = next_rowid de_id (deliveries d)"
      "d' = d\<lparr>deliveries := deliveries d @ [new_delivery_row x d]\<rparr>"
      "D_DeliveryKey x \<notin> de_delivery_key ` set (deliveries d)"
      "D_EventID x \<noteq> 0 \<Longrightarrow> D_EventID x \<in> ev_id ` set (events d)"
      "\<And>e. e \<in> set (events d) \<Longrightarrow> zero_null (D_EventID x) = Some (ev_id e) \<Longrightarrow> ev_status e \<noteq> Replied"
proof (cases "sql_exists (\<lambda>r. de_delivery_key r = D_DeliveryKey x) (deliveries d)")
  case True
  then have "D_DeliveryKey x \<in> de_delivery_key ` set (deliveries d)"
    by (auto simp: sql_exists_iff intro: rev_image_eqI)
  with True assms show ?thesis
    by (intro dup) (simp_all add: insertDelivery_def Let_def split: option.splits if_splits)
next
  case False
  have "D_EventID x \<noteq> 0 \<Longrightarrow> D_EventID x \<in> ev_id ` set (events d)"
    using assms False
    by (auto simp: insertDelivery_def Let_def sql_exists_iff split: option.splits if_splits intro: rev_image_eqI)
  with False assms show ?thesis
    by (intro new) (auto simp: insertDelivery_def Let_def sql_exists_iff split: option.splits if_splits)
qed

lemma insertDelivery_wf: "insertDelivery x d = Inr (p, d') \<Longrightarrow> wf_db d \<Longrightarrow> wf_db d'"
proof (cases p)
  case (Pair i b)
  assume "insertDelivery x d = Inr (p, d')" and wf: "wf_db d"
  then have "insertDelivery x d = Inr ((i, b), d')" by (simp add: Pair)
  then show ?thesis
  proof (cases rule: insertDelivery_InrE)
    case dup
    with wf show ?thesis by simp
  next
    case new
    show ?thesis
      unfolding new(3)
      by (rule wf_insert_delivery [OF wf new_delivery_fresh])
        (use new(4-6) in \<open>auto simp: new_delivery_row_def zero_null_def split: if_splits\<close>)
  qed
qed

lemma insertDelivery_evolves: "insertDelivery x d = Inr (p, d') \<Longrightarrow> db_evolves d d'"
  by (cases p) (auto elim!: insertDelivery_InrE intro!: evolves_insert_delivery new_delivery_fresh)

interpretation id: keyed_insert insertDelivery D_DeliveryKey "\<lambda>d. map de_delivery_key (deliveries d)"
  by unfold_locales (auto elim!: insertDelivery_InrE simp: new_delivery_row_def)

lemma insert_batch_Cons_SomeE:
  assumes "insert_batch (x # xs) d = Inr (Some (ids, d'))"
  obtains i d1 js where "insertDelivery x d = Inr ((i, True), d1)" "insert_batch xs d1 = Inr (Some (js, d'))"
    "ids = i # js"
  using assms by (auto split: sum.splits prod.splits if_splits option.splits)

lemma insert_batch_wf: "insert_batch xs d = Inr (Some (ids, d')) \<Longrightarrow> wf_db d \<Longrightarrow> wf_db d'"
proof (induction xs arbitrary: d ids)
  case (Cons x xs)
  from Cons.prems(1) obtain i d1 js where "insertDelivery x d = Inr ((i, True), d1)"
    "insert_batch xs d1 = Inr (Some (js, d'))" by (rule insert_batch_Cons_SomeE)
  then show ?case using Cons.IH Cons.prems(2) insertDelivery_wf by blast
qed simp

text \<open>What a committed batch leaves behind: the old rows, then one new pending row per chunk in order.\<close>

lemma insert_batch_rows:
  "insert_batch xs d = Inr (Some (ids, d')) \<Longrightarrow>
   \<exists>new. deliveries d' = deliveries d @ new \<and> map de_id new = ids \<and> events d' = events d \<and>
     map de_delivery_key new = map D_DeliveryKey xs \<and> map de_payload new = map D_Payload xs \<and>
     map de_target new = map D_Target xs \<and> (\<forall>r \<in> set new. delivery_fresh r)"
proof (induction xs arbitrary: d ids)
  case (Cons x xs)
  from Cons.prems obtain i d1 js where i: "insertDelivery x d = Inr ((i, True), d1)"
    and "insert_batch xs d1 = Inr (Some (js, d'))" and ids: "ids = i # js"
    by (rule insert_batch_Cons_SomeE)
  from Cons.IH [OF this(2)] obtain new where new: "deliveries d' = deliveries d1 @ new" "map de_id new = js"
    "events d' = events d1" "map de_delivery_key new = map D_DeliveryKey xs"
    "map de_payload new = map D_Payload xs" "map de_target new = map D_Target xs"
    "\<forall>r \<in> set new. delivery_fresh r" by blast
  from i have "d1 = d\<lparr>deliveries := deliveries d @ [new_delivery_row x d]\<rparr> \<and> i = next_rowid de_id (deliveries d)"
    by (rule insertDelivery_InrE) auto
  with new ids new_delivery_fresh [of x d] show ?case
    by (intro exI [of _ "new_delivery_row x d # new"]) (simp add: new_delivery_row_def)
qed simp

lemma insert_batch_evolves:
  assumes "insert_batch xs d = Inr (Some (ids, d'))" shows "db_evolves d d'"
proof -
  have others: "sessions d' = sessions d" "events d' = events d" using assms
  proof (induction xs arbitrary: d ids)
    case (Cons x xs)
    { case 1 then show ?case using Cons.IH
        by (elim insert_batch_Cons_SomeE) (auto elim!: insertDelivery_InrE) }
    { case 2 then show ?case using Cons.IH
        by (elim insert_batch_Cons_SomeE) (auto elim!: insertDelivery_InrE) }
  qed simp_all
  from insert_batch_rows [OF assms] obtain new where "deliveries d' = deliveries d @ new"
    "\<forall>r \<in> set new. delivery_fresh r" by blast
  then have "table_evolves delivery_ok delivery_fresh (deliveries d) (deliveries d')"
    by (simp add: table_evolves_def list_all2_same dl.ok_refl)
  with others show ?thesis by (simp add: db_evolves_def)
qed

section \<open>Preservation by transitions\<close>

lemma owed_row_ok:
  assumes "owed r"
  shows "delivery_ok r (r\<lparr>de_attempts := de_attempts r + 1, de_last_attempt := Some now\<rparr>)"
    "delivery_inv r \<Longrightarrow> delivery_inv (r\<lparr>de_attempts := de_attempts r + 1, de_last_attempt := Some now\<rparr>)"
  using assms by (auto simp: delivery_ok_iff delivery_inv_def owed_def)

lemma owed_pending: "owed r \<Longrightarrow> delivery_inv r \<Longrightarrow> de_status r = Pending"
  by (cases "de_status r") (auto simp: owed_def delivery_inv_def)

lemma MarkAttempt_InrE:
  assumes "MarkDeliveryAttempt i now d = Inr d'"
  obtains r where "r \<in> set (deliveries d)" "de_id r = i" "owed r"
    "d' = d\<lparr>deliveries := sql_update (\<lambda>r. de_id r = i \<and> owed r)
      (\<lambda>r. r\<lparr>de_attempts := de_attempts r + 1, de_last_attempt := Some now\<rparr>) (deliveries d)\<rparr>"
  using assms unfolding MarkDeliveryAttempt_def by (auto simp: exec_defs sql_simps split: if_splits)

lemma MarkAttempt_wf: "MarkDeliveryAttempt i now d = Inr d' \<Longrightarrow> wf_db d \<Longrightarrow> wf_db d'"
  by (erule MarkAttempt_InrE) (auto intro!: wf_update_deliveries owed_row_ok dest: wf_delivery_inv)

lemma MarkAttempt_evolves: "MarkDeliveryAttempt i now d = Inr d' \<Longrightarrow> db_evolves d d'"
  by (erule MarkAttempt_InrE) (auto intro!: evolves_update_deliveries owed_row_ok)

lemma MarkFailed_InrE:
  assumes "MarkDeliveryFailed i d = Inr d'"
  obtains r where "r \<in> set (deliveries d)" "de_id r = i" "owed r"
    "d' = d\<lparr>deliveries := sql_update (\<lambda>r. de_id r = i \<and> owed r) (\<lambda>r. r\<lparr>de_status := DFailed\<rparr>) (deliveries d)\<rparr>"
  using assms unfolding MarkDeliveryFailed_def by (auto simp: exec_defs sql_simps split: if_splits)

lemma failed_row_ok: "owed r \<Longrightarrow> delivery_inv r \<Longrightarrow> delivery_ok r (r\<lparr>de_status := DFailed\<rparr>)"
  using owed_pending [of r] by (simp add: delivery_ok_iff)

lemma MarkFailed_wf: "MarkDeliveryFailed i d = Inr d' \<Longrightarrow> wf_db d \<Longrightarrow> wf_db d'"
  by (erule MarkFailed_InrE)
    (auto intro!: wf_update_deliveries failed_row_ok simp: delivery_inv_def owed_def dest: wf_delivery_inv)

lemma MarkFailed_evolves: "MarkDeliveryFailed i d = Inr d' \<Longrightarrow> wf_db d \<Longrightarrow> db_evolves d d'"
  by (erule MarkFailed_InrE)
    (auto intro!: evolves_update_deliveries failed_row_ok dest: wf_delivery_inv)

section \<open>The ack\<close>

text \<open>The two writes of the ack, named: the stamp on the delivery and the advance of its event.\<close>

definition ack_stamp :: "int \<Rightarrow> int \<Rightarrow> db \<Rightarrow> db" where
  "ack_stamp i now d = d\<lparr>deliveries := sql_update (\<lambda>r. de_id r = i \<and> owed r)
     (\<lambda>r. r\<lparr>de_status := Sent, de_acked := Some now\<rparr>) (deliveries d)\<rparr>"

definition ack_advance :: "int \<Rightarrow> int \<Rightarrow> db \<Rightarrow> db" where
  "ack_advance ev now d = d\<lparr>events := sql_update
     (\<lambda>e. ev_id e = ev \<and> ev_status e = Completed \<and>
        \<not> sql_exists (\<lambda>x. de_event_id x = Some ev \<and> de_acked x = None) (deliveries d))
     (\<lambda>e. e\<lparr>ev_status := Replied, ev_updated := Some now\<rparr>) (events d)\<rparr>"

lemma ack_row:
  assumes "owed r" "delivery_inv r"
  shows "delivery_ok r (r\<lparr>de_status := Sent, de_acked := Some now\<rparr>) \<and>
    delivery_inv (r\<lparr>de_status := Sent, de_acked := Some now\<rparr>)"
proof -
  have "de_status r = Pending" "de_acked r = None"
    using owed_pending [OF assms] assms(1) by (simp_all add: owed_def)
  then show ?thesis by (simp add: delivery_ok_iff delivery_inv_def)
qed

lemma ack_stamp_wf: "wf_db d \<Longrightarrow> wf_db (ack_stamp i now d)"
  unfolding ack_stamp_def
  by (rule wf_update_deliveries, assumption, rule ack_row) (blast, blast intro: wf_delivery_inv)

lemma ack_stamp_in:
  "r \<in> set (deliveries d) \<Longrightarrow> de_id r = i \<Longrightarrow> owed r \<Longrightarrow>
   r\<lparr>de_status := Sent, de_acked := Some now\<rparr> \<in> set (deliveries (ack_stamp i now d))"
  using in_sql_updateI_changed [of r "deliveries d" "\<lambda>r. de_id r = i \<and> owed r"]
  by (simp add: ack_stamp_def)

lemma ack_stamp_by_id:
  assumes "wf_db d" "r \<in> set (deliveries d)" "de_id r = i" "owed r"
  shows "delivery_by_id i (ack_stamp i now d) = Some (r\<lparr>de_status := Sent, de_acked := Some now\<rparr>)"
  using delivery_by_id_eq [OF ack_stamp_wf [OF assms(1)] ack_stamp_in [OF assms(2-4)]] assms(3) by simp

lemma ack_advance_wf:
  assumes "wf_db d" and "\<exists>x \<in> set (deliveries d). de_event_id x = Some ev"
  shows "wf_db (ack_advance ev now d)"
  unfolding ack_advance_def
proof (rule wf_update_events [OF assms(1)])
  fix e assume e: "e \<in> set (events d)" "ev_id e = ev \<and> ev_status e = Completed \<and>
     \<not> sql_exists (\<lambda>x. de_event_id x = Some ev \<and> de_acked x = None) (deliveries d)"
  show "event_ok e (e\<lparr>ev_status := Replied, ev_updated := Some now\<rparr>) \<and>
      event_inv (e\<lparr>ev_status := Replied, ev_updated := Some now\<rparr>)"
    using e wf_event_inv [OF assms(1) e(1)] by (simp add: event_ok_iff event_inv_def event_check_def)
  show "ev_status e \<noteq> Dead \<and> ev_status (e\<lparr>ev_status := Replied, ev_updated := Some now\<rparr>) \<noteq> Dead"
    using e by simp
  show "sealed_ok (deliveries d) (ev_id e)"
    using e assms(2) by (simp add: sealed_ok_def sql_exists_iff)
qed

text \<open>The ack of a well-formed store, branch by branch.\<close>

lemma AckDelivery_owed:
  assumes "wf_db d" and r: "r \<in> set (deliveries d)" "de_id r = i" "owed r"
  shows "AckDelivery i now d =
    (case de_event_id r of
       None \<Rightarrow> Inr (ack_stamp i now d)
     | Some ev \<Rightarrow>
         (if \<exists>e \<in> set (events d). ev_id e = ev \<and> ev_status e \<in> {Received, Processing}
          then Inl ErrReplyOutranTurn
          else Inr (ack_advance ev now (ack_stamp i now d))))"
proof -
  have n: "rows_affected (\<lambda>r. de_id r = i \<and> owed r) (deliveries d) \<noteq> 0"
    using r by (auto simp: rows_affected_0)
  have id: "delivery_by_id i (ack_stamp i now d) = Some (r\<lparr>de_status := Sent, de_acked := Some now\<rparr>)"
    by (rule ack_stamp_by_id [OF assms])
  have ev: "events (ack_stamp i now d) = events d" by (simp add: ack_stamp_def)
  show ?thesis
  proof (cases "de_event_id r")
    case None
    with n id show ?thesis by (simp add: AckDelivery_def exec_defs ack_stamp_def [symmetric])
  next
    case (Some v)
    then have "v \<in> ev_id ` set (events d)"
      using wf_dbD(4) [OF assms(1)] r(1) unfolding refs_wf_def by blast
    then obtain e where e: "e \<in> set (events d)" "ev_id e = v" by blast
    have by_id: "event_by_id v (ack_stamp i now d) = Some e"
      using event_by_id_eq [OF assms(1) e(1)] e(2) ev by (simp add: event_by_id_def)
    have uniq: "\<forall>q \<in> set (events d). ev_id q = v \<longrightarrow> q = e"
      using wf_event_unique [OF assms(1) _ e(1)] e(2) by simp
    have only: "(\<exists>q \<in> set (events d). ev_id q = v \<and> ev_status q \<in> {Received, Processing}) \<longleftrightarrow>
        ev_status e \<in> {Received, Processing}"
      using e uniq by blast
    have zero: "rows_affected (\<lambda>e. ev_id e = v \<and> ev_status e = Completed \<and>
        \<not> sql_exists (\<lambda>x. de_event_id x = Some v \<and> de_acked x = None) (deliveries (ack_stamp i now d)))
        (events d) = 0" if "ev_status e \<in> {Received, Processing}"
      unfolding rows_affected_0 using that uniq by force
    have adv: "(ack_stamp i now d)\<lparr>events := sql_update
       (\<lambda>e. ev_id e = v \<and> ev_status e = Completed \<and>
          \<not> sql_exists (\<lambda>x. de_event_id x = Some v \<and> de_acked x = None) (deliveries (ack_stamp i now d)))
       (\<lambda>e. e\<lparr>ev_status := Replied, ev_updated := Some now\<rparr>) (events d)\<rparr> = ack_advance v now (ack_stamp i now d)"
      by (simp add: ack_advance_def ev)
    have call: "AckDelivery i now d =
      (if rows_affected (\<lambda>e. ev_id e = v \<and> ev_status e = Completed \<and>
          \<not> sql_exists (\<lambda>x. de_event_id x = Some v \<and> de_acked x = None) (deliveries (ack_stamp i now d)))
          (events d) = 0
       then (if ev_status e = Received \<or> ev_status e = Processing then Inl ErrReplyOutranTurn
             else Inr (ack_advance v now (ack_stamp i now d)))
       else Inr (ack_advance v now (ack_stamp i now d)))"
      using n id Some by_id
      by (simp add: AckDelivery_def exec_defs ack_stamp_def [symmetric] ev adv del: sql_simps)
    show ?thesis
      unfolding call Some using zero only by auto
  qed
qed

lemma AckDelivery_not_owed:
  assumes "wf_db d" and none: "\<forall>r \<in> set (deliveries d). de_id r = i \<longrightarrow> \<not> owed r"
  shows "AckDelivery i now d =
    (case delivery_by_id i d of
       None \<Rightarrow> Inl ErrRowMissing
     | Some r \<Rightarrow> (if de_acked r \<noteq> None then Inr d else Inl ErrTerminallyFailed))"
proof -
  have "rows_affected (\<lambda>r. de_id r = i \<and> owed r) (deliveries d) = 0"
    using none by (auto simp: rows_affected_0)
  moreover have "sql_update (\<lambda>r. de_id r = i \<and> owed r) f (deliveries d) = deliveries d" for f
    using none by (intro sql_update_none) auto
  ultimately show ?thesis by (simp add: AckDelivery_def exec_defs)
qed

lemma AckDelivery_InrE:
  assumes "AckDelivery i now d = Inr d'" and "wf_db d"
  obtains (dup) "d' = d" | (plain) r where "r \<in> set (deliveries d)" "de_id r = i" "owed r" "de_event_id r = None"
      "d' = ack_stamp i now d"
    | (bound) r ev where "r \<in> set (deliveries d)" "de_id r = i" "owed r" "de_event_id r = Some ev"
      "d' = ack_advance ev now (ack_stamp i now d)"
proof (cases "\<exists>r \<in> set (deliveries d). de_id r = i \<and> owed r")
  case True
  then obtain r where r: "r \<in> set (deliveries d)" "de_id r = i" "owed r" by blast
  from assms(1) show ?thesis
    unfolding AckDelivery_owed [OF assms(2) r]
    using plain bound r by (auto split: option.splits if_splits)
next
  case False
  then have none: "\<forall>r \<in> set (deliveries d). de_id r = i \<longrightarrow> \<not> owed r" by blast
  from assms(1) show ?thesis
    unfolding AckDelivery_not_owed [OF assms(2) none]
    using dup by (auto split: option.splits if_splits)
qed

lemma AckDelivery_wf: assumes "AckDelivery i now d = Inr d'" and wf: "wf_db d" shows "wf_db d'"
  using assms
proof (cases rule: AckDelivery_InrE)
  case (bound r ev)
  have "\<exists>x \<in> set (deliveries (ack_stamp i now d)). de_event_id x = Some ev"
    by (rule bexI [OF _ ack_stamp_in [OF bound(1-3)]]) (simp add: bound(4))
  then show ?thesis unfolding bound(5) by (intro ack_advance_wf ack_stamp_wf wf)
qed (simp_all add: ack_stamp_wf wf)

lemma ack_stamp_evolves: "wf_db d \<Longrightarrow>
  table_evolves delivery_ok delivery_fresh (deliveries d) (deliveries (ack_stamp i now d))"
  unfolding ack_stamp_def
  by (simp, rule dl.evolves_update, rule ack_row [THEN conjunct1]) (blast, blast intro: wf_delivery_inv)

lemma AckDelivery_evolves: assumes "AckDelivery i now d = Inr d'" and wf: "wf_db d" shows "db_evolves d d'"
  using assms
proof (cases rule: AckDelivery_InrE)
  case dup
  then show ?thesis by simp
next
  case (plain r)
  then show ?thesis using ack_stamp_evolves [OF wf, of i now] by (simp add: db_evolves_def ack_stamp_def)
next
  case (bound r ev)
  have "table_evolves event_ok event_fresh (events d) (events d')"
    unfolding bound(5) by (auto simp: ack_advance_def ack_stamp_def event_ok_iff intro!: el.evolves_update)
  with bound(5) ack_stamp_evolves [OF wf, of i now] show ?thesis
    by (simp add: db_evolves_def ack_stamp_def ack_advance_def)
qed

section \<open>Properties\<close>

lemma insert_batch_dup:
  "insert_batch xs d = Inr None \<Longrightarrow>
   \<not> distinct (map D_DeliveryKey xs) \<or> set (map D_DeliveryKey xs) \<inter> de_delivery_key ` set (deliveries d) \<noteq> {}"
proof (induction xs arbitrary: d)
  case (Cons x xs)
  show ?case
  proof (cases "D_DeliveryKey x \<in> de_delivery_key ` set (deliveries d)")
    case True
    then show ?thesis by auto
  next
    case False
    from Cons.prems obtain i b d1 where i: "insertDelivery x d = Inr ((i, b), d1)"
      and c: "\<not> b \<or> insert_batch xs d1 = Inr None"
      by (auto split: sum.splits prod.splits if_splits option.splits)
    from i False have b: "b" and d1: "deliveries d1 = deliveries d @ [new_delivery_row x d]"
      by (auto elim!: insertDelivery_InrE)
    from Cons.IH [of d1] b c have "\<not> distinct (map D_DeliveryKey xs) \<or>
        set (map D_DeliveryKey xs) \<inter> de_delivery_key ` set (deliveries d1) \<noteq> {}" by blast
    moreover have "de_delivery_key ` set (deliveries d1) = insert (D_DeliveryKey x) (de_delivery_key ` set (deliveries d))"
      by (simp add: d1 new_delivery_row_def)
    ultimately show ?thesis by auto
  qed
qed simp

text \<open>
  Composing a reply is all or nothing.  When \<open>InsertDeliveries\<close> reports the batch composed,
  the outbox is the old one followed by exactly one pending row per chunk, in order, with the keys,
  targets and payloads of the chunks and the returned ids; when it reports a prior compose, the
  database is unchanged and some key of the batch was taken already.
\<close>

lemma InsertDeliveries_all_or_nothing:
  assumes "InsertDeliveries xs d = Inr ((ids, composed), d')"
  shows "if composed
    then \<exists>new. deliveries d' = deliveries d @ new \<and> map de_id new = ids \<and>
           map de_delivery_key new = map D_DeliveryKey xs \<and> map de_payload new = map D_Payload xs \<and>
           map de_target new = map D_Target xs \<and> (\<forall>r \<in> set new. owed r \<and> de_attempts r = 0) \<and>
           events d' = events d
    else d' = d \<and> (\<not> distinct (map D_DeliveryKey xs) \<or>
           set (map D_DeliveryKey xs) \<inter> de_delivery_key ` set (deliveries d) \<noteq> {})"
proof (cases composed)
  case True
  with assms have "insert_batch xs d = Inr (Some (ids, d'))"
    by (auto simp: InsertDeliveries_def split: sum.splits option.splits)
  from insert_batch_rows [OF this] obtain new where "deliveries d' = deliveries d @ new"
    "map de_id new = ids" "events d' = events d" "map de_delivery_key new = map D_DeliveryKey xs"
    "map de_payload new = map D_Payload xs" "map de_target new = map D_Target xs"
    "\<forall>r \<in> set new. delivery_fresh r" by blast
  then have "deliveries d' = deliveries d @ new \<and> map de_id new = ids \<and>
           map de_delivery_key new = map D_DeliveryKey xs \<and> map de_payload new = map D_Payload xs \<and>
           map de_target new = map D_Target xs \<and> (\<forall>r \<in> set new. owed r \<and> de_attempts r = 0) \<and>
           events d' = events d" by (simp add: delivery_fresh_def owed_def)
  with True show ?thesis by auto
next
  case False
  with assms have "insert_batch xs d = Inr None" "d' = d"
    by (auto simp: InsertDeliveries_def split: sum.splits option.splits)
  with False insert_batch_dup [of xs d] show ?thesis by simp
qed

definition ex_chunks :: "Delivery list" where
  "ex_chunks =
     [\<lparr>D_DeliveryKey = ''a:0'', D_EventID = 1, D_Target = ''discord:dm:7'', D_Payload = ''one''\<rparr>,
      \<lparr>D_DeliveryKey = ''a:1'', D_EventID = 1, D_Target = ''discord:dm:7'', D_Payload = ''two''\<rparr>]"

lemma ex_chunks_compose: "\<exists>d'. InsertDeliveries ex_chunks ex_turn_db = Inr (([1, 2], True), d')"
  by (simp add: InsertDeliveries_def ex_chunks_def insertDelivery_def Delivery_validate_def sql_exists_def
      ex_defs empty_db_def zero_null_def new_delivery_row_def next_rowid_def Let_def)

lemma InsertDeliveries_all_or_nothing_example:
  "\<exists>d' new. InsertDeliveries ex_chunks ex_turn_db = Inr (([1, 2], True), d') \<and>
     deliveries d' = deliveries ex_turn_db @ new \<and> map de_payload new = [''one'', ''two'']"
proof -
  obtain d' where c: "InsertDeliveries ex_chunks ex_turn_db = Inr (([1, 2], True), d')"
    using ex_chunks_compose by blast
  from InsertDeliveries_all_or_nothing [OF c] obtain new where
    "deliveries d' = deliveries ex_turn_db @ new" "map de_payload new = map D_Payload ex_chunks" by auto
  with c show ?thesis by (auto simp: ex_chunks_def)
qed

text \<open>
  The branches of the platform ack.  On a well-formed store an ack of a row that is owed a send
  stamps it once and, when the row answers an event, moves that event from completed to replied
  exactly when no row of the event is left unacked; it is refused with nothing written while the
  event is still queued or running.  An ack of any other row changes nothing: it is a no-op on an
  acked row, and an error on a failed or missing one.
\<close>

lemma AckDelivery_branches:
  assumes "wf_db d"
  shows "AckDelivery i now d =
    (case delivery_by_id i d of
       None \<Rightarrow> Inl ErrRowMissing
     | Some r \<Rightarrow>
         if de_acked r \<noteq> None then Inr d
         else if de_status r = DFailed then Inl ErrTerminallyFailed
         else (case de_event_id r of
             None \<Rightarrow> Inr (ack_stamp i now d)
           | Some ev \<Rightarrow>
               (if \<exists>e \<in> set (events d). ev_id e = ev \<and> ev_status e \<in> {Received, Processing}
                then Inl ErrReplyOutranTurn
                else Inr (ack_advance ev now (ack_stamp i now d)))))"
proof (cases "delivery_by_id i d")
  case None
  then have "\<forall>r \<in> set (deliveries d). de_id r = i \<longrightarrow> \<not> owed r"
    by (auto simp: delivery_by_id_def find_eq_None)
  from AckDelivery_not_owed [OF assms this] None show ?thesis by simp
next
  case (Some r)
  then have r: "r \<in> set (deliveries d)" "de_id r = i" by (auto dest: delivery_by_id_SomeD)
  show ?thesis
  proof (cases "owed r")
    case True
    from AckDelivery_owed [OF assms r True] Some True show ?thesis by (simp add: owed_def)
  next
    case False
    have "\<forall>q \<in> set (deliveries d). de_id q = i \<longrightarrow> q = r"
      using wf_delivery_unique [OF assms _ r(1)] r(2) by simp
    with False have "\<forall>q \<in> set (deliveries d). de_id q = i \<longrightarrow> \<not> owed q" by blast
    from AckDelivery_not_owed [OF assms this] Some False show ?thesis by (auto simp: owed_def)
  qed
qed

lemma AckDelivery_branches_example:
  "AckDelivery 2 30 ex_reply_db = Inr (ack_advance 1 30 (ack_stamp 2 30 ex_reply_db)) \<and>
   map ev_status (events (ack_advance 1 30 (ack_stamp 2 30 ex_reply_db))) = [Replied] \<and>
   AckDelivery 1 30 ex_reply_db = Inr ex_reply_db"
proof (intro conjI)
  show "AckDelivery 2 30 ex_reply_db = Inr (ack_advance 1 30 (ack_stamp 2 30 ex_reply_db))"
    using AckDelivery_branches [OF wf_ex_reply_db, of 2 30]
    by (simp add: ex_defs delivery_by_id_def empty_db_def)
  show "AckDelivery 1 30 ex_reply_db = Inr ex_reply_db"
    using AckDelivery_branches [OF wf_ex_reply_db, of 1 30]
    by (simp add: ex_defs delivery_by_id_def empty_db_def)
qed (simp add: ex_defs ack_advance_def ack_stamp_def empty_db_def sql_update_def sql_exists_def owed_def)

text \<open>
  A replied event is sealed.  On a well-formed store every outbound row of a replied event is
  acked and there is at least one; a valid insert of a new row for it is refused, and a repeat of a
  known row is the reported no-op.
\<close>

lemma replied_event_sealed:
  assumes "wf_db d" and "e \<in> set (events d)" and "ev_status e = Replied"
    and "D_EventID x = ev_id e" and "Delivery_validate x = None"
  shows "(\<exists>r \<in> set (deliveries d). de_event_id r = Some (ev_id e)) \<and>
    (\<forall>r \<in> set (deliveries d). de_event_id r = Some (ev_id e) \<longrightarrow> de_acked r \<noteq> None \<and> de_status r = Sent) \<and>
    insertDelivery x d =
      (if D_DeliveryKey x \<in> de_delivery_key ` set (deliveries d) then Inr ((0, False), d) else Inl ErrSealed)"
proof -
  have "sealed_ok (deliveries d) (ev_id e)"
    using wf_dbD(5) [OF assms(1)] assms(2,3) by (simp add: sealed_def)
  moreover have "de_status r = Sent" if "r \<in> set (deliveries d)" "de_acked r \<noteq> None" for r
    using wf_delivery_inv [OF assms(1) that(1)] that(2) by (simp add: delivery_inv_def)
  moreover have "0 < ev_id e"
    using wf_events_keyed [OF assms(1)] assms(2) by (simp add: keyed_def)
  then have "sql_exists (\<lambda>q. zero_null (D_EventID x) = Some (ev_id q) \<and> ev_status q = Replied) (events d)"
    using assms(2-4) by (auto simp: sql_exists_iff zero_null_def)
  then have "insertDelivery x d =
      (if D_DeliveryKey x \<in> de_delivery_key ` set (deliveries d) then Inr ((0, False), d) else Inl ErrSealed)"
    using assms(5) by (simp add: insertDelivery_def Let_def sql_exists_key)
  ultimately show ?thesis by (simp add: sealed_ok_def)
qed

definition ex_sealed_db :: db where
  "ex_sealed_db = empty_db\<lparr>events := [ex_event 1 ''m1'' Replied], deliveries := [ex_delivery 1 ''r1'' (Some 9)]\<rparr>"

lemma replied_event_sealed_example:
  "insertDelivery (hd ex_chunks) ex_sealed_db = Inl ErrSealed"
proof -
  have "wf_db ex_sealed_db" by (simp add: wf_eval ex_defs ex_sealed_db_def)
  from replied_event_sealed [OF this, of "ex_event 1 ''m1'' Replied" "hd ex_chunks"] show ?thesis
    by (simp add: ex_sealed_db_def ex_defs ex_chunks_def Delivery_validate_def)
qed

text \<open>
  Write once.  Over any history of outbox inserts from any store whose delivery keys are
  distinct, each delivery key is accepted at most once, never when it was there before, and the
  keys of the outbox at the end are the old ones followed by the accepted ones in order.
\<close>

lemma delivery_written_once:
  assumes "run_inserts insertDelivery xs d = (acc, d')" and "distinct (map de_delivery_key (deliveries d))"
  shows "distinct (map D_DeliveryKey acc) \<and>
    set (map D_DeliveryKey acc) \<inter> set (map de_delivery_key (deliveries d)) = {} \<and>
    map de_delivery_key (deliveries d') = map de_delivery_key (deliveries d) @ map D_DeliveryKey acc"
  using id.run_inserts_once [OF assms] id.run_inserts_keys [OF assms(1)] by simp

lemma delivery_written_once_example:
  "distinct (map D_DeliveryKey (fst (run_inserts insertDelivery (ex_chunks @ ex_chunks) ex_turn_db)))"
  using delivery_written_once [of "ex_chunks @ ex_chunks" ex_turn_db
      "fst (run_inserts insertDelivery (ex_chunks @ ex_chunks) ex_turn_db)"
      "snd (run_inserts insertDelivery (ex_chunks @ ex_chunks) ex_turn_db)"]
  by (simp add: ex_turn_db_def empty_db_def)

end
