(* ===== verification/Store_Sessions.thy ===== *)
theory Store_Sessions
  imports Store_Outbox
begin

text \<open>
  The session registry: \<open>src/internal/store/sessions.go\<close>, \<open>session_lifecycle.go\<close>,
  \<open>rotation.go\<close> and \<open>tainted.go\<close>.  The file system calls of \<open>canonicalCwd\<close>
  (\<open>filepath.Abs\<close>, \<open>filepath.EvalSymlinks\<close>, \<open>os.Stat\<close>) are the fields of a
  record the operations take as an argument: each answers \<open>None\<close> where the call fails.
\<close>

section \<open>Data\<close>

record Session =
  S_ThreadKey :: string
  S_SessionID :: string
  S_Cwd :: string
  S_Origin :: string
  S_TrustFloor :: string
  S_CreatedAt :: int
  S_ActivationDeadline :: int

record LiveSession =
  L_ThreadKey :: string
  L_SessionID :: string
  L_Status :: sess_status
  L_Cwd :: string
  L_Origin :: string
  L_TrustFloor :: string
  L_CreatedAt :: int
  L_ActivationDeadline :: int
  L_LastSeen :: int
  L_Turns :: int

record file_system =
  fs_abs :: "string \<Rightarrow> string option"
  fs_eval :: "string \<Rightarrow> string option"
  fs_is_dir :: "string \<Rightarrow> bool option"

section \<open>Creation\<close>

definition Session_validate :: "Session \<Rightarrow> string option" where
  "Session_validate s =
     (if S_ThreadKey s = [] then Some ''empty thread_key''
      else if S_SessionID s = [] then Some ''empty session_id''
      else if S_Cwd s = [] then Some ''empty cwd''
      else if S_TrustFloor s = [] then Some ''empty trust_floor''
      else if S_CreatedAt s \<le> 0 then Some ''created_at is not positive''
      else if S_ActivationDeadline s \<le> 0 then Some ''activation_deadline is not positive''
      else if S_ActivationDeadline s \<le> S_CreatedAt s then Some ''activation_deadline is not after created_at''
      else if isWorkerThreadKey (S_ThreadKey s) \<and> S_Origin s = [] then Some ''task session has no origin thread''
      else None)"

definition canonicalCwd :: "file_system \<Rightarrow> string \<Rightarrow> string res" where
  "canonicalCwd fs cwd =
     (case fs_abs fs cwd of
        None \<Rightarrow> Inl ErrCwd
      | Some a \<Rightarrow>
          (case fs_eval fs a of
             None \<Rightarrow> Inl ErrCwd
           | Some resolved \<Rightarrow>
               (case fs_is_dir fs resolved of
                  None \<Rightarrow> Inl ErrCwd
                | Some isdir \<Rightarrow> if \<not> isdir then Inl ErrCwd else Inr resolved)))"

definition new_session_row :: "Session \<Rightarrow> string \<Rightarrow> session_row" where
  "new_session_row s cwd =
     \<lparr>se_thread_key = S_ThreadKey s, se_session_id = S_SessionID s, se_status = Creating, se_cwd = cwd,
      se_origin = nullif_empty (S_Origin s), se_trust_floor = S_TrustFloor s,
      se_created_at = S_CreatedAt s, se_activation_deadline = Some (S_ActivationDeadline s),
      se_rotated_to = None, se_last_seen = None, se_turns = None, se_tainted = False\<rparr>"

definition insertSession :: "file_system \<Rightarrow> Session \<Rightarrow> db \<Rightarrow> (string \<times> db) res" where
  "insertSession fs s d =
     (case Session_validate s of
        Some m \<Rightarrow> Inl (ErrInvalid m)
      | None \<Rightarrow>
          (case canonicalCwd fs (S_Cwd s) of
             Inl e \<Rightarrow> Inl e
           | Inr cwd \<Rightarrow>
               if \<not> floor_check (S_TrustFloor s) then Inl (ErrConstraint ''sessions.trust_floor'')
               else if sql_exists (\<lambda>r. se_session_id r = S_SessionID s) (sessions d) then
                 Inl (ErrConstraint ''sessions_by_id'')
               else if sql_exists (\<lambda>r. live r \<and> se_thread_key r = S_ThreadKey s) (sessions d) then
                 Inl (ErrConstraint ''one_live_session'')
               else if like_task (S_ThreadKey s) \<and>
                   sql_exists (\<lambda>r. live r \<and> like_task (se_thread_key r) \<and> se_cwd r = cwd) (sessions d) then
                 Inl (ErrConstraint ''one_worker_per_repo'')
               else Inr (cwd, d\<lparr>sessions := sessions d @ [new_session_row s cwd]\<rparr>)))"

definition InsertSession :: "file_system \<Rightarrow> Session \<Rightarrow> db \<Rightarrow> (string \<times> db) res" where
  "InsertSession = insertSession"

section \<open>Lookup\<close>

definition scanLiveSession :: "session_row \<Rightarrow> LiveSession" where
  "scanLiveSession r =
     \<lparr>L_ThreadKey = se_thread_key r, L_SessionID = se_session_id r, L_Status = se_status r,
      L_Cwd = se_cwd r, L_Origin = null_string (se_origin r), L_TrustFloor = se_trust_floor r,
      L_CreatedAt = se_created_at r, L_ActivationDeadline = null_int (se_activation_deadline r),
      L_LastSeen = null_int (se_last_seen r), L_Turns = null_int (se_turns r)\<rparr>"

definition ResolveLiveSession :: "string \<Rightarrow> db \<Rightarrow> LiveSession option" where
  "ResolveLiveSession k d =
     map_option scanLiveSession (find (\<lambda>r. se_thread_key r = k \<and> live r) (sessions d))"

text \<open>The recursive query of \<open>SessionDegraded\<close>: SQLite takes a row off the queue, runs the recursive
  select on it and enqueues what it has not produced before (UNION).\<close>

type_synonym chain_row = "string \<times> sess_status"

definition chain_rows :: "db \<Rightarrow> chain_row list" where
  "chain_rows d = map (\<lambda>s. (se_session_id s, se_status s)) (sessions d)"

definition predecessors :: "db \<Rightarrow> string \<Rightarrow> chain_row list" where
  "predecessors d sid =
     remdups (map (\<lambda>s. (se_session_id s, se_status s)) (filter (\<lambda>s. se_rotated_to s = Some sid) (sessions d)))"

function chain_loop :: "db \<Rightarrow> chain_row list \<Rightarrow> chain_row list \<Rightarrow> chain_row list" where
  "chain_loop d [] seen = seen"
| "chain_loop d (c # queue) seen =
     (let new = filter (\<lambda>p. p \<notin> set seen) (if snd c = Failed then predecessors d (fst c) else [])
      in chain_loop d (queue @ new) (seen @ new))"
  by pat_completeness auto

lemma predecessors_rows: "set (predecessors d sid) \<subseteq> set (chain_rows d)"
  by (auto simp: predecessors_def chain_rows_def)

lemma chain_progress:
  assumes "new \<noteq> []" and "set new \<subseteq> set (chain_rows d)" and "\<forall>p \<in> set new. p \<notin> set seen"
  shows "card (set (chain_rows d) - set (seen @ new)) < card (set (chain_rows d) - set seen)"
proof (rule psubset_card_mono)
  from assms(1) obtain p where "p \<in> set new" by (cases new) auto
  with assms(2,3) have "p \<in> set (chain_rows d) - set seen" "p \<notin> set (chain_rows d) - set (seen @ new)" by auto
  then show "set (chain_rows d) - set (seen @ new) \<subset> set (chain_rows d) - set seen" by auto
qed simp

termination chain_loop
proof (relation "measures [\<lambda>(d, queue, seen). card (set (chain_rows d) - set seen), \<lambda>(d, queue, seen). length queue]",
    goal_cases)
  case (2 d c queue seen new)
  show ?case
  proof (cases "new = []")
    case True
    then show ?thesis by simp
  next
    case False
    moreover have "set new \<subseteq> set (chain_rows d)" "\<forall>p \<in> set new. p \<notin> set seen"
      using 2 predecessors_rows [of d "fst c"] by auto
    ultimately show ?thesis using chain_progress [of new d seen] by simp
  qed
qed simp

definition SessionDegraded :: "string \<Rightarrow> db \<Rightarrow> bool" where
  "SessionDegraded sid d =
     list_ex (\<lambda>p. snd p = ResumeFailed) (chain_loop d (predecessors d sid) (predecessors d sid))"

section \<open>Transitions\<close>

definition transitionCreating :: "string \<Rightarrow> sess_status \<Rightarrow> db \<Rightarrow> db res" where
  "transitionCreating sid to d =
     (let (n, d') = exec_sessions (\<lambda>r. se_session_id r = sid \<and> se_status r = Creating)
        (\<lambda>r. r\<lparr>se_status := to\<rparr>) d
      in if n = 0 then Inl ErrNotCreating else Inr d')"

definition ActivateSession :: "string \<Rightarrow> db \<Rightarrow> db res" where
  "ActivateSession sid = transitionCreating sid Active"

definition FailSession :: "string \<Rightarrow> db \<Rightarrow> db res" where
  "FailSession sid = transitionCreating sid Failed"

definition retireSession ::
  "file_system \<Rightarrow> string \<Rightarrow> Session \<Rightarrow> sess_status \<Rightarrow> sess_status \<Rightarrow> store_error \<Rightarrow> db \<Rightarrow> (string \<times> db) res" where
  "retireSession fs old successor fromStatus retiredStatus guardErr d =
     (let (n, d1) = exec_sessions
        (\<lambda>r. se_session_id r = old \<and> se_status r = fromStatus \<and> se_thread_key r = S_ThreadKey successor)
        (\<lambda>r. r\<lparr>se_status := retiredStatus\<rparr>) d
      in if n = 0 then Inl guardErr
         else (case insertSession fs successor d1 of
                 Inl e \<Rightarrow> Inl e
               | Inr (cwd, d2) \<Rightarrow>
                   Inr (cwd, snd (exec_sessions (\<lambda>r. se_session_id r = old)
                     (\<lambda>r. r\<lparr>se_rotated_to := Some (S_SessionID successor)\<rparr>) d2))))"

definition RotateSession :: "file_system \<Rightarrow> string \<Rightarrow> Session \<Rightarrow> db \<Rightarrow> (string \<times> db) res" where
  "RotateSession fs old successor = retireSession fs old successor Active Rotated ErrNotActive"

definition ResumeFailSession :: "file_system \<Rightarrow> string \<Rightarrow> Session \<Rightarrow> db \<Rightarrow> (string \<times> db) res" where
  "ResumeFailSession fs old successor = retireSession fs old successor Active ResumeFailed ErrNotActive"

definition ExpireSession :: "file_system \<Rightarrow> string \<Rightarrow> Session \<Rightarrow> db \<Rightarrow> (string \<times> db) res" where
  "ExpireSession fs old successor = retireSession fs old successor Creating Failed ErrNotCreating"

definition TouchSession :: "string \<Rightarrow> int \<Rightarrow> db \<Rightarrow> db res" where
  "TouchSession sid now d =
     (let (n, d') = exec_sessions (\<lambda>r. se_session_id r = sid)
        (\<lambda>r. r\<lparr>se_last_seen := Some now, se_turns := Some (null_int (se_turns r) + 1)\<rparr>) d
      in if n = 0 then Inl ErrRowMissing else Inr d')"

definition MarkSessionTainted :: "string \<Rightarrow> db \<Rightarrow> db res" where
  "MarkSessionTainted sid d =
     (let (n, d') = exec_sessions (\<lambda>r. se_session_id r = sid) (\<lambda>r. r\<lparr>se_tainted := True\<rparr>) d
      in if n = 0 then Inl ErrRowMissing else Inr d')"

definition SessionTainted :: "string \<Rightarrow> db \<Rightarrow> bool res" where
  "SessionTainted sid d =
     (case find (\<lambda>r. se_session_id r = sid) (sessions d) of
        None \<Rightarrow> Inl ErrRowMissing
      | Some r \<Rightarrow> Inr (se_tainted r))"

section \<open>The recursive query\<close>

text \<open>What the query means: the predecessors of a session, followed through failed ones.\<close>

inductive chain :: "db \<Rightarrow> string \<Rightarrow> chain_row \<Rightarrow> bool" for d sid where
  first: "p \<in> set (predecessors d sid) \<Longrightarrow> chain d sid p"
| further: "chain d sid c \<Longrightarrow> snd c = Failed \<Longrightarrow> p \<in> set (predecessors d (fst c)) \<Longrightarrow> chain d sid p"

lemma chain_loop_sound:
  "set seen \<subseteq> R \<Longrightarrow> set queue \<subseteq> R \<Longrightarrow>
   (\<And>c p. c \<in> R \<Longrightarrow> snd c = Failed \<Longrightarrow> p \<in> set (predecessors d (fst c)) \<Longrightarrow> p \<in> R) \<Longrightarrow>
   set (chain_loop d queue seen) \<subseteq> R"
proof (induction d queue seen rule: chain_loop.induct)
  case (2 d c queue seen)
  let ?new = "filter (\<lambda>p. p \<notin> set seen) (if snd c = Failed then predecessors d (fst c) else [])"
  have "c \<in> R" using 2(3) by simp
  from 2(4) [OF this] have "set ?new \<subseteq> R" by (simp add: subset_iff)
  with 2 show ?case by (simp add: Let_def)
qed simp

lemma chain_loop_complete:
  "set queue \<subseteq> set seen \<Longrightarrow>
   (\<And>c. c \<in> set seen \<Longrightarrow> c \<notin> set queue \<Longrightarrow> snd c = Failed \<Longrightarrow> set (predecessors d (fst c)) \<subseteq> set seen) \<Longrightarrow>
   set seen \<subseteq> set (chain_loop d queue seen) \<and>
   (\<forall>c \<in> set (chain_loop d queue seen). snd c = Failed \<longrightarrow>
      set (predecessors d (fst c)) \<subseteq> set (chain_loop d queue seen))"
proof (induction d queue seen rule: chain_loop.induct)
  case (2 d c queue seen)
  let ?new = "filter (\<lambda>p. p \<notin> set seen) (if snd c = Failed then predecessors d (fst c) else [])"
  have "set (predecessors d (fst x)) \<subseteq> set (seen @ ?new)"
    if "x \<in> set (seen @ ?new)" "x \<notin> set (queue @ ?new)" "snd x = Failed" for x
  proof (cases "x = c")
    case True
    with that(3) show ?thesis by auto
  next
    case False
    with that have "x \<in> set seen" "x \<notin> set (c # queue)" by auto
    with 2(3) that(3) show ?thesis by fastforce
  qed
  moreover have "set (queue @ ?new) \<subseteq> set (seen @ ?new)" using 2(2) by auto
  ultimately show ?case using 2(1) [OF refl] by (simp add: Let_def)
qed simp

lemma SessionDegraded_iff: "SessionDegraded sid d \<longleftrightarrow> (\<exists>p. chain d sid p \<and> snd p = ResumeFailed)"
proof -
  let ?r = "set (chain_loop d (predecessors d sid) (predecessors d sid))"
  have "?r \<subseteq> {p. chain d sid p}"
    by (rule chain_loop_sound) (auto intro: chain.intros)
  moreover have c: "set (predecessors d sid) \<subseteq> ?r"
    "\<And>c. c \<in> ?r \<Longrightarrow> snd c = Failed \<Longrightarrow> set (predecessors d (fst c)) \<subseteq> ?r"
    using chain_loop_complete [of "predecessors d sid" "predecessors d sid" d] by auto
  have "chain d sid p \<Longrightarrow> p \<in> ?r" for p
    by (induction rule: chain.induct) (use c in blast)+
  ultimately show ?thesis unfolding SessionDegraded_def list_ex_iff by blast
qed

section \<open>Preservation\<close>

lemma distinct_filter_update:
  "(\<And>r. r \<in> set t \<Longrightarrow> P r \<Longrightarrow> k (f r) = k r \<and> (L (f r) \<longrightarrow> L r)) \<Longrightarrow>
   distinct (map k (filter L t)) \<Longrightarrow> distinct (map k (filter L (sql_update P f t)))"
proof (induction t)
  case (Cons r t)
  have sub: "k ` {x \<in> set (sql_update P f t). L x} \<subseteq> k ` {x \<in> set t. L x}"
    using Cons.prems(1) by (fastforce elim!: in_sql_update)
  have IH: "distinct (map k (filter L (sql_update P f t)))"
    using Cons by (cases "L r") auto
  show ?case
  proof (cases "L (if P r then f r else r)")
    case True
    then have "L r" "k (if P r then f r else r) = k r" using Cons.prems(1) [of r] by (auto split: if_splits)
    with True IH sub Cons.prems(2) show ?thesis by (auto simp: sql_update_Cons)
  next
    case False
    with IH show ?thesis by (simp add: sql_update_Cons)
  qed
qed (simp add: sql_update_Nil)

lemma session_ok_fields:
  assumes "session_ok r r'"
  shows "se_thread_key r' = se_thread_key r" "se_session_id r' = se_session_id r" "se_cwd r' = se_cwd r"
  using assms by (simp_all add: session_ok_iff)

text \<open>An update of the registry that revives no row and keeps the links.\<close>

definition retires :: "session_row \<Rightarrow> session_row \<Rightarrow> bool" where
  "retires r r' \<longleftrightarrow> session_ok r r' \<and> session_inv r' \<and> (live r' \<longrightarrow> live r)"

lemma sessions_update_indexes:
  assumes "sessions_wf t" and f: "\<forall>r \<in> set t. P r \<longrightarrow> retires r (f r)"
  shows "distinct (map se_session_id (sql_update P f t))" "one_live_session (sql_update P f t)"
    "one_worker_per_repo (sql_update P f t)" "\<forall>r \<in> set (sql_update P f t). session_inv r"
    "map (\<lambda>s. (se_session_id s, se_thread_key s)) (sql_update P f t) = map (\<lambda>s. (se_session_id s, se_thread_key s)) t"
proof -
  have ok: "session_ok r (f r)" "session_inv (f r)" "live (f r) \<Longrightarrow> live r" if "r \<in> set t" "P r" for r
    using f that by (simp_all add: retires_def)
  show ids: "map (\<lambda>s. (se_session_id s, se_thread_key s)) (sql_update P f t) =
      map (\<lambda>s. (se_session_id s, se_thread_key s)) t"
    by (rule map_sql_update_on) (simp add: session_ok_fields(1,2) [OF ok(1)])
  have "map se_session_id (sql_update P f t) = map se_session_id t"
    using arg_cong [OF ids, of "map fst"] by (simp add: comp_def)
  with assms(1) show "distinct (map se_session_id (sql_update P f t))" by (simp add: sessions_wf_def)
  show "one_live_session (sql_update P f t)"
    using assms(1) unfolding one_live_session_def sessions_wf_def
    by (intro distinct_filter_update) (simp_all add: session_ok_fields(1) [OF ok(1)] ok(3))
  show "one_worker_per_repo (sql_update P f t)"
    using assms(1) unfolding one_worker_per_repo_def sessions_wf_def
    by (intro distinct_filter_update) (simp_all add: session_ok_fields(1,3) [OF ok(1)] ok(3))
  show "\<forall>r \<in> set (sql_update P f t). session_inv r"
    using assms(1) ok(2) by (simp add: sessions_wf_def ball_sql_update)
qed

lemma map_pairs_cover:
  fixes t t' :: "session_row list"
  assumes "map (\<lambda>s. (se_session_id s, se_thread_key s)) t' = map (\<lambda>s. (se_session_id s, se_thread_key s)) t"
    and "s \<in> set t"
  shows "\<exists>s' \<in> set t'. se_session_id s' = se_session_id s \<and> se_thread_key s' = se_thread_key s"
proof -
  have "(se_session_id s, se_thread_key s) \<in> (\<lambda>s. (se_session_id s, se_thread_key s)) ` set t'"
    using assms(2) image_map_cong [OF assms(1)] by auto
  then show ?thesis by auto
qed

lemma sessions_wf_update:
  assumes "sessions_wf t" and f: "\<And>r. r \<in> set t \<Longrightarrow> P r \<Longrightarrow> retires r (f r)"
    and link: "\<And>r. r \<in> set t \<Longrightarrow> P r \<Longrightarrow> se_rotated_to (f r) = se_rotated_to r"
  shows "sessions_wf (sql_update P f t)"
proof -
  from f have f': "\<forall>r \<in> set t. P r \<longrightarrow> retires r (f r)" by blast
  note ix = sessions_update_indexes [OF assms(1) f']
  have "\<forall>r \<in> set (sql_update P f t). \<forall>x. se_rotated_to r = Some x \<longrightarrow>
        (\<exists>q \<in> set t. se_session_id q = x \<and> se_thread_key q = se_thread_key r)"
    using assms(1) link f unfolding ball_sql_update
    by (auto simp: sessions_wf_def retires_def session_ok_iff)
  then have "\<forall>r \<in> set (sql_update P f t). \<forall>x. se_rotated_to r = Some x \<longrightarrow>
        (\<exists>q \<in> set (sql_update P f t). se_session_id q = x \<and> se_thread_key q = se_thread_key r)"
    using map_pairs_cover [OF ix(5)] by metis
  with ix(1-4) show ?thesis by (simp add: sessions_wf_def)
qed

lemma wf_update_sessions:
  assumes "wf_db d" and f: "\<And>r. r \<in> set (sessions d) \<Longrightarrow> P r \<Longrightarrow> retires r (f r)"
    and link: "\<And>r. r \<in> set (sessions d) \<Longrightarrow> P r \<Longrightarrow> se_rotated_to (f r) = se_rotated_to r"
  shows "wf_db (d\<lparr>sessions := sql_update P f (sessions d)\<rparr>)"
proof (rule wf_sessions [OF assms(1)])
  note wf = wf_dbD(2) [OF assms(1)]
  show "sessions_wf (sql_update P f (sessions d))" by (rule sessions_wf_update [OF wf f link])
  have "map (\<lambda>s. (se_session_id s, se_thread_key s)) (sql_update P f (sessions d)) =
      map (\<lambda>s. (se_session_id s, se_thread_key s)) (sessions d)"
    by (rule sessions_update_indexes(5) [OF wf]) (blast intro: f)
  from map_pairs_cover [OF this] show "\<exists>s' \<in> set (sql_update P f (sessions d)).
      se_session_id s' = se_session_id s \<and> se_thread_key s' = se_thread_key s" if "s \<in> set (sessions d)" for s
    using that by blast
qed

lemma evolves_update_sessions:
  "(\<And>r. r \<in> set (sessions d) \<Longrightarrow> P r \<Longrightarrow> session_ok r (f r)) \<Longrightarrow>
   db_evolves d (d\<lparr>sessions := sql_update P f (sessions d)\<rparr>)"
  by (simp add: db_evolves_def sl.evolves_update)

text \<open>The single-statement transitions.\<close>

lemma Transition_InrE:
  assumes "transitionCreating sid to d = Inr d'"
  obtains r where "r \<in> set (sessions d)" "se_session_id r = sid" "se_status r = Creating"
    "d' = d\<lparr>sessions := sql_update (\<lambda>r. se_session_id r = sid \<and> se_status r = Creating)
       (\<lambda>r. r\<lparr>se_status := to\<rparr>) (sessions d)\<rparr>"
  using assms unfolding transitionCreating_def by (auto simp: exec_defs rows_affected_0 split: if_splits)

lemma Transition_retires:
  "session_inv r \<Longrightarrow> se_status r = Creating \<Longrightarrow> to = Active \<or> to = Failed \<Longrightarrow> retires r (r\<lparr>se_status := to\<rparr>)"
  by (auto simp: retires_def session_ok_iff session_inv_def live_def live_status_def)

lemma Transition_wf:
  "transitionCreating sid to d = Inr d' \<Longrightarrow> to = Active \<or> to = Failed \<Longrightarrow> wf_db d \<Longrightarrow> wf_db d'"
proof (erule Transition_InrE)
  assume to: "to = Active \<or> to = Failed" and wf: "wf_db d"
    and d': "d' = d\<lparr>sessions := sql_update (\<lambda>r. se_session_id r = sid \<and> se_status r = Creating)
       (\<lambda>r. r\<lparr>se_status := to\<rparr>) (sessions d)\<rparr>"
  show "wf_db d'"
    unfolding d' by (rule wf_update_sessions [OF wf]) (simp_all add: Transition_retires to wf_session_inv [OF wf])
qed

lemma Transition_evolves:
  "transitionCreating sid to d = Inr d' \<Longrightarrow> to = Active \<or> to = Failed \<Longrightarrow> db_evolves d d'"
  by (erule Transition_InrE) (auto intro!: evolves_update_sessions simp: session_ok_iff)

lemma Touch_InrE:
  assumes "TouchSession sid now d = Inr d'"
  obtains "d' = d\<lparr>sessions := sql_update (\<lambda>r. se_session_id r = sid)
       (\<lambda>r. r\<lparr>se_last_seen := Some now, se_turns := Some (null_int (se_turns r) + 1)\<rparr>) (sessions d)\<rparr>"
  using assms unfolding TouchSession_def by (auto simp: exec_defs rows_affected_0 split: if_splits)

lemma Touch_ok: "session_ok r (r\<lparr>se_last_seen := Some now, se_turns := Some (null_int (se_turns r) + 1)\<rparr>)"
  by (simp add: session_ok_iff null_int_def [of "Some _"])

lemma Touch_wf: "TouchSession sid now d = Inr d' \<Longrightarrow> wf_db d \<Longrightarrow> wf_db d'"
proof (erule Touch_InrE)
  assume wf: "wf_db d" and d': "d' = d\<lparr>sessions := sql_update (\<lambda>r. se_session_id r = sid)
       (\<lambda>r. r\<lparr>se_last_seen := Some now, se_turns := Some (null_int (se_turns r) + 1)\<rparr>) (sessions d)\<rparr>"
  have "retires r (r\<lparr>se_last_seen := Some now, se_turns := Some (null_int (se_turns r) + 1)\<rparr>)"
    if "session_inv r" for r
    using that by (simp add: retires_def Touch_ok session_inv_def live_def)
  then show "wf_db d'"
    unfolding d' by (intro wf_update_sessions [OF wf]) (simp_all add: wf_session_inv [OF wf])
qed

lemma Touch_evolves: "TouchSession sid now d = Inr d' \<Longrightarrow> db_evolves d d'"
  by (erule Touch_InrE) (simp add: evolves_update_sessions Touch_ok)

lemma Taint_InrE:
  assumes "MarkSessionTainted sid d = Inr d'"
  obtains "d' = d\<lparr>sessions := sql_update (\<lambda>r. se_session_id r = sid) (\<lambda>r. r\<lparr>se_tainted := True\<rparr>) (sessions d)\<rparr>"
    "\<exists>r \<in> set (sessions d). se_session_id r = sid"
  using assms unfolding MarkSessionTainted_def by (auto simp: exec_defs rows_affected_0 split: if_splits)

lemma Taint_ok: "session_ok r (r\<lparr>se_tainted := True\<rparr>)"
  by (simp add: session_ok_iff)

lemma Taint_wf: "MarkSessionTainted sid d = Inr d' \<Longrightarrow> wf_db d \<Longrightarrow> wf_db d'"
proof (erule Taint_InrE)
  assume wf: "wf_db d" and d': "d' = d\<lparr>sessions := sql_update (\<lambda>r. se_session_id r = sid)
       (\<lambda>r. r\<lparr>se_tainted := True\<rparr>) (sessions d)\<rparr>"
  have "retires r (r\<lparr>se_tainted := True\<rparr>)" if "session_inv r" for r
    using that by (simp add: retires_def Taint_ok session_inv_def live_def)
  then show "wf_db d'"
    unfolding d' by (intro wf_update_sessions [OF wf]) (simp_all add: wf_session_inv [OF wf])
qed

lemma Taint_evolves: "MarkSessionTainted sid d = Inr d' \<Longrightarrow> db_evolves d d'"
  by (erule Taint_InrE) (simp add: evolves_update_sessions Taint_ok)

text \<open>The insert.\<close>

lemma insertSession_InrE:
  assumes "insertSession fs s d = Inr (cwd, d')"
  obtains "Session_validate s = None" "canonicalCwd fs (S_Cwd s) = Inr cwd" "floor_check (S_TrustFloor s)"
    "S_SessionID s \<notin> se_session_id ` set (sessions d)"
    "\<forall>r \<in> set (sessions d). live r \<longrightarrow> se_thread_key r \<noteq> S_ThreadKey s"
    "\<forall>r \<in> set (sessions d). like_task (S_ThreadKey s) \<longrightarrow> live r \<longrightarrow> like_task (se_thread_key r) \<longrightarrow> se_cwd r \<noteq> cwd"
    "d' = d\<lparr>sessions := sessions d @ [new_session_row s cwd]\<rparr>"
  using assms unfolding insertSession_def sql_exists_key
  by (auto simp: sql_exists_iff split: option.splits sum.splits if_splits)

lemma validate_new_session:
  "Session_validate s = None \<Longrightarrow> floor_check (S_TrustFloor s) \<Longrightarrow>
   session_inv (new_session_row s cwd) \<and> session_fresh (new_session_row s cwd)"
  by (auto simp: Session_validate_def session_inv_def session_fresh_def new_session_row_def split: if_splits)

lemma new_session_live [simp]: "live (new_session_row s cwd)"
  by (simp add: live_def live_status_def new_session_row_def)

lemma sessions_wf_insert:
  assumes "sessions_wf t" and "session_inv r" and "se_rotated_to r = None"
    and "se_session_id r \<notin> se_session_id ` set t"
    and "\<forall>q \<in> set t. live q \<longrightarrow> se_thread_key q \<noteq> se_thread_key r"
    and "\<forall>q \<in> set t. like_task (se_thread_key r) \<longrightarrow> live q \<longrightarrow> like_task (se_thread_key q) \<longrightarrow> se_cwd q \<noteq> se_cwd r"
  shows "sessions_wf (t @ [r])"
proof -
  have "one_live_session (t @ [r])" "one_worker_per_repo (t @ [r])"
    using assms(1,5,6) by (auto simp: sessions_wf_def one_live_session_def one_worker_per_repo_def)
  moreover have "\<exists>q \<in> set (t @ [r]). se_session_id q = x \<and> se_thread_key q = se_thread_key z"
    if "z \<in> set (t @ [r])" "se_rotated_to z = Some x" for z x
    using that assms(1,3) by (auto simp: sessions_wf_def)
  ultimately show ?thesis using assms(1,2,4) by (auto simp: sessions_wf_def)
qed

lemma insertSession_wf:
  assumes "insertSession fs s d = Inr (cwd, d')" and wf: "wf_db d"
  shows "wf_db d'"
  using assms(1)
proof (rule insertSession_InrE)
  assume s: "Session_validate s = None" "floor_check (S_TrustFloor s)"
    "S_SessionID s \<notin> se_session_id ` set (sessions d)"
    "\<forall>r \<in> set (sessions d). live r \<longrightarrow> se_thread_key r \<noteq> S_ThreadKey s"
    "\<forall>r \<in> set (sessions d). like_task (S_ThreadKey s) \<longrightarrow> live r \<longrightarrow> like_task (se_thread_key r) \<longrightarrow> se_cwd r \<noteq> cwd"
    and d': "d' = d\<lparr>sessions := sessions d @ [new_session_row s cwd]\<rparr>"
  have "sessions_wf (sessions d @ [new_session_row s cwd])"
    using s validate_new_session [OF s(1,2)]
    by (intro sessions_wf_insert wf_dbD(2) [OF wf]) (simp_all add: new_session_row_def)
  then show "wf_db d'" unfolding d' by (rule wf_sessions [OF wf]) auto
qed

lemma insertSession_evolves: "insertSession fs s d = Inr (cwd, d') \<Longrightarrow> db_evolves d d'"
  by (erule insertSession_InrE) (simp add: db_evolves_def sl.evolves_insert validate_new_session)

section \<open>Retirement\<close>

definition retire_row :: "sess_status \<Rightarrow> string \<Rightarrow> session_row \<Rightarrow> session_row" where
  "retire_row to successor r = r\<lparr>se_status := to, se_rotated_to := Some successor\<rparr>"

lemma sql_update_fuse:
  assumes "\<And>r. r \<in> set t \<Longrightarrow> P r \<Longrightarrow> Q (f r)" and "\<And>r. r \<in> set t \<Longrightarrow> \<not> P r \<Longrightarrow> \<not> Q r"
  shows "sql_update Q g (sql_update P f t) = sql_update P (\<lambda>r. g (f r)) t"
  using assms by (auto simp: sql_update_def)

text \<open>The three statements of a retirement, as one: the retired row with its link, and the successor.\<close>

lemma retire_InrE:
  assumes "retireSession fs old s from to err d = Inr (cwd, d')" and wf: "wf_db d"
  obtains r where "r \<in> set (sessions d)" "se_session_id r = old" "se_status r = from" "se_thread_key r = S_ThreadKey s"
    "insertSession fs s (d\<lparr>sessions := sql_update
       (\<lambda>r. se_session_id r = old \<and> se_status r = from \<and> se_thread_key r = S_ThreadKey s)
       (\<lambda>r. r\<lparr>se_status := to\<rparr>) (sessions d)\<rparr>) =
     Inr (cwd, d\<lparr>sessions := sql_update
       (\<lambda>r. se_session_id r = old \<and> se_status r = from \<and> se_thread_key r = S_ThreadKey s)
       (\<lambda>r. r\<lparr>se_status := to\<rparr>) (sessions d) @ [new_session_row s cwd]\<rparr>)"
    "S_SessionID s \<notin> se_session_id ` set (sessions d)"
    "d' = d\<lparr>sessions := sql_update
       (\<lambda>r. se_session_id r = old \<and> se_status r = from \<and> se_thread_key r = S_ThreadKey s)
       (retire_row to (S_SessionID s)) (sessions d) @ [new_session_row s cwd]\<rparr>"
proof -
  let ?P = "\<lambda>r. se_session_id r = old \<and> se_status r = from \<and> se_thread_key r = S_ThreadKey s"
  let ?f = "\<lambda>r. r\<lparr>se_status := to\<rparr>" and ?Q = "\<lambda>r. se_session_id r = old"
  let ?g = "\<lambda>r. r\<lparr>se_rotated_to := Some (S_SessionID s)\<rparr>"
  let ?d1 = "d\<lparr>sessions := sql_update ?P ?f (sessions d)\<rparr>"
  from assms(1) obtain d2 where n: "rows_affected ?P (sessions d) \<noteq> 0"
    and ins: "insertSession fs s ?d1 = Inr (cwd, d2)"
    and d': "d' = d2\<lparr>sessions := sql_update ?Q ?g (sessions d2)\<rparr>"
    unfolding retireSession_def exec_defs
    by (simp del: rows_affected_0 split: if_splits sum.splits prod.splits)
  from n obtain r where r: "r \<in> set (sessions d)" "?P r" by (auto simp: rows_affected_0)
  have uniq: "\<forall>q \<in> set (sessions d). se_session_id q = old \<longrightarrow> q = r"
    using wf_session_unique [OF wf _ r(1)] r(2) by simp
  have ids: "se_session_id ` set (sql_update ?P ?f (sessions d)) = se_session_id ` set (sessions d)"
    by (rule image_map_cong, rule map_sql_update) simp
  from ins have d2: "d2 = ?d1\<lparr>sessions := sessions ?d1 @ [new_session_row s cwd]\<rparr>"
    and new: "S_SessionID s \<notin> se_session_id ` set (sessions d)"
    using ids by (auto elim!: insertSession_InrE)
  have "S_SessionID s \<noteq> old" using new r by auto
  then have row: "sql_update ?Q ?g [new_session_row s cwd] = [new_session_row s cwd]"
    by (simp add: sql_update_def new_session_row_def)
  have "sql_update ?Q ?g (sql_update ?P ?f (sessions d)) = sql_update ?P (\<lambda>r. ?g (?f r)) (sessions d)"
  proof (rule sql_update_fuse)
    fix q assume "q \<in> set (sessions d)" "\<not> ?P q"
    with uniq r(2) show "se_session_id q \<noteq> old" by blast
  qed simp
  then have "sessions d' = sql_update ?P (retire_row to (S_SessionID s)) (sessions d) @ [new_session_row s cwd]"
    unfolding d' d2 using row by (simp add: sql_update_append retire_row_def [abs_def])
  with d' d2 have "d' = d\<lparr>sessions := sql_update ?P (retire_row to (S_SessionID s)) (sessions d) @ [new_session_row s cwd]\<rparr>"
    by simp
  with that [OF r(1)] r(2) new ins d2 show thesis by simp
qed

definition retirement :: "sess_status \<Rightarrow> sess_status \<Rightarrow> bool" where
  "retirement from to \<longleftrightarrow> (from = Active \<and> (to = Rotated \<or> to = ResumeFailed)) \<or> (from = Creating \<and> to = Failed)"

lemma retire_row_retires:
  assumes "session_inv r" "se_status r = from" "retirement from to"
  shows "retires r (retire_row to sid r)"
proof -
  have "live r" using assms(2,3) by (auto simp: retirement_def live_def live_status_def)
  with assms(1) have "se_rotated_to r = None" by (simp add: session_inv_def)
  with assms show ?thesis
    by (auto simp: retires_def retire_row_def session_ok_iff session_inv_def live_def live_status_def retirement_def)
qed

lemma retire_wf:
  assumes "retireSession fs old s from to err d = Inr (cwd, d')" and rt: "retirement from to" and wf: "wf_db d"
  shows "wf_db d'"
  using assms(1) wf
proof (rule retire_InrE)
  let ?P = "\<lambda>r. se_session_id r = old \<and> se_status r = from \<and> se_thread_key r = S_ThreadKey s"
  let ?t = "sql_update ?P (retire_row to (S_SessionID s)) (sessions d)" and ?n = "new_session_row s cwd"
  let ?t1 = "sql_update ?P (\<lambda>r. r\<lparr>se_status := to\<rparr>) (sessions d)"
  assume ins: "insertSession fs s (d\<lparr>sessions := ?t1\<rparr>) = Inr (cwd, d\<lparr>sessions := ?t1 @ [?n]\<rparr>)"
    and new: "S_SessionID s \<notin> se_session_id ` set (sessions d)" and d': "d' = d\<lparr>sessions := ?t @ [?n]\<rparr>"
  have rr: "\<forall>r \<in> set (sessions d). ?P r \<longrightarrow> retires r (retire_row to (S_SessionID s) r)"
    using retire_row_retires [OF wf_session_inv [OF wf] _ rt] by simp
  note ix = sessions_update_indexes [OF wf_dbD(2) [OF wf] rr]
  have ids: "se_session_id ` set ?t = se_session_id ` set (sessions d)"
    by (rule image_map_cong, rule map_sql_update) (simp add: retire_row_def)
  have gone: "\<not> live_status to" using rt by (auto simp: retirement_def live_status_def)
  from ins have n: "session_inv ?n" "\<forall>q \<in> set ?t1. live q \<longrightarrow> se_thread_key q \<noteq> S_ThreadKey s"
    "\<forall>q \<in> set ?t1. like_task (S_ThreadKey s) \<longrightarrow> live q \<longrightarrow> like_task (se_thread_key q) \<longrightarrow> se_cwd q \<noteq> cwd"
    by (auto elim!: insertSession_InrE dest: validate_new_session)
  have sub: "\<forall>q \<in> set ?t. live q \<longrightarrow> q \<in> set ?t1"
    unfolding ball_sql_update using gone
    by (simp add: retire_row_def live_def [of "_\<lparr>se_status := to, se_rotated_to := _\<rparr>"] in_sql_updateI_kept)
  have n_fields: "se_thread_key ?n = S_ThreadKey s" "se_cwd ?n = cwd" by (simp_all add: new_session_row_def)
  have live: "\<forall>q \<in> set ?t. live q \<longrightarrow> se_thread_key q \<noteq> se_thread_key ?n"
    "\<forall>q \<in> set ?t. like_task (se_thread_key ?n) \<longrightarrow> live q \<longrightarrow> like_task (se_thread_key q) \<longrightarrow> se_cwd q \<noteq> se_cwd ?n"
    unfolding n_fields using n(2,3) sub by blast+
  have "one_live_session (?t @ [?n])" "one_worker_per_repo (?t @ [?n])"
    using ix(2,3) live by (auto simp: one_live_session_def one_worker_per_repo_def)
  moreover have "\<forall>r \<in> set ?t. \<forall>x. se_rotated_to r = Some x \<longrightarrow>
      (\<exists>q \<in> set (?t @ [?n]). se_session_id q = x \<and> se_thread_key q = se_thread_key r)"
    unfolding ball_sql_update
  proof (intro ballI)
    fix r assume r: "r \<in> set (sessions d)"
    have "\<exists>q \<in> set (?t @ [?n]). se_session_id q = x \<and> se_thread_key q = se_thread_key r" if x: "se_rotated_to r = Some x" for x
    proof -
      obtain q where "q \<in> set (sessions d)" "se_session_id q = x" "se_thread_key q = se_thread_key r"
        using wf_dbD(2) [OF wf] r x unfolding sessions_wf_def by blast
      with map_pairs_cover [OF ix(5), of q] show ?thesis by auto
    qed
    moreover have "se_session_id ?n = S_SessionID s \<and> se_thread_key ?n = S_ThreadKey s" by (simp add: new_session_row_def)
    ultimately show "if ?P r then \<forall>x. se_rotated_to (retire_row to (S_SessionID s) r) = Some x \<longrightarrow>
        (\<exists>q \<in> set (?t @ [?n]). se_session_id q = x \<and> se_thread_key q = se_thread_key (retire_row to (S_SessionID s) r))
      else \<forall>x. se_rotated_to r = Some x \<longrightarrow>
        (\<exists>q \<in> set (?t @ [?n]). se_session_id q = x \<and> se_thread_key q = se_thread_key r)"
      by (simp add: retire_row_def)
  qed
  moreover have "se_rotated_to ?n = None" by (simp add: new_session_row_def)
  moreover have "se_session_id ?n \<notin> se_session_id ` set ?t" using new ids by (simp add: new_session_row_def)
  ultimately have "sessions_wf (?t @ [?n])"
    using ix(1,4) n(1) by (simp add: sessions_wf_def)
  then show "wf_db d'"
    unfolding d' by (rule wf_sessions [OF wf]) (use map_pairs_cover [OF ix(5)] in auto)
qed

lemma retire_evolves:
  assumes "retireSession fs old s from to err d = Inr (cwd, d')" and rt: "retirement from to" and wf: "wf_db d"
  shows "db_evolves d d'"
  using assms(1) wf
proof (rule retire_InrE)
  let ?P = "\<lambda>r. se_session_id r = old \<and> se_status r = from \<and> se_thread_key r = S_ThreadKey s"
  let ?t1 = "sql_update ?P (\<lambda>r. r\<lparr>se_status := to\<rparr>) (sessions d)" and ?n = "new_session_row s cwd"
  assume ins: "insertSession fs s (d\<lparr>sessions := ?t1\<rparr>) = Inr (cwd, d\<lparr>sessions := ?t1 @ [?n]\<rparr>)"
    and d': "d' = d\<lparr>sessions := sql_update ?P (retire_row to (S_SessionID s)) (sessions d) @ [?n]\<rparr>"
  have fresh: "session_fresh ?n" using ins by (auto elim!: insertSession_InrE dest: validate_new_session)
  have "retires r (retire_row to (S_SessionID s) r)" if "r \<in> set (sessions d)" "?P r" for r
    using retire_row_retires [OF wf_session_inv [OF wf that(1)] _ rt] that(2) by simp
  then have "table_evolves session_ok session_fresh (sessions d) (sql_update ?P (retire_row to (S_SessionID s)) (sessions d))"
    by (intro sl.evolves_update) (simp add: retires_def)
  with fresh have "table_evolves session_ok session_fresh (sessions d) (sessions d')"
    by (simp add: d' table_evolves_def length_sql_update)
  then show ?thesis by (simp add: d' db_evolves_def)
qed

section \<open>Lookup after a step\<close>

lemma live_unique:
  assumes "wf_db d" and "r \<in> set (sessions d)" "live r" and "q \<in> set (sessions d)" "live q"
    and "se_thread_key q = se_thread_key r"
  shows "q = r"
proof -
  have "distinct (map se_thread_key (filter live (sessions d)))"
    using wf_dbD(2) [OF assms(1)] by (simp add: sessions_wf_def one_live_session_def)
  from distinct_key_inj [OF this, of q r] assms(2-) show ?thesis by simp
qed

lemma ResolveLive_eq:
  assumes "wf_db d" and "r \<in> set (sessions d)" "live r"
  shows "ResolveLiveSession (se_thread_key r) d = Some (scanLiveSession r)"
proof (cases "find (\<lambda>q. se_thread_key q = se_thread_key r \<and> live q) (sessions d)")
  case None
  with assms show ?thesis by (auto simp: find_eq_None)
next
  case (Some q)
  then have "q \<in> set (sessions d)" "live q" "se_thread_key q = se_thread_key r" by (auto dest: find_eq_Some)
  then have "q = r" by (rule live_unique [OF assms])
  with Some show ?thesis by (simp add: ResolveLiveSession_def)
qed

text \<open>The predecessors of a session after a retirement.\<close>

lemma retire_predecessors:
  assumes "retireSession fs old s from to err d = Inr (cwd, d')" and rt: "retirement from to" and wf: "wf_db d"
  shows "set (predecessors d' (S_SessionID s)) = {(old, to)}"
    "sid \<noteq> S_SessionID s \<Longrightarrow> set (predecessors d' sid) = set (predecessors d sid)"
proof -
  let ?P = "\<lambda>r. se_session_id r = old \<and> se_status r = from \<and> se_thread_key r = S_ThreadKey s"
  from assms(1) wf obtain r where r: "r \<in> set (sessions d)" "?P r"
    and new: "S_SessionID s \<notin> se_session_id ` set (sessions d)"
    and d': "d' = d\<lparr>sessions := sql_update ?P (retire_row to (S_SessionID s)) (sessions d) @ [new_session_row s cwd]\<rparr>"
    by (rule retire_InrE) blast
  have uniq: "\<forall>q \<in> set (sessions d). se_session_id q = old \<longrightarrow> q = r"
    using wf_session_unique [OF wf _ r(1)] r(2) by simp
  have "live r" using r(2) rt by (auto simp: retirement_def live_def live_status_def)
  then have nolink: "se_rotated_to r = None" using wf_session_inv [OF wf r(1)] by (simp add: session_inv_def)
  have unlinked: "\<forall>q \<in> set (sessions d). se_rotated_to q \<noteq> Some (S_SessionID s)"
  proof
    fix q assume q: "q \<in> set (sessions d)"
    show "se_rotated_to q \<noteq> Some (S_SessionID s)"
    proof
      assume "se_rotated_to q = Some (S_SessionID s)"
      then obtain z where "z \<in> set (sessions d)" "se_session_id z = S_SessionID s"
        using wf_dbD(2) [OF wf] q unfolding sessions_wf_def by blast
      with new show False by (auto intro: rev_image_eqI)
    qed
  qed
  have set_pred: "set (predecessors e sid) = (\<lambda>s. (se_session_id s, se_status s)) ` {q \<in> set (sessions e). se_rotated_to q = Some sid}"
    for e sid by (simp add: predecessors_def)
  have rows: "set (sessions d') = retire_row to (S_SessionID s) ` {q \<in> set (sessions d). ?P q} \<union>
      {q \<in> set (sessions d). \<not> ?P q} \<union> {new_session_row s cwd}"
    by (auto simp: d' set_sql_update)
  have only: "{q \<in> set (sessions d). ?P q} = {r}" using uniq r by blast
  have link: "se_rotated_to (retire_row to (S_SessionID s) q) = Some (S_SessionID s)"
    "se_session_id (retire_row to (S_SessionID s) q) = se_session_id q"
    "se_status (retire_row to (S_SessionID s) q) = to" for q by (simp_all add: retire_row_def)
  have fresh: "se_rotated_to (new_session_row s cwd) = None" by (simp add: new_session_row_def)
  have "{q \<in> set (sessions d'). se_rotated_to q = Some (S_SessionID s)} = {retire_row to (S_SessionID s) r}"
    unfolding rows only using unlinked link(1) fresh by auto
  then show "set (predecessors d' (S_SessionID s)) = {(old, to)}"
    unfolding set_pred using r(2) link(2,3) by simp
  assume sid: "sid \<noteq> S_SessionID s"
  have "{q \<in> set (sessions d'). se_rotated_to q = Some sid} = {q \<in> set (sessions d). se_rotated_to q = Some sid}"
    unfolding rows only using sid link(1) fresh nolink uniq r(2) by auto
  then show "set (predecessors d' sid) = set (predecessors d sid)" unfolding set_pred by simp
qed

lemma chain_cong:
  assumes "\<And>p. chain d sid p \<Longrightarrow> set (predecessors d' (fst p)) = set (predecessors d (fst p))"
    and "set (predecessors d' sid) = set (predecessors d sid)"
  shows "chain d sid p \<Longrightarrow> chain d' sid p"
proof (induction rule: chain.induct)
  case (further c p)
  then show ?case using assms(1) [of c] by (blast intro: chain.further)
qed (simp add: assms(2) chain.first)

lemma chain_after_failed:
  assumes "set (predecessors d sid) = {(old, Failed)}"
  shows "chain d sid p \<longleftrightarrow> p = (old, Failed) \<or> chain d old p"
proof
  show "chain d sid p \<Longrightarrow> p = (old, Failed) \<or> chain d old p"
    by (induction rule: chain.induct) (use assms in \<open>auto intro: chain.intros\<close>)
  have base: "chain d sid (old, Failed)" using assms by (auto intro: chain.first)
  have "chain d old p \<Longrightarrow> chain d sid p"
    by (induction rule: chain.induct) (use base in \<open>auto intro: chain.further\<close>)
  with base show "p = (old, Failed) \<or> chain d old p \<Longrightarrow> chain d sid p" by blast
qed

lemma chain_not_failed:
  assumes "set (predecessors d sid) = {(old, to)}" and "to \<noteq> Failed"
  shows "chain d sid p \<longleftrightarrow> p = (old, to)"
proof
  show "chain d sid p \<Longrightarrow> p = (old, to)"
    by (induction rule: chain.induct) (use assms in auto)
qed (use assms in \<open>auto intro: chain.first\<close>)

lemma chain_ids:
  assumes "chain d sid p" shows "fst p \<in> se_session_id ` set (sessions d)"
  using assms by (cases rule: chain.cases) (auto simp: predecessors_def)

lemma retire_degraded:
  assumes "wf_db d" and "retireSession fs old s from to err d = Inr (cwd, d')" and "retirement from to"
  shows "SessionDegraded (S_SessionID s) d' \<longleftrightarrow> to = ResumeFailed \<or> (to = Failed \<and> SessionDegraded old d)"
proof -
  note pred = retire_predecessors [OF assms(2,3,1)]
  have new: "S_SessionID s \<notin> se_session_id ` set (sessions d)" and old: "old \<in> se_session_id ` set (sessions d)"
    using assms(2,1) by (auto elim!: retire_InrE)
  have away: "sid \<noteq> S_SessionID s" if "sid \<in> se_session_id ` set (sessions d)" for sid using that new by blast
  show ?thesis
  proof (cases "to = Failed")
    case True
    have fwd: "chain d old p \<Longrightarrow> chain d' old p" for p
      by (rule chain_cong) (use pred(2) away old chain_ids in auto)
    have ids: "chain d' old p \<Longrightarrow> chain d old p" for p
    proof (induction rule: chain.induct)
      case (first p)
      then show ?case using pred(2) [OF away [OF old]] by (auto intro: chain.first)
    next
      case (further c p)
      then show ?case using pred(2) [OF away [OF chain_ids [OF further.IH]]] by (auto intro: chain.further)
    qed
    from fwd ids have "chain d' old p \<longleftrightarrow> chain d old p" for p by blast
    with chain_after_failed [of d' "S_SessionID s" old] pred(1) True show ?thesis
      by (auto simp: SessionDegraded_iff)
  next
    case False
    with chain_not_failed [OF pred(1)] show ?thesis by (auto simp: SessionDegraded_iff)
  qed
qed

lemma retire_resolve:
  assumes "wf_db d" and "retireSession fs old s from to err d = Inr (cwd, d')" and "retirement from to"
  shows "ResolveLiveSession (S_ThreadKey s) d' = Some (scanLiveSession (new_session_row s cwd))"
proof -
  have "new_session_row s cwd \<in> set (sessions d')" using assms(2,1) by (rule retire_InrE) simp
  from ResolveLive_eq [OF retire_wf [OF assms(2,3,1)] this new_session_live] show ?thesis
    by (simp add: new_session_row_def)
qed

lemma ResolveLive_SomeD:
  "ResolveLiveSession k d = Some lv \<Longrightarrow> \<exists>r \<in> set (sessions d). live r \<and> se_thread_key r = k \<and> lv = scanLiveSession r"
  by (auto simp: ResolveLiveSession_def dest: find_eq_Some)

section \<open>Properties\<close>

text \<open>
  The transparency note survives.  After a retirement the successor counts as degraded exactly
  when its predecessor was retired as resume_failed, or was a failed first attempt that itself
  counted as degraded; an ordinary rotation ends the chain.
\<close>

lemma degradation_follows_chain:
  assumes "wf_db d" and "retireSession fs old s from to err d = Inr (cwd, d')" and "retirement from to"
  shows "SessionDegraded (S_SessionID s) d' \<longleftrightarrow> to = ResumeFailed \<or> (to = Failed \<and> SessionDegraded old d)"
  by (rule retire_degraded [OF assms])

definition ex_fs :: file_system where
  "ex_fs = \<lparr>fs_abs = Some, fs_eval = Some, fs_is_dir = (\<lambda>p. Some (p \<noteq> ''/etc/passwd''))\<rparr>"

definition ex_successor :: Session where
  "ex_successor = \<lparr>S_ThreadKey = ''discord:dm:7'', S_SessionID = ''s2'', S_Cwd = ''/w'', S_Origin = [],
     S_TrustFloor = ''owner'', S_CreatedAt = 30, S_ActivationDeadline = 90\<rparr>"

lemma ex_resume_fail:
  "\<exists>cwd d'. retireSession ex_fs ''s1'' ex_successor Active ResumeFailed ErrNotActive ex_turn_db = Inr (cwd, d')"
  by (simp add: retireSession_def exec_defs rows_affected_def ex_defs empty_db_def ex_successor_def
      insertSession_def Session_validate_def isWorkerThreadKey_def has_prefix_def canonicalCwd_def ex_fs_def
      floor_check_def sql_exists_def sql_update_def live_def live_status_def like_task_def to_lower_def
      ascii_lower_def)

lemma degradation_follows_chain_example:
  "\<exists>cwd d'. retireSession ex_fs ''s1'' ex_successor Active ResumeFailed ErrNotActive ex_turn_db = Inr (cwd, d') \<and>
     SessionDegraded ''s2'' d'"
proof -
  obtain cwd d' where r: "retireSession ex_fs ''s1'' ex_successor Active ResumeFailed ErrNotActive ex_turn_db = Inr (cwd, d')"
    using ex_resume_fail by blast
  from degradation_follows_chain [OF wf_ex_turn_db r] have "SessionDegraded ''s2'' d'"
    by (simp add: retirement_def ex_successor_def)
  with r show ?thesis by blast
qed

text \<open>
  The recursive query of \<open>SessionDegraded\<close> terminates and answers whether a chain of links,
  followed backwards through failed sessions only, reaches a resume_failed one; also on a table
  whose links are cyclic.
\<close>

lemma SessionDegraded_chain:
  "SessionDegraded sid d \<longleftrightarrow> (\<exists>p. chain d sid p \<and> snd p = ResumeFailed)"
  by (rule SessionDegraded_iff)

text \<open>
  A retirement hands the thread over in one step.  Afterwards the retired session carries the
  retired status and the link to the successor, the successor is the thread's live session and is
  born creating with the canonical directory, no other row of the registry changed, and no thread
  has two live sessions.
\<close>

lemma retirement_hands_over:
  assumes "wf_db d" and "retireSession fs old s from to err d = Inr (cwd, d')" and "retirement from to"
  shows "ResolveLiveSession (S_ThreadKey s) d' = Some (scanLiveSession (new_session_row s cwd)) \<and>
    canonicalCwd fs (S_Cwd s) = Inr cwd \<and>
    (\<exists>r \<in> set (sessions d). se_session_id r = old \<and> se_status r = from \<and> se_thread_key r = S_ThreadKey s \<and>
       set (sessions d') = insert (new_session_row s cwd)
         (insert (r\<lparr>se_status := to, se_rotated_to := Some (S_SessionID s)\<rparr>) (set (sessions d) - {r}))) \<and>
    one_live_session (sessions d')"
proof -
  let ?P = "\<lambda>r. se_session_id r = old \<and> se_status r = from \<and> se_thread_key r = S_ThreadKey s"
  from assms(2,1) obtain r where r: "r \<in> set (sessions d)" "?P r"
    and ins: "insertSession fs s (d\<lparr>sessions := sql_update ?P (\<lambda>r. r\<lparr>se_status := to\<rparr>) (sessions d)\<rparr>) =
       Inr (cwd, d\<lparr>sessions := sql_update ?P (\<lambda>r. r\<lparr>se_status := to\<rparr>) (sessions d) @ [new_session_row s cwd]\<rparr>)"
    and d': "d' = d\<lparr>sessions := sql_update ?P (retire_row to (S_SessionID s)) (sessions d) @ [new_session_row s cwd]\<rparr>"
    by (rule retire_InrE) blast
  have uniq: "\<forall>q \<in> set (sessions d). se_session_id q = old \<longrightarrow> q = r"
    using wf_session_unique [OF assms(1) _ r(1)] r(2) by simp
  have wf': "wf_db d'" by (rule retire_wf [OF assms(2,3,1)])
  have in': "new_session_row s cwd \<in> set (sessions d')" by (simp add: d')
  have P: "{q \<in> set (sessions d). ?P q} = {r}" "{q \<in> set (sessions d). \<not> ?P q} = set (sessions d) - {r}"
    using uniq r by blast+
  have "set (sessions d') = retire_row to (S_SessionID s) ` {q \<in> set (sessions d). ?P q} \<union>
      {q \<in> set (sessions d). \<not> ?P q} \<union> {new_session_row s cwd}"
    by (auto simp: d' set_sql_update)
  then have rows: "set (sessions d') = insert (new_session_row s cwd)
         (insert (r\<lparr>se_status := to, se_rotated_to := Some (S_SessionID s)\<rparr>) (set (sessions d) - {r}))"
    unfolding P by (auto simp: retire_row_def)
  have "ResolveLiveSession (S_ThreadKey s) d' = Some (scanLiveSession (new_session_row s cwd))"
    using ResolveLive_eq [OF wf' in' new_session_live] by (simp add: new_session_row_def)
  moreover have "canonicalCwd fs (S_Cwd s) = Inr cwd" using ins by (rule insertSession_InrE)
  moreover have "one_live_session (sessions d')" using wf_dbD(2) [OF wf'] by (simp add: sessions_wf_def)
  ultimately show ?thesis using r rows by blast
qed

lemma retirement_hands_over_example:
  "\<exists>cwd d'. retireSession ex_fs ''s1'' ex_successor Active ResumeFailed ErrNotActive ex_turn_db = Inr (cwd, d') \<and>
     ResolveLiveSession ''discord:dm:7'' d' = Some (scanLiveSession (new_session_row ex_successor cwd))"
proof -
  obtain cwd d' where r: "retireSession ex_fs ''s1'' ex_successor Active ResumeFailed ErrNotActive ex_turn_db = Inr (cwd, d')"
    using ex_resume_fail by blast
  from retirement_hands_over [OF wf_ex_turn_db r] show ?thesis using r
    by (auto simp: retirement_def ex_successor_def)
qed

end
