(* ===== verification/Store_Identities.thy ===== *)
theory Store_Identities
  imports Trust Store_Sessions
begin

text \<open>
  Identities and turns: \<open>src/internal/store/identities.go\<close> and \<open>turns.go\<close>.  A lookup
  returns a level together with an error, as the Go function does, because the level it returns
  beside an error is part of its contract; whether the query itself fails is an argument.  The
  identities table is arbitrary: rows the CHECK constraints would refuse are judged again by the
  lookup, and so they are in the model.
\<close>

section \<open>Identities\<close>

record Identity =
  I_Channel :: string
  I_NativeID :: string
  I_Trust :: string
  I_OwnerID :: string
  I_Label :: string

definition identity_at :: "string \<Rightarrow> string \<Rightarrow> db \<Rightarrow> identity_row option" where
  "identity_at channel nativeID d =
     find (\<lambda>r. id_channel r = channel \<and> id_native_id r = nativeID) (identities d)"

definition ResolveOwnerID :: "bool \<Rightarrow> string \<Rightarrow> string \<Rightarrow> db \<Rightarrow> (string \<times> bool) \<times> store_error option" where
  "ResolveOwnerID query_fails channel nativeID d =
     (if query_fails then (([], False), Some ErrDriver)
      else (case find (\<lambda>r. id_channel r = channel \<and> id_native_id r = nativeID \<and> id_trust r = ''owner'')
                   (identities d) of
              None \<Rightarrow> (([], False), None)
            | Some r \<Rightarrow>
                (case id_owner_id r of
                   None \<Rightarrow> (([], False), Some ErrDriver)
                 | Some ownerID \<Rightarrow> ((ownerID, True), None))))"

definition ResolveTrust :: "bool \<Rightarrow> string \<Rightarrow> string \<Rightarrow> db \<Rightarrow> level \<times> store_error option" where
  "ResolveTrust query_fails channel nativeID d =
     (if query_fails then (Untrusted, Some ErrDriver)
      else (case identity_at channel nativeID d of
              None \<Rightarrow> (Untrusted, None)
            | Some r \<Rightarrow>
                (case Parse_level (id_trust r) of
                   Inl _ \<Rightarrow> (Untrusted, Some (ErrInvalid ''unknown level''))
                 | Inr lvl \<Rightarrow>
                     if lvl = Untrusted
                        \<or> (lvl = Owner \<and> (id_owner_id r = None \<or> id_owner_id r = Some []))
                        \<or> (lvl = Known \<and> id_owner_id r \<noteq> None)
                     then (Untrusted, Some (ErrInvalid ''row violates identities invariants''))
                     else (lvl, None))))"

definition ResolveStamped :: "bool \<Rightarrow> string \<Rightarrow> string \<Rightarrow> string \<Rightarrow> db \<Rightarrow> Stamped \<times> store_error option" where
  "ResolveStamped query_fails channel nativeID auth d =
     (case ResolveTrust query_fails channel nativeID d of
        (lvl, Some e) \<Rightarrow> (\<lparr>st_Trust = Untrusted, st_ReadOnly = True, st_MayApprove = False\<rparr>, Some e)
      | (lvl, None) \<Rightarrow> (Stamp auth lvl, None))"

definition identity_row_of :: "Identity \<Rightarrow> identity_row" where
  "identity_row_of i =
     \<lparr>id_channel = I_Channel i, id_native_id = I_NativeID i, id_trust = I_Trust i,
      id_owner_id = nullif_empty (I_OwnerID i), id_label = nullif_empty (I_Label i)\<rparr>"

text \<open>The primary key, and the inserts of the seeding transaction after its DELETE.\<close>

definition identity_key :: "identity_row \<Rightarrow> string \<times> string" where
  "identity_key r = (id_channel r, id_native_id r)"

fun seed_loop :: "Identity list \<Rightarrow> identity_row list \<Rightarrow> identity_row list res" where
  "seed_loop [] t = Inr t"
| "seed_loop (i # is) t =
     (let row = identity_row_of i in
      if \<not> identity_check row then Inl (ErrConstraint ''identities'')
      else if sql_exists (\<lambda>r. identity_key r = identity_key row) t then
        Inl (ErrConstraint ''identities primary key'')
      else seed_loop is (t @ [row]))"

definition SeedIdentities :: "Identity list \<Rightarrow> db \<Rightarrow> db res" where
  "SeedIdentities is d =
     (case seed_loop is [] of Inl e \<Rightarrow> Inl e | Inr t \<Rightarrow> Inr (d\<lparr>identities := t\<rparr>))"

section \<open>Turns\<close>

text \<open>A float64 is not a number, an infinity or a finite value, which is a rational.\<close>

datatype float64 = NaN | Inf bool | Fin rat

record Turn =
  T_SessionID :: string
  T_TS :: int
  T_Kind :: string
  T_Model :: string
  T_InputTokens :: int
  T_OutputTokens :: int
  T_CostUSD :: float64
  T_ToolCalls :: int
  T_DurationMS :: int
  T_Outcome :: string
  T_UsageKnown :: bool

definition turnKinds :: "string list" where
  "turnKinds = [''message'', ''heartbeat'', ''webhook'', ''cron'', ''approval'', ''task'']"

definition turnOutcomes :: "string list" where
  "turnOutcomes = [''ok'', ''error'', ''denied'', ''timeout'']"

definition Turn_validate :: "Turn \<Rightarrow> string option" where
  "Turn_validate t =
     (if T_SessionID t = [] then Some ''empty session_id''
      else if T_TS t \<le> 0 then Some ''ts is not positive''
      else if T_Kind t \<noteq> [] \<and> T_Kind t \<notin> set turnKinds then Some ''kind is not an event kind''
      else if T_Outcome t \<notin> set turnOutcomes then Some ''outcome is outside the closed enum''
      else if T_InputTokens t < 0 \<or> T_OutputTokens t < 0 then Some ''tokens negative''
      else (case T_CostUSD t of
              NaN \<Rightarrow> Some ''cost_usd is not finite''
            | Inf _ \<Rightarrow> Some ''cost_usd is not finite''
            | Fin c \<Rightarrow>
                if c < 0 then Some ''cost_usd negative''
                else if T_ToolCalls t < 0 then Some ''tool_calls negative''
                else if T_DurationMS t < 0 then Some ''duration_ms negative''
                else None))"

definition new_turn_row :: "Turn \<Rightarrow> db \<Rightarrow> turn_row" where
  "new_turn_row t d =
     \<lparr>tu_id = next_rowid tu_id (turns d), tu_session_id = T_SessionID t, tu_ts = T_TS t,
      tu_kind = nullif_empty (T_Kind t), tu_model = nullif_empty (T_Model t),
      tu_input_tokens = (if T_UsageKnown t then Some (T_InputTokens t) else None),
      tu_output_tokens = (if T_UsageKnown t then Some (T_OutputTokens t) else None),
      tu_cost_usd = (case T_CostUSD t of Fin c \<Rightarrow> if T_UsageKnown t then Some c else None | _ \<Rightarrow> None),
      tu_tool_calls = T_ToolCalls t, tu_duration_ms = T_DurationMS t, tu_outcome = T_Outcome t\<rparr>"

definition InsertTurn :: "Turn \<Rightarrow> db \<Rightarrow> (int \<times> db) res" where
  "InsertTurn t d =
     (case Turn_validate t of
        Some m \<Rightarrow> Inl (ErrInvalid m)
      | None \<Rightarrow>
          if \<not> sql_exists (\<lambda>s. se_session_id s = T_SessionID t) (sessions d) then
            Inl (ErrConstraint ''turns.session_id'')
          else Inr (tu_id (new_turn_row t d), d\<lparr>turns := turns d @ [new_turn_row t d]\<rparr>))"

record SpendSummary =
  SS_KnownUSD :: rat
  SS_Turns :: nat
  SS_UnknownTurns :: nat

text \<open>\<open>fsum\<close> is SQLite's SUM over REAL values, which adds in floating point.\<close>

definition DailySpend :: "(rat list \<Rightarrow> rat) \<Rightarrow> int \<Rightarrow> int \<Rightarrow> db \<Rightarrow> SpendSummary res" where
  "DailySpend fsum since until d =
     (if since \<ge> until then Inl (ErrInvalid ''window is empty'')
      else
        let rows = filter (\<lambda>t. since \<le> tu_ts t \<and> tu_ts t < until) (turns d);
            costs = map (the \<circ> tu_cost_usd) (filter (\<lambda>t. tu_cost_usd t \<noteq> None) rows)
        in Inr \<lparr>SS_KnownUSD = (if costs = [] then 0 else fsum costs), SS_Turns = length rows,
                SS_UnknownTurns = length (filter (\<lambda>t. tu_cost_usd t = None) rows)\<rparr>)"

section \<open>Lemmas\<close>

lemma seed_loop_Inr:
  "seed_loop is t = Inr t' \<Longrightarrow> t' = t @ map identity_row_of is \<and> (\<forall>i \<in> set is. identity_check (identity_row_of i)) \<and>
     (distinct (map identity_key t) \<longrightarrow> distinct (map identity_key t'))"
proof (induction "is" arbitrary: t)
  case (Cons i "is")
  from Cons.prems have c: "identity_check (identity_row_of i)"
    "identity_key (identity_row_of i) \<notin> identity_key ` set t"
    "seed_loop is (t @ [identity_row_of i]) = Inr t'"
    by (simp_all add: Let_def sql_exists_key split: if_splits)
  from c(2) have "distinct (map identity_key t) \<longrightarrow> distinct (map identity_key (t @ [identity_row_of i]))" by simp
  with Cons.IH [OF c(3)] have "distinct (map identity_key t) \<longrightarrow> distinct (map identity_key t')" by blast
  moreover have "t' = t @ map identity_row_of (i # is)" using Cons.IH [OF c(3)] by simp
  moreover have "\<forall>j \<in> set (i # is). identity_check (identity_row_of j)" using Cons.IH [OF c(3)] c(1) by simp
  ultimately show ?case by blast
qed simp

lemma seed_loop_ok:
  "(\<forall>i \<in> set is. identity_check (identity_row_of i)) \<Longrightarrow>
   distinct (map identity_key (t @ map identity_row_of is)) \<Longrightarrow>
   seed_loop is t = Inr (t @ map identity_row_of is)"
proof (induction "is" arbitrary: t)
  case (Cons i "is")
  have "identity_key (identity_row_of i) \<notin> identity_key ` set t"
    using Cons.prems(2) by auto
  with Cons show ?case by (simp add: Let_def sql_exists_key)
qed simp

lemma ResolveTrust_Owner:
  assumes "fst (ResolveTrust qf channel nativeID d) = l" and "l \<noteq> Untrusted"
  shows "snd (ResolveTrust qf channel nativeID d) = None"
    "\<exists>r \<in> set (identities d). id_channel r = channel \<and> id_native_id r = nativeID \<and> id_trust r = l \<and> identity_check r"
proof -
  from assms obtain r where qf: "\<not> qf" and r: "identity_at channel nativeID d = Some r" and p: "Parse_level (id_trust r) = Inr l"
    and ok: "snd (ResolveTrust qf channel nativeID d) = None" "\<not> (l = Owner \<and> (id_owner_id r = None \<or> id_owner_id r = Some []))"
      "\<not> (l = Known \<and> id_owner_id r \<noteq> None)"
    by (auto simp: ResolveTrust_def split: if_splits option.splits sum.splits)
  show "snd (ResolveTrust qf channel nativeID d) = None" by (rule ok(1))
  from r have "r \<in> set (identities d)" "id_channel r = channel" "id_native_id r = nativeID"
    by (auto simp: identity_at_def dest: find_eq_Some)
  moreover from p have "id_trust r = l" "rank l \<noteq> 0" by (auto simp: Parse_level_def split: if_splits)
  moreover have "identity_check r"
    using calculation(4,5) ok(2,3) assms(2) by (auto simp: identity_check_def rank_def level_defs split: if_splits)
  ultimately show "\<exists>r \<in> set (identities d). id_channel r = channel \<and> id_native_id r = nativeID \<and> id_trust r = l \<and> identity_check r"
    by blast
qed

lemma InsertTurn_wf: "InsertTurn t d = Inr (i, d') \<Longrightarrow> wf_db d \<Longrightarrow> wf_db d'"
  by (auto simp: InsertTurn_def wf_untracked split: option.splits if_splits)

lemma InsertTurn_evolves: "InsertTurn t d = Inr (i, d') \<Longrightarrow> db_evolves d d'"
  by (auto simp: InsertTurn_def split: option.splits if_splits)

lemma Seed_wf: "SeedIdentities is d = Inr d' \<Longrightarrow> wf_db d \<Longrightarrow> wf_db d'"
  by (auto simp: SeedIdentities_def wf_untracked split: sum.splits)

lemma Seed_evolves: "SeedIdentities is d = Inr d' \<Longrightarrow> db_evolves d d'"
  by (auto simp: SeedIdentities_def split: sum.splits)

section \<open>Properties\<close>

text \<open>
  Stamping never exceeds the enrolment nor the channel.  Whatever the identities table holds,
  rows drifted past the schema included, a stamp of owner trust requires a strong channel, no error
  and a row of that sender enrolled as owner with a non-empty principal; a stamp of known requires an
  enrolment on a strong or weak channel; an error leaves the bottom stamp; and only a strong channel
  may approve or write.
\<close>

lemma ResolveStamped_never_exceeds:
  assumes "ResolveStamped qf channel nativeID auth d = (st, err)"
  shows "(st_Trust st = Owner \<longrightarrow> auth = ''strong'' \<and> err = None \<and>
      (\<exists>r \<in> set (identities d). id_channel r = channel \<and> id_native_id r = nativeID \<and>
         id_trust r = ''owner'' \<and> id_owner_id r \<noteq> None \<and> id_owner_id r \<noteq> Some [])) \<and>
    (st_Trust st = Known \<longrightarrow> auth \<in> {''strong'', ''weak''} \<and> err = None \<and>
      (\<exists>r \<in> set (identities d). id_channel r = channel \<and> id_native_id r = nativeID \<and> identity_check r)) \<and>
    (st_Trust st \<in> {Untrusted, Known, Owner}) \<and>
    (err \<noteq> None \<longrightarrow> st = \<lparr>st_Trust = Untrusted, st_ReadOnly = True, st_MayApprove = False\<rparr>) \<and>
    (st_MayApprove st \<or> \<not> st_ReadOnly st \<longrightarrow> auth = ''strong'')"
proof -
  obtain lvl e where r: "ResolveTrust qf channel nativeID d = (lvl, e)" by fastforce
  show ?thesis
  proof (cases e)
    case (Some x)
    with assms r have "st = \<lparr>st_Trust = Untrusted, st_ReadOnly = True, st_MayApprove = False\<rparr>" "err = Some x"
      by (simp_all add: ResolveStamped_def)
    then show ?thesis by simp
  next
    case None
    with assms r have st: "st = Stamp auth lvl" "err = None" by (simp_all add: ResolveStamped_def)
    have row: "\<exists>r \<in> set (identities d). id_channel r = channel \<and> id_native_id r = nativeID \<and> id_trust r = lvl \<and> identity_check r"
      if "lvl \<noteq> Untrusted" using ResolveTrust_Owner(2) [of qf channel nativeID d lvl] r that by simp
    have lvl: "lvl \<in> {Untrusted, Known, Owner}"
      using r None by (auto simp: ResolveTrust_def Parse_level_def rank_def split: if_splits option.splits sum.splits)
    have trust: "st_Trust st = (if auth = ''strong'' then lvl else if auth = ''weak'' then (if lvl = Untrusted then Untrusted else Known) else Untrusted)"
      using lvl by (auto simp: st(1) Stamp_def Min_level_def)
    have bits: "st_MayApprove st \<or> \<not> st_ReadOnly st \<Longrightarrow> auth = ''strong''"
      by (auto simp: st(1) Stamp_def split: if_splits)
    have owner: "\<exists>r \<in> set (identities d). id_channel r = channel \<and> id_native_id r = nativeID \<and>
         id_trust r = ''owner'' \<and> id_owner_id r \<noteq> None \<and> id_owner_id r \<noteq> Some []" if "lvl = Owner"
      using row that by (auto simp: identity_check_def level_defs)
    have known: "\<exists>r \<in> set (identities d). id_channel r = channel \<and> id_native_id r = nativeID \<and> identity_check r"
      if "lvl \<noteq> Untrusted" using row that by blast
    show ?thesis
      using trust lvl st(2) bits owner known by (auto split: if_splits)
  qed
qed

definition ex_identities :: "Identity list" where
  "ex_identities =
     [\<lparr>I_Channel = ''discord'', I_NativeID = ''7'', I_Trust = ''owner'', I_OwnerID = ''brian'', I_Label = []\<rparr>,
      \<lparr>I_Channel = ''sms'', I_NativeID = ''9'', I_Trust = ''known'', I_OwnerID = [], I_Label = ''kim''\<rparr>]"

definition ex_seeded_db :: db where
  "ex_seeded_db = empty_db\<lparr>identities := map identity_row_of ex_identities\<rparr>"

lemma ex_seeded_stamp:
  "ResolveStamped False ''discord'' ''7'' ''strong'' ex_seeded_db =
     (\<lparr>st_Trust = Owner, st_ReadOnly = False, st_MayApprove = True\<rparr>, None)"
  by (simp add: ResolveStamped_def ResolveTrust_def identity_at_def ex_seeded_db_def ex_identities_def
      identity_row_of_def Parse_level_def rank_def level_defs Stamp_def Min_level_def Trust.normalize_def)

lemma ResolveStamped_never_exceeds_example:
  "\<exists>r \<in> set (identities ex_seeded_db). id_channel r = ''discord'' \<and> id_native_id r = ''7'' \<and> id_trust r = ''owner''"
  using ResolveStamped_never_exceeds [OF ex_seeded_stamp] by auto

text \<open>
  Seeding is a full sync.  It succeeds exactly when every row has an allowed shape and no sender
  is listed twice; afterwards the table holds the listed rows and no others, so a sender dropped from
  the list resolves to untrusted without an error, and every other table is unchanged.
\<close>

lemma SeedIdentities_full_sync:
  "(case SeedIdentities is d of
      Inl _ \<Rightarrow> \<not> ((\<forall>i \<in> set is. identity_check (identity_row_of i)) \<and>
                 distinct (map (\<lambda>i. (I_Channel i, I_NativeID i)) is))
    | Inr d' \<Rightarrow> d' = d\<lparr>identities := map identity_row_of is\<rparr> \<and>
        (\<forall>i \<in> set is. identity_check (identity_row_of i)) \<and> distinct (map (\<lambda>i. (I_Channel i, I_NativeID i)) is) \<and>
        (\<forall>channel nativeID. (channel, nativeID) \<notin> (\<lambda>i. (I_Channel i, I_NativeID i)) ` set is \<longrightarrow>
           ResolveTrust False channel nativeID d' = (Untrusted, None)))"
proof -
  have key: "identity_key (identity_row_of i) = (I_Channel i, I_NativeID i)" for i
    by (simp add: identity_key_def identity_row_of_def)
  then have keys: "map identity_key (map identity_row_of is) = map (\<lambda>i. (I_Channel i, I_NativeID i)) is" by simp
  show ?thesis
  proof (cases "seed_loop is []")
    case (Inl e)
    then have "\<not> ((\<forall>i \<in> set is. identity_check (identity_row_of i)) \<and> distinct (map identity_key (map identity_row_of is)))"
      using seed_loop_ok [of "is" "[]"] by auto
    with Inl show ?thesis unfolding keys by (simp add: SeedIdentities_def)
  next
    case (Inr t)
    from seed_loop_Inr [OF Inr] have t: "t = map identity_row_of is" "\<forall>i \<in> set is. identity_check (identity_row_of i)"
      "distinct (map identity_key (map identity_row_of is))" by auto
    have miss: "ResolveTrust False channel nativeID (d\<lparr>identities := map identity_row_of is\<rparr>) = (Untrusted, None)"
      if "(channel, nativeID) \<notin> (\<lambda>i. (I_Channel i, I_NativeID i)) ` set is" for channel nativeID
    proof -
      have "find (\<lambda>r. id_channel r = channel \<and> id_native_id r = nativeID) (map identity_row_of is) = None"
        using that by (auto simp: find_eq_None identity_row_of_def)
      then show ?thesis by (simp add: ResolveTrust_def identity_at_def)
    qed
    from Inr t miss show ?thesis unfolding keys by (simp add: SeedIdentities_def)
  qed
qed

lemma SeedIdentities_full_sync_example:
  "\<exists>d'. SeedIdentities ex_identities empty_db = Inr d' \<and> ResolveTrust False ''slack'' ''u1'' d' = (Untrusted, None)"
proof -
  have ok: "SeedIdentities ex_identities empty_db = Inr ex_seeded_db"
    by (simp add: SeedIdentities_def ex_identities_def identity_row_of_def identity_check_def identity_key_def
        sql_exists_def ex_seeded_db_def Let_def)
  from SeedIdentities_full_sync [of ex_identities empty_db] show ?thesis
    unfolding ok by (auto simp: ex_identities_def)
qed

text \<open>
  Unknown spend is never read as free.  Recording a turn whose usage never arrived, inside the
  window, raises the count of turns and the count of unknown turns by one and leaves the known sum as
  it was; a valid turn is always recorded when its session exists.
\<close>

lemma unknown_turn_counted:
  assumes "Turn_validate t = None" and "\<not> T_UsageKnown t" and "since \<le> T_TS t" and "T_TS t < until"
    and "\<exists>s \<in> set (sessions d). se_session_id s = T_SessionID t"
  shows "\<exists>i d' s s'. InsertTurn t d = Inr (i, d') \<and> DailySpend fsum since until d = Inr s \<and>
    DailySpend fsum since until d' = Inr s' \<and> SS_Turns s' = SS_Turns s + 1 \<and>
    SS_UnknownTurns s' = SS_UnknownTurns s + 1 \<and> SS_KnownUSD s' = SS_KnownUSD s"
proof -
  have row: "tu_cost_usd (new_turn_row t d) = None" "tu_ts (new_turn_row t d) = T_TS t"
    using assms(2) by (simp_all add: new_turn_row_def split: float64.splits)
  have "InsertTurn t d = Inr (tu_id (new_turn_row t d), d\<lparr>turns := turns d @ [new_turn_row t d]\<rparr>)"
    using assms(1,5) by (simp add: InsertTurn_def sql_exists_iff)
  then show ?thesis using assms(3,4) row by (simp add: DailySpend_def Let_def)
qed

definition ex_turn :: Turn where
  "ex_turn = \<lparr>T_SessionID = ''s1'', T_TS = 50, T_Kind = ''message'', T_Model = [], T_InputTokens = 0,
     T_OutputTokens = 0, T_CostUSD = Fin 0, T_ToolCalls = 2, T_DurationMS = 9, T_Outcome = ''timeout'',
     T_UsageKnown = False\<rparr>"

lemma unknown_turn_counted_example:
  "\<exists>i d' s s'. InsertTurn ex_turn ex_turn_db = Inr (i, d') \<and> DailySpend sum_list 0 100 ex_turn_db = Inr s \<and>
    DailySpend sum_list 0 100 d' = Inr s' \<and> SS_Turns s' = SS_Turns s + 1 \<and>
    SS_UnknownTurns s' = SS_UnknownTurns s + 1 \<and> SS_KnownUSD s' = SS_KnownUSD s"
  by (rule unknown_turn_counted)
    (simp_all add: ex_turn_def Turn_validate_def turnKinds_def turnOutcomes_def ex_defs empty_db_def)

end
