(* ===== verification/Store_Dead.thy ===== *)
theory Store_Dead
  imports Store_Events
begin

text \<open>
  Dead letters (\<open>src/internal/store/dead_letters.go\<close>): the terminal landing of an event, the
  owner's acknowledgement, the heartbeat's checklist and the two human resolutions.  Each function
  runs as one transaction, so the model returns either an error or the database of the commit.
\<close>

section \<open>Operations\<close>

definition dead_reasons :: "string list" where
  "dead_reasons = [''retries-exhausted'', ''malformed'', ''unroutable'', ''surface-failed'']"

text \<open>\<open>INSERT \<dots> ON CONFLICT(event_id) DO UPDATE\<close>.\<close>

definition upsert_dead :: "int \<Rightarrow> string \<Rightarrow> int \<Rightarrow> dead_row list \<Rightarrow> dead_row list" where
  "upsert_dead i reason now t =
     (if sql_exists (\<lambda>x. dl_event_id x = i) t then
        sql_update (\<lambda>x. dl_event_id x = i)
          (\<lambda>x. x\<lparr>dl_reason := reason, dl_entered := now, dl_acked := None, dl_resolution := None,
              dl_entries := dl_entries x + 1\<rparr>) t
      else t @ [\<lparr>dl_event_id = i, dl_reason = reason, dl_entered = now, dl_acked = None,
                 dl_resolution = None, dl_entries = 1\<rparr>])"

definition DeadLetterEvent :: "int \<Rightarrow> string \<Rightarrow> int \<Rightarrow> db \<Rightarrow> db res" where
  "DeadLetterEvent i reason now d =
     (if reason \<notin> set dead_reasons then Inl (ErrInvalid ''reason is outside the closed enum'')
      else
        let (n, d') = exec_events (\<lambda>r. ev_id r = i \<and> ev_status r \<in> {Processing, Interrupted})
          (\<lambda>r. r\<lparr>ev_status := Dead, ev_updated := Some now\<rparr>) d
        in if n = 0 then
             (case event_by_id i d of None \<Rightarrow> Inl ErrRowMissing | Some _ \<Rightarrow> Inl ErrWrongState)
           else Inr (d'\<lparr>dead_letters := upsert_dead i reason now (dead_letters d')\<rparr>))"

definition AckDeadLetter :: "int \<Rightarrow> int \<Rightarrow> db \<Rightarrow> db res" where
  "AckDeadLetter i now d =
     (let (n, d') = exec_dead_letters
        (\<lambda>x. dl_event_id x = i \<and> dl_acked x = None \<and> dl_resolution x = None)
        (\<lambda>x. x\<lparr>dl_acked := Some now\<rparr>) d
      in if n = 0 then Inl ErrResolved else Inr d')"

record DeadLetter =
  DL_EventID :: int
  DL_DedupKey :: string
  DL_ThreadKey :: string
  DL_Reason :: string
  DL_Entered :: int
  DL_Entries :: int

definition scanDeadLetter :: "dead_row \<times> event_row \<Rightarrow> DeadLetter" where
  "scanDeadLetter p =
     \<lparr>DL_EventID = dl_event_id (fst p), DL_DedupKey = ev_dedup_key (snd p),
      DL_ThreadKey = ev_thread_key (snd p), DL_Reason = dl_reason (fst p),
      DL_Entered = dl_entered (fst p), DL_Entries = dl_entries (fst p)\<rparr>"

text \<open>\<open>ORDER BY entered, event_id\<close>: a stable sort by the minor key, then by the major one.\<close>

definition UnackedDeadLetters :: "db \<Rightarrow> DeadLetter list" where
  "UnackedDeadLetters d =
     map scanDeadLetter (sort_key (\<lambda>p. dl_entered (fst p)) (sql_select
       (\<lambda>p. dl_acked (fst p) = None \<and> dl_resolution (fst p) = None) (\<lambda>p. dl_event_id (fst p))
       (dead_join d)))"

definition ResolveDeadLetterRequeue :: "int \<Rightarrow> int \<Rightarrow> db \<Rightarrow> (QueuedEvent \<times> db) res" where
  "ResolveDeadLetterRequeue i now d =
     (let (n, d1) = exec_dead_letters (\<lambda>x. dl_event_id x = i \<and> dl_resolution x = None)
        (\<lambda>x. x\<lparr>dl_resolution := Some Requeued\<rparr>) d
      in if n = 0 then Inl ErrResolved
         else
           let (m, d2) = exec_events (\<lambda>r. ev_id r = i \<and> ev_status r = Dead)
             (\<lambda>r. r\<lparr>ev_status := Received, ev_updated := Some now\<rparr>) d1
           in if m = 0 then Inl ErrDisagree
              else (case event_by_id i d2 of
                      None \<Rightarrow> Inl ErrRowMissing
                    | Some r \<Rightarrow> Inr (scanQueuedEvent r, d2)))"

definition ResolveDeadLetterDiscard :: "int \<Rightarrow> db \<Rightarrow> db res" where
  "ResolveDeadLetterDiscard i d =
     (let (n, d') = exec_dead_letters (\<lambda>x. dl_event_id x = i \<and> dl_resolution x = None)
        (\<lambda>x. x\<lparr>dl_resolution := Some Discarded\<rparr>) d
      in if n = 0 then Inl ErrResolved else Inr d')"

section \<open>Preservation\<close>

lemma wf_dead_letters: "wf_db d \<Longrightarrow> deaths_agree (d\<lparr>dead_letters := t\<rparr>) \<Longrightarrow> wf_db (d\<lparr>dead_letters := t\<rparr>)"
  by (simp add: wf_db_def refs_wf_def sealed_def)

lemma wf_update_events_dead:
  assumes "wf_db d"
    and f: "\<And>r. r \<in> set (events d) \<Longrightarrow> P r \<Longrightarrow> event_ok r (f r) \<and> event_inv (f r)"
    and seal: "\<And>r. r \<in> set (events d) \<Longrightarrow> P r \<Longrightarrow> ev_status (f r) \<noteq> Replied"
    and "deaths_agree (d\<lparr>events := sql_update P f (events d), dead_letters := t\<rparr>)"
  shows "wf_db (d\<lparr>events := sql_update P f (events d), dead_letters := t\<rparr>)"
proof -
  have "sealed (d\<lparr>events := sql_update P f (events d)\<rparr>)"
    using wf_dbD(5) [OF assms(1)] seal unfolding sealed_def by (auto elim!: in_sql_update)
  moreover have "refs_wf (d\<lparr>events := sql_update P f (events d)\<rparr>)"
    using wf_dbD(4) [OF assms(1)] f by (simp add: refs_wf_update_events)
  ultimately show ?thesis
    using wf_dbD [OF assms(1)] f assms(4)
    by (simp add: wf_db_def events_wf_update refs_wf_def sealed_def)
qed

lemma distinct_upsert_dead:
  "distinct (map dl_event_id t) \<Longrightarrow> distinct (map dl_event_id (upsert_dead i reason now t))"
  by (auto simp: upsert_dead_def sql_exists_iff map_sql_update)

lemma upsert_dead_cases:
  assumes "x \<in> set (upsert_dead i reason now t)"
  obtains (new) "dl_event_id x = i" "dl_resolution x = None" "dl_acked x = None" "dl_reason x = reason"
      "dl_entries x = 1 \<or> (\<exists>y \<in> set t. dl_event_id y = i \<and> dl_entries x = dl_entries y + 1)"
    | (old) "x \<in> set t" "dl_event_id x \<noteq> i"
  using assms by (auto simp: upsert_dead_def sql_exists_iff set_sql_update split: if_splits) blast

lemma upsert_dead_old: "x \<in> set t \<Longrightarrow> dl_event_id x \<noteq> i \<Longrightarrow> x \<in> set (upsert_dead i reason now t)"
  by (auto simp: upsert_dead_def intro: in_sql_updateI_kept)

lemma upsert_dead_new:
  "\<exists>x \<in> set (upsert_dead i reason now t). dl_event_id x = i \<and> dl_resolution x = None"
  by (auto simp: upsert_dead_def sql_exists_iff bex_sql_update)

lemma DeadLetter_InrE:
  assumes "DeadLetterEvent i reason now d = Inr d'"
  obtains e where "e \<in> set (events d)" "ev_id e = i" "ev_status e \<in> {Processing, Interrupted}"
    "reason \<in> set dead_reasons"
    "d' = d\<lparr>events := sql_update (\<lambda>r. ev_id r = i \<and> ev_status r \<in> {Processing, Interrupted})
        (\<lambda>r. r\<lparr>ev_status := Dead, ev_updated := Some now\<rparr>) (events d),
        dead_letters := upsert_dead i reason now (dead_letters d)\<rparr>"
  using assms unfolding DeadLetterEvent_def
  by (auto simp: exec_defs sql_simps split: if_splits option.splits)

lemma DeadLetter_wf: assumes "DeadLetterEvent i reason now d = Inr d'" and wf: "wf_db d" shows "wf_db d'"
proof -
  let ?P = "\<lambda>r. ev_id r = i \<and> ev_status r \<in> {Processing, Interrupted}"
  let ?f = "\<lambda>r. r\<lparr>ev_status := Dead, ev_updated := Some now\<rparr>"
  let ?t = "upsert_dead i reason now (dead_letters d)"
  from assms(1) obtain e where e: "e \<in> set (events d)" "ev_id e = i" "?P e"
    and d': "d' = d\<lparr>events := sql_update ?P ?f (events d), dead_letters := ?t\<rparr>"
    by (rule DeadLetter_InrE) simp
  have ag: "deaths_agree d" by (rule wf_dbD(6) [OF wf])
  have only: "q = e" if "q \<in> set (events d)" "ev_id q = i" for q
    using wf_event_unique [OF wf that(1) e(1)] that(2) e(2) by simp
  have dead: "?f e \<in> set (sql_update ?P ?f (events d))"
    using in_sql_updateI_changed [of e "events d" ?P ?f] e by simp
  have keep: "q \<in> set (sql_update ?P ?f (events d))" if "q \<in> set (events d)" "ev_id q \<noteq> i" for q
    using that by (intro in_sql_updateI_kept) auto
  have part2: "1 \<le> dl_entries x \<and> (\<exists>q \<in> set (sql_update ?P ?f (events d)). ev_id q = dl_event_id x \<and>
      (dl_resolution x \<noteq> Some Requeued \<longrightarrow> ev_status q = Dead))" if x: "x \<in> set ?t" for x
    using x
  proof (cases rule: upsert_dead_cases)
    case new
    then have "1 \<le> dl_entries x" using ag by (auto simp: deaths_agree_def)
    moreover have "ev_id (?f e) = dl_event_id x \<and> ev_status (?f e) = Dead" using new e by simp
    ultimately show ?thesis using dead by blast
  next
    case old
    then obtain q where "q \<in> set (events d)" "ev_id q = dl_event_id x" "1 \<le> dl_entries x"
      "dl_resolution x \<noteq> Some Requeued \<longrightarrow> ev_status q = Dead"
      using ag by (auto simp: deaths_agree_def)
    with old(2) keep show ?thesis by auto
  qed
  have part3: "\<exists>x \<in> set ?t. dl_event_id x = ev_id q \<and> dl_resolution x \<noteq> Some Requeued"
    if q: "q \<in> set (sql_update ?P ?f (events d))" "ev_status q = Dead" for q
  proof (cases "ev_id q = i")
    case True
    with upsert_dead_new [of i reason now "dead_letters d"] show ?thesis by auto
  next
    case False
    with q have "q \<in> set (events d)" by (auto elim!: in_sql_update)
    with q(2) ag obtain x where "x \<in> set (dead_letters d)" "dl_event_id x = ev_id q"
      "dl_resolution x \<noteq> Some Requeued" by (auto simp: deaths_agree_def)
    with False upsert_dead_old [of x "dead_letters d" i] show ?thesis by auto
  qed
  have "deaths_agree d'"
    unfolding deaths_agree_def d'
    using ag part2 part3 distinct_upsert_dead [of "dead_letters d"] by (simp add: deaths_agree_def)
  then show ?thesis
    unfolding d' by (intro wf_update_events_dead [OF wf])
      (auto simp: event_ok_iff event_inv_def event_check_def dest: wf_event_inv [OF wf])
qed

lemma DeadLetter_evolves: "DeadLetterEvent i reason now d = Inr d' \<Longrightarrow> db_evolves d d'"
  by (elim DeadLetter_InrE) (auto simp: db_evolves_def intro!: el.evolves_update simp: event_ok_iff)

text \<open>An update of a dead letter's acknowledgement or resolution that never records a requeue.\<close>

lemma deaths_agree_update:
  assumes "deaths_agree d"
    and f: "\<And>x. dl_event_id (f x) = dl_event_id x \<and> dl_entries (f x) = dl_entries x"
    and res: "\<And>x. P x \<Longrightarrow> dl_resolution x \<noteq> Some Requeued \<and> dl_resolution (f x) \<noteq> Some Requeued"
  shows "deaths_agree (d\<lparr>dead_letters := sql_update P f (dead_letters d)\<rparr>)"
proof -
  have "map dl_event_id (sql_update P f (dead_letters d)) = map dl_event_id (dead_letters d)"
    using f by (intro map_sql_update) simp
  then show ?thesis
    using assms unfolding deaths_agree_def by (simp add: quant_sql_update) metis
qed

lemma AckDead_InrE:
  assumes "AckDeadLetter i now d = Inr d'"
  obtains x where "x \<in> set (dead_letters d)" "dl_event_id x = i" "dl_acked x = None" "dl_resolution x = None"
    "d' = d\<lparr>dead_letters := sql_update
        (\<lambda>x. dl_event_id x = i \<and> dl_acked x = None \<and> dl_resolution x = None)
        (\<lambda>x. x\<lparr>dl_acked := Some now\<rparr>) (dead_letters d)\<rparr>"
  using assms unfolding AckDeadLetter_def by (auto simp: exec_defs sql_simps split: if_splits)

lemma AckDead_wf: "AckDeadLetter i now d = Inr d' \<Longrightarrow> wf_db d \<Longrightarrow> wf_db d'"
  by (elim AckDead_InrE) (auto intro!: wf_dead_letters deaths_agree_update dest: wf_dbD(6))

lemma Discard_InrE:
  assumes "ResolveDeadLetterDiscard i d = Inr d'"
  obtains x where "x \<in> set (dead_letters d)" "dl_event_id x = i" "dl_resolution x = None"
    "d' = d\<lparr>dead_letters := sql_update (\<lambda>x. dl_event_id x = i \<and> dl_resolution x = None)
        (\<lambda>x. x\<lparr>dl_resolution := Some Discarded\<rparr>) (dead_letters d)\<rparr>"
  using assms unfolding ResolveDeadLetterDiscard_def by (auto simp: exec_defs sql_simps split: if_splits)

lemma Discard_wf: "ResolveDeadLetterDiscard i d = Inr d' \<Longrightarrow> wf_db d \<Longrightarrow> wf_db d'"
  by (elim Discard_InrE) (auto intro!: wf_dead_letters deaths_agree_update dest: wf_dbD(6))

lemma RequeueDead_InrE:
  assumes "ResolveDeadLetterRequeue i now d = Inr (q, d')"
  obtains x e where "x \<in> set (dead_letters d)" "dl_event_id x = i" "dl_resolution x = None"
    "e \<in> set (events d)" "ev_id e = i" "ev_status e = Dead"
    "d' = d\<lparr>dead_letters := sql_update (\<lambda>x. dl_event_id x = i \<and> dl_resolution x = None)
          (\<lambda>x. x\<lparr>dl_resolution := Some Requeued\<rparr>) (dead_letters d),
        events := sql_update (\<lambda>r. ev_id r = i \<and> ev_status r = Dead)
          (\<lambda>r. r\<lparr>ev_status := Received, ev_updated := Some now\<rparr>) (events d)\<rparr>"
    "\<exists>r. event_by_id i d' = Some r \<and> q = scanQueuedEvent r"
  using assms unfolding ResolveDeadLetterRequeue_def
  by (auto simp: exec_defs sql_simps split: if_splits option.splits)

lemma RequeueDead_wf:
  assumes "ResolveDeadLetterRequeue i now d = Inr (q, d')" and wf: "wf_db d" shows "wf_db d'"
proof -
  let ?P = "\<lambda>r. ev_id r = i \<and> ev_status r = Dead"
  let ?f = "\<lambda>r. r\<lparr>ev_status := Received, ev_updated := Some now\<rparr>"
  let ?Q = "\<lambda>x. dl_event_id x = i \<and> dl_resolution x = None"
  let ?g = "\<lambda>x. x\<lparr>dl_resolution := Some Requeued\<rparr>"
  from assms(1) obtain x e where x: "x \<in> set (dead_letters d)" "dl_event_id x = i" "dl_resolution x = None"
    and e: "e \<in> set (events d)" "ev_id e = i" "ev_status e = Dead"
    and d': "d' = d\<lparr>events := sql_update ?P ?f (events d),
        dead_letters := sql_update ?Q ?g (dead_letters d)\<rparr>"
    by (rule RequeueDead_InrE) simp
  have ag: "deaths_agree d" by (rule wf_dbD(6) [OF wf])
  have only: "z = x" if "z \<in> set (dead_letters d)" "dl_event_id z = i" for z
    using distinct_key_inj [of dl_event_id "dead_letters d" z x] ag that x by (simp add: deaths_agree_def)
  have keys: "map dl_event_id (sql_update ?Q ?g (dead_letters d)) = map dl_event_id (dead_letters d)"
    by (rule map_sql_update) simp
  have ids: "\<exists>r \<in> set (sql_update ?P ?f (events d)). ev_id r = ev_id e'" if "e' \<in> set (events d)" for e'
    using that by (auto simp: bex_sql_update)
  have keep: "e' \<in> set (sql_update ?P ?f (events d))" if "e' \<in> set (events d)" "ev_id e' \<noteq> i" for e'
    using that by (intro in_sql_updateI_kept) auto
  have part2: "\<forall>z \<in> set (sql_update ?Q ?g (dead_letters d)). 1 \<le> dl_entries z \<and>
      (\<exists>r \<in> set (sql_update ?P ?f (events d)). ev_id r = dl_event_id z \<and>
        (dl_resolution z \<noteq> Some Requeued \<longrightarrow> ev_status r = Dead))"
    unfolding ball_sql_update
  proof
    fix z assume z: "z \<in> set (dead_letters d)"
    then obtain e' where e': "e' \<in> set (events d)" "ev_id e' = dl_event_id z" "1 \<le> dl_entries z"
      "dl_resolution z \<noteq> Some Requeued \<longrightarrow> ev_status e' = Dead"
      using ag unfolding deaths_agree_def by blast
    show "if ?Q z then 1 \<le> dl_entries (?g z) \<and>
        (\<exists>r \<in> set (sql_update ?P ?f (events d)). ev_id r = dl_event_id (?g z) \<and>
          (dl_resolution (?g z) \<noteq> Some Requeued \<longrightarrow> ev_status r = Dead))
      else 1 \<le> dl_entries z \<and> (\<exists>r \<in> set (sql_update ?P ?f (events d)). ev_id r = dl_event_id z \<and>
          (dl_resolution z \<noteq> Some Requeued \<longrightarrow> ev_status r = Dead))"
    proof (cases "dl_event_id z = i")
      case True
      with only [OF z] x(3) have "dl_resolution z = None" by simp
      with True e'(3) ids [OF e(1)] e(2) show ?thesis by simp
    next
      case False
      with e' keep [of e'] show ?thesis by auto
    qed
  qed
  have part3: "\<exists>z \<in> set (sql_update ?Q ?g (dead_letters d)). dl_event_id z = ev_id r \<and>
      dl_resolution z \<noteq> Some Requeued"
    if r: "r \<in> set (sql_update ?P ?f (events d))" "ev_status r = Dead" for r
  proof -
    have "\<forall>r \<in> set (sql_update ?P ?f (events d)). ev_status r = Dead \<longrightarrow> r \<in> set (events d) \<and> ev_id r \<noteq> i"
      unfolding ball_sql_update by auto
    with r have r': "r \<in> set (events d)" "ev_id r \<noteq> i" by blast+
    with r(2) ag obtain z where "z \<in> set (dead_letters d)" "dl_event_id z = ev_id r"
      "dl_resolution z \<noteq> Some Requeued" unfolding deaths_agree_def by blast
    with r' show ?thesis by (intro bexI [of _ z] in_sql_updateI_kept) auto
  qed
  have "deaths_agree d'"
    unfolding deaths_agree_def d' using ag part2 part3 keys by (simp add: deaths_agree_def)
  then show ?thesis
    unfolding d' by (intro wf_update_events_dead [OF wf])
      (auto simp: event_ok_iff event_inv_def event_check_def dest: wf_event_inv [OF wf])
qed

lemma RequeueDead_evolves: "ResolveDeadLetterRequeue i now d = Inr (q, d') \<Longrightarrow> db_evolves d d'"
  by (elim RequeueDead_InrE) (auto simp: db_evolves_def intro!: el.evolves_update simp: event_ok_iff)

text \<open>Whatever the resolution, a decided death has no unresolved record left.\<close>

lemma resolved_no_more:
  assumes "\<And>x. x \<in> set (dead_letters d) \<Longrightarrow> dl_event_id x = i \<Longrightarrow> dl_resolution x \<noteq> None"
  shows "ResolveDeadLetterRequeue i now d = Inl ErrResolved" "ResolveDeadLetterDiscard i d = Inl ErrResolved"
    "AckDeadLetter i now d = Inl ErrResolved"
  using assms by (auto simp: ResolveDeadLetterRequeue_def ResolveDeadLetterDiscard_def AckDeadLetter_def
      exec_defs rows_affected_0)

text \<open>On a well-formed store an unresolved record always finds its event dead: the requeue does not
  reach the branch in which the record and the event disagree.\<close>

lemma RequeueDead_ok:
  assumes wf: "wf_db d" and x: "x \<in> set (dead_letters d)" "dl_event_id x = i" "dl_resolution x = None"
  shows "\<exists>q d'. ResolveDeadLetterRequeue i now d = Inr (q, d')"
proof -
  let ?e = "sql_update (\<lambda>r. ev_id r = i \<and> ev_status r = Dead)
    (\<lambda>r. r\<lparr>ev_status := Received, ev_updated := Some now\<rparr>) (events d)"
  obtain e where e: "e \<in> set (events d)" "ev_id e = i" "ev_status e = Dead"
    using wf_dbD(6) [OF wf] x by (auto simp: deaths_agree_def)
  have "\<exists>r \<in> set ?e. ev_id r = i" using e by (auto simp: bex_sql_update)
  then have "find (\<lambda>r. ev_id r = i) ?e \<noteq> None" by (auto simp: find_eq_None)
  then show ?thesis
    using x e by (auto simp: ResolveDeadLetterRequeue_def exec_defs rows_affected_0 event_by_id_def)
qed

lemma AckDead_evolves: "AckDeadLetter i now d = Inr d' \<Longrightarrow> db_evolves d d'"
  by (elim AckDead_InrE) simp

lemma Discard_evolves: "ResolveDeadLetterDiscard i d = Inr d' \<Longrightarrow> db_evolves d d'"
  by (elim Discard_InrE) simp

section \<open>Properties\<close>

text \<open>
  C18: a human decides once per death.  On a well-formed store an unresolved dead letter is
  requeued or discarded without fail (the branch for a record and an event that disagree is not
  reached), and after either decision every further requeue, discard or acknowledgement of that
  event is refused until it dies again.
\<close>

theorem human_decides_once:
  assumes "wf_db d" and "x \<in> set (dead_letters d)" and "dl_event_id x = i" and "dl_resolution x = None"
  shows "(\<exists>q d'. ResolveDeadLetterRequeue i now d = Inr (q, d') \<and>
           Q_Status q = Received \<and> Q_ID q = i \<and>
           ResolveDeadLetterRequeue i now' d' = Inl ErrResolved \<and>
           ResolveDeadLetterDiscard i d' = Inl ErrResolved \<and> AckDeadLetter i now' d' = Inl ErrResolved) \<and>
         (\<exists>d'. ResolveDeadLetterDiscard i d = Inr d' \<and> events d' = events d \<and>
           ResolveDeadLetterRequeue i now' d' = Inl ErrResolved \<and>
           ResolveDeadLetterDiscard i d' = Inl ErrResolved \<and> AckDeadLetter i now' d' = Inl ErrResolved)"
proof
  obtain q d' where r: "ResolveDeadLetterRequeue i now d = Inr (q, d')"
    using RequeueDead_ok [OF assms] by blast
  have "\<forall>z \<in> set (dead_letters d'). dl_event_id z = i \<longrightarrow> dl_resolution z \<noteq> None"
    using r by (rule RequeueDead_InrE) (simp add: ball_sql_update)
  then have no_more: "ResolveDeadLetterRequeue i now' d' = Inl ErrResolved"
    "ResolveDeadLetterDiscard i d' = Inl ErrResolved" "AckDeadLetter i now' d' = Inl ErrResolved"
    by (blast intro: resolved_no_more)+
  from r have "Q_Status q = Received \<and> Q_ID q = i"
  proof (rule RequeueDead_InrE)
    fix e assume e: "e \<in> set (events d)" "ev_id e = i" "ev_status e = Dead"
      and d': "d' = d\<lparr>dead_letters := sql_update (\<lambda>x. dl_event_id x = i \<and> dl_resolution x = None)
          (\<lambda>x. x\<lparr>dl_resolution := Some Requeued\<rparr>) (dead_letters d),
        events := sql_update (\<lambda>r. ev_id r = i \<and> ev_status r = Dead)
          (\<lambda>r. r\<lparr>ev_status := Received, ev_updated := Some now\<rparr>) (events d)\<rparr>"
      and q: "\<exists>r. event_by_id i d' = Some r \<and> q = scanQueuedEvent r"
    have "e\<lparr>ev_status := Received, ev_updated := Some now\<rparr> \<in> set (events d')"
      using in_sql_updateI_changed [of e "events d" "\<lambda>r. ev_id r = i \<and> ev_status r = Dead"] e
      by (simp add: d')
    from event_by_id_eq [OF RequeueDead_wf [OF r assms(1)] this] q e(2)
    show ?thesis by (auto simp: scanQueuedEvent_def)
  qed
  with r no_more show "\<exists>q d'. ResolveDeadLetterRequeue i now d = Inr (q, d') \<and>
           Q_Status q = Received \<and> Q_ID q = i \<and>
           ResolveDeadLetterRequeue i now' d' = Inl ErrResolved \<and>
           ResolveDeadLetterDiscard i d' = Inl ErrResolved \<and> AckDeadLetter i now' d' = Inl ErrResolved"
    by blast
next
  let ?d = "d\<lparr>dead_letters := sql_update (\<lambda>x. dl_event_id x = i \<and> dl_resolution x = None)
        (\<lambda>x. x\<lparr>dl_resolution := Some Discarded\<rparr>) (dead_letters d)\<rparr>"
  have "ResolveDeadLetterDiscard i d = Inr ?d"
    using assms(2-) by (auto simp: ResolveDeadLetterDiscard_def exec_defs rows_affected_0)
  moreover have "\<forall>z \<in> set (dead_letters ?d). dl_event_id z = i \<longrightarrow> dl_resolution z \<noteq> None"
    by (simp add: ball_sql_update)
  then have "ResolveDeadLetterRequeue i now' ?d = Inl ErrResolved"
    "ResolveDeadLetterDiscard i ?d = Inl ErrResolved" "AckDeadLetter i now' ?d = Inl ErrResolved"
    by (blast intro: resolved_no_more)+
  ultimately show "\<exists>d'. ResolveDeadLetterDiscard i d = Inr d' \<and> events d' = events d \<and>
           ResolveDeadLetterRequeue i now' d' = Inl ErrResolved \<and>
           ResolveDeadLetterDiscard i d' = Inl ErrResolved \<and> AckDeadLetter i now' d' = Inl ErrResolved"
    by (intro exI [of _ ?d]) simp
qed

theorem human_decides_once_witness:
  "\<exists>q d'. ResolveDeadLetterRequeue 1 7 ex_dead_db = Inr (q, d') \<and> Q_Status q = Received \<and>
     ResolveDeadLetterRequeue 1 8 d' = Inl ErrResolved"
  using human_decides_once [OF wf_ex_dead_db, of "hd (dead_letters ex_dead_db)" 1 7 8]
  by (auto simp: ex_dead_db_def)

end
