(* ===== verification/Delivery.thy ===== *)
theory Delivery
  imports Store_Identities Store_Dead "HOL-Library.Sublist" "HOL-Library.Char_ord" "HOL-Library.List_Lexorder"
begin

text \<open>
  The outbound leg: \<open>src/internal/delivery/surface.go\<close> and \<open>resend.go\<close>.  What the
  world decides during a pass is one record, \<open>pass_env\<close>: which statements fail, which target
  gates cannot be acquired, which rows a live send holds, which channels have a sender, what the
  platform answers for a row, and the clock.  A pass also returns the trace of what it did.
\<close>

section \<open>Notices\<close>

text \<open>The UTF-8 bytes of the section sign and the em dash in the notice texts.\<close>

definition section_sign :: string where "section_sign = [CHR 0xC2, CHR 0xA7]"

definition em_dash :: string where "em_dash = [CHR 0xE2, CHR 0x80, CHR 0x94]"

definition dead_payload :: "dead_row \<Rightarrow> event_row \<Rightarrow> string" where
  "dead_payload x e =
     ''An event could not be processed and was dead-lettered (event '' @ ev_dedup_key e
     @ '', reason: '' @ dl_reason x @ '') '' @ em_dash @ '' the machine gave up; you decide ('' @ section_sign @ ''4.6). ''
     @ ''Run '' @ [CHR 0x27] @ ''approach dead requeue '' @ dec_int (dl_event_id x)
     @ [CHR 0x27] @ '' or '' @ [CHR 0x27] @ ''approach dead discard '' @ dec_int (dl_event_id x) @ [CHR 0x27] @ ''.''"

definition interrupted_payload :: "QueuedEvent \<Rightarrow> string" where
  "interrupted_payload ev =
     ''A turn on this thread was interrupted mid-run (event '' @ Q_DedupKey ev @ '') '' @ em_dash
     @ '' its side effects are unknown, so it was not re-run automatically. Reply with a retry request or run ''
     @ [CHR 0x60] @ ''approach retry '' @ dec_int (Q_ID ev) @ [CHR 0x60] @ '' to re-queue it ('' @ section_sign @ ''4.6).''"

definition notice_row :: "string \<Rightarrow> string \<Rightarrow> string \<Rightarrow> db \<Rightarrow> delivery_row" where
  "notice_row key target payload d =
     \<lparr>de_id = next_rowid de_id (deliveries d), de_delivery_key = key, de_event_id = None,
      de_target = target, de_payload = payload, de_status = Pending, de_attempts = 0,
      de_last_attempt = None, de_acked = None\<rparr>"

text \<open>\<open>INSERT \<dots> ON CONFLICT(delivery_key) DO NOTHING\<close> of one row without an event.\<close>

definition insert_notice :: "string \<Rightarrow> string \<Rightarrow> string \<Rightarrow> db \<Rightarrow> db" where
  "insert_notice key target payload d =
     (if sql_exists (\<lambda>r. de_delivery_key r = key) (deliveries d) then d
      else d\<lparr>deliveries := deliveries d @ [notice_row key target payload d]\<rparr>)"

definition owner_native_id :: "db \<Rightarrow> string option" where
  "owner_native_id d =
     (case sort_key id_native_id (filter (\<lambda>r. id_channel r = ''discord'' \<and> id_trust r = ''owner'') (identities d)) of
        [] \<Rightarrow> None
      | r # _ \<Rightarrow> Some (id_native_id r))"

datatype surface_call = OwnerQuery | Gate string | NoticeInsert string | ScanParks | ScanDeaths | ScanOwed
  | StampWrite int | AckWrite int

definition SurfaceDeadLetterCoordinated :: "(surface_call \<Rightarrow> bool) \<Rightarrow> QueuedEvent \<Rightarrow> db \<Rightarrow> db res" where
  "SurfaceDeadLetterCoordinated fails ev d =
     (if fails OwnerQuery then Inl ErrDriver
      else (case owner_native_id d of
              None \<Rightarrow> Inl ErrRowMissing
            | Some nativeID \<Rightarrow>
                let target = ''discord:dm:'' @ nativeID in
                if fails (Gate target) then Inl ErrDriver
                else if fails (NoticeInsert (Q_DedupKey ev)) then Inl ErrDriver
                else (case find (\<lambda>(x, e). dl_event_id x = Q_ID ev \<and> dl_resolution x = None) (dead_join d) of
                        None \<Rightarrow> Inr d
                      | Some (x, e) \<Rightarrow>
                          Inr (insert_notice (dead_key (ev_dedup_key e) (dl_entries x)) target (dead_payload x e) d))))"

definition SurfaceInterruptedCoordinated :: "(surface_call \<Rightarrow> bool) \<Rightarrow> QueuedEvent \<Rightarrow> db \<Rightarrow> db res" where
  "SurfaceInterruptedCoordinated fails ev d =
     (if fails (Gate (Q_ThreadKey ev)) then Inl ErrDriver
      else if fails (NoticeInsert (Q_DedupKey ev)) then Inl ErrDriver
      else (case find (\<lambda>e. ev_id e = Q_ID ev \<and> ev_status e = Interrupted) (events d) of
              None \<Rightarrow> Inr d
            | Some e \<Rightarrow>
                Inr (insert_notice (interrupted_key (ev_dedup_key e) (ev_parks e)) (Q_ThreadKey ev)
                       (interrupted_payload ev) d)))"

text \<open>Surfacing without a claim table: nothing waits for a gate.\<close>

definition no_gates :: "(surface_call \<Rightarrow> bool) \<Rightarrow> surface_call \<Rightarrow> bool" where
  "no_gates fails c = (case c of Gate _ \<Rightarrow> False | _ \<Rightarrow> fails c)"

definition SurfaceDeadLetter :: "(surface_call \<Rightarrow> bool) \<Rightarrow> QueuedEvent \<Rightarrow> db \<Rightarrow> db res" where
  "SurfaceDeadLetter fails ev d = SurfaceDeadLetterCoordinated (no_gates fails) ev d"

definition SurfaceInterrupted :: "(surface_call \<Rightarrow> bool) \<Rightarrow> QueuedEvent \<Rightarrow> db \<Rightarrow> db res" where
  "SurfaceInterrupted fails ev d = SurfaceInterruptedCoordinated (no_gates fails) ev d"

section \<open>The sweep\<close>

text \<open>A loop that goes on after a row's failure.\<close>

fun surface_all :: "(QueuedEvent \<Rightarrow> db \<Rightarrow> db res) \<Rightarrow> QueuedEvent list \<Rightarrow> db \<Rightarrow> db" where
  "surface_all surf [] d = d"
| "surface_all surf (ev # evs) d =
     (case surf ev d of Inl _ \<Rightarrow> surface_all surf evs d | Inr d' \<Rightarrow> surface_all surf evs d')"

definition sweepUnsurfacedParks :: "(surface_call \<Rightarrow> bool) \<Rightarrow> db \<Rightarrow> db" where
  "sweepUnsurfacedParks fails d =
     (if fails ScanParks then d
      else
        let d1 = surface_all (SurfaceInterruptedCoordinated fails) (UnsurfacedInterruptedEvents d) d in
        if fails ScanDeaths then d1
        else surface_all (SurfaceDeadLetterCoordinated fails) (UnsurfacedDeadLetters d1) d1)"

section \<open>The resend\<close>

definition channelOf :: "string \<Rightarrow> string" where
  "channelOf target = cut_before (CHR '':'') target"

record pass_env =
  pe_fails :: "surface_call \<Rightarrow> bool"
  pe_cancelled :: "int \<Rightarrow> bool"
  pe_held :: "string \<Rightarrow> bool"
  pe_senders :: "string \<Rightarrow> bool"
  pe_send :: "int \<Rightarrow> string \<Rightarrow> string \<Rightarrow> string option"
  pe_now :: int

datatype action = DoStamp int | DoSend int string string | DoAck int

fun resend_loop ::
  "pass_env \<Rightarrow> ResendableDelivery list \<Rightarrow> string list \<Rightarrow> db \<Rightarrow> db \<times> action list" where
  "resend_loop env [] stopped d = (d, [])"
| "resend_loop env (r # rows) stopped d =
     (if pe_cancelled env (RD_ID r) then (d, [])
      else if RD_Target r \<in> set stopped then resend_loop env rows stopped d
      else if pe_held env (RD_DeliveryKey r) then resend_loop env rows (RD_Target r # stopped) d
      else if \<not> pe_senders env (channelOf (RD_Target r)) then resend_loop env rows (RD_Target r # stopped) d
      else
        (case (if pe_fails env (StampWrite (RD_ID r)) then Inl ErrDriver
               else MarkDeliveryAttempt (RD_ID r) (pe_now env) d) of
           Inl _ \<Rightarrow> resend_loop env rows (RD_Target r # stopped) d
         | Inr d1 \<Rightarrow>
             (case pe_send env (RD_ID r) (RD_Target r) (RD_Payload r) of
                None \<Rightarrow>
                  (let (d', tr) = resend_loop env rows (RD_Target r # stopped) d1
                   in (d', DoStamp (RD_ID r) # DoSend (RD_ID r) (RD_Target r) (RD_Payload r) # tr))
              | Some ack \<Rightarrow>
                  (case (if pe_fails env (AckWrite (RD_ID r)) then Inl ErrDriver
                         else AckDelivery (RD_ID r) (pe_now env) d1) of
                     Inl _ \<Rightarrow>
                       (let (d', tr) = resend_loop env rows (RD_Target r # stopped) d1
                        in (d', DoStamp (RD_ID r) # DoSend (RD_ID r) (RD_Target r) (RD_Payload r) # tr))
                   | Inr d2 \<Rightarrow>
                       (let (d', tr) = resend_loop env rows stopped d2
                        in (d', DoStamp (RD_ID r) # DoSend (RD_ID r) (RD_Target r) (RD_Payload r)
                                # DoAck (RD_ID r) # tr))))))"

definition ResendUnacked :: "pass_env \<Rightarrow> db \<Rightarrow> db \<times> action list" where
  "ResendUnacked env d =
     (if pe_fails env ScanOwed then (d, []) else resend_loop env (ResendableDeliveries d) [] d)"

text \<open>One pass of the pump.\<close>

definition pump_pass :: "pass_env \<Rightarrow> db \<Rightarrow> db \<times> action list" where
  "pump_pass env d = ResendUnacked env (sweepUnsurfacedParks (pe_fails env) d)"

section \<open>Preservation\<close>

lemma insert_notice_wf: "wf_db d \<Longrightarrow> wf_db (insert_notice key target payload d)"
  by (auto simp: insert_notice_def sql_exists_key notice_row_def delivery_fresh_def intro!: wf_insert_delivery)

lemma insert_notice_evolves: "db_evolves d (insert_notice key target payload d)"
  by (simp add: insert_notice_def notice_row_def delivery_fresh_def evolves_insert_delivery)

lemma insert_notice_key:
  "de_delivery_key ` set (deliveries (insert_notice key target payload d)) = insert key (de_delivery_key ` set (deliveries d))"
  by (auto simp: insert_notice_def sql_exists_key notice_row_def)

lemma insert_notice_same [simp]:
  "events (insert_notice key target payload d) = events d"
  "dead_letters (insert_notice key target payload d) = dead_letters d"
  "identities (insert_notice key target payload d) = identities d"
  "sessions (insert_notice key target payload d) = sessions d"
  by (simp_all add: insert_notice_def)

lemma insert_notice_extends:
  "\<exists>n. deliveries (insert_notice key target payload d) = deliveries d @ n \<and>
     (\<forall>r \<in> set n. delivery_fresh r \<and> de_event_id r = None)"
proof (cases "sql_exists (\<lambda>r. de_delivery_key r = key) (deliveries d)")
  case False
  then show ?thesis
    by (intro exI [of _ "[notice_row key target payload d]"])
      (simp add: insert_notice_def notice_row_def delivery_fresh_def)
qed (simp add: insert_notice_def)

lemma surface_insert:
  "SurfaceInterruptedCoordinated fails ev d = Inr d' \<Longrightarrow> d' = d \<or> (\<exists>k t p. d' = insert_notice k t p d)"
  "SurfaceDeadLetterCoordinated fails ev d = Inr d' \<Longrightarrow> d' = d \<or> (\<exists>k t p. d' = insert_notice k t p d)"
  by (auto simp: SurfaceInterruptedCoordinated_def SurfaceDeadLetterCoordinated_def Let_def
      split: if_splits option.splits)

text \<open>What a series of surfaces may do: only add notices.\<close>

locale notice_writer =
  fixes surf :: "QueuedEvent \<Rightarrow> db \<Rightarrow> db res"
  assumes surf_insert: "surf ev d = Inr d' \<Longrightarrow> d' = d \<or> (\<exists>k t p. d' = insert_notice k t p d)"
begin

lemma surface_all_wf: "wf_db d \<Longrightarrow> wf_db (surface_all surf evs d)"
proof (induction evs arbitrary: d)
  case (Cons ev evs)
  then show ?case using surf_insert [of ev d] by (auto simp: insert_notice_wf split: sum.splits)
qed simp

lemma surface_all_same:
  "events (surface_all surf evs d) = events d \<and> dead_letters (surface_all surf evs d) = dead_letters d \<and>
   identities (surface_all surf evs d) = identities d \<and> sessions (surface_all surf evs d) = sessions d"
proof (induction evs arbitrary: d)
  case (Cons ev evs)
  show ?case
  proof (cases "surf ev d")
    case (Inr d')
    with Cons.IH [of d'] surf_insert [of ev d] show ?thesis by auto
  qed (use Cons.IH in simp)
qed simp

lemma surface_all_keys:
  "de_delivery_key ` set (deliveries d) \<subseteq> de_delivery_key ` set (deliveries (surface_all surf evs d))"
proof (induction evs arbitrary: d)
  case (Cons ev evs)
  show ?case
  proof (cases "surf ev d")
    case (Inr d')
    have "de_delivery_key ` set (deliveries d) \<subseteq> de_delivery_key ` set (deliveries d')"
      using surf_insert [OF Inr] insert_notice_key by auto
    with Cons.IH [of d'] Inr show ?thesis by auto
  qed (use Cons.IH in simp)
qed simp

lemma surface_all_extends: "\<exists>new. deliveries (surface_all surf evs d) = deliveries d @ new \<and>
    (\<forall>r \<in> set new. delivery_fresh r \<and> de_event_id r = None)"
proof (induction evs arbitrary: d)
  case (Cons ev evs)
  show ?case
  proof (cases "surf ev d")
    case (Inr d')
    have "\<exists>n. deliveries d' = deliveries d @ n \<and> (\<forall>r \<in> set n. delivery_fresh r \<and> de_event_id r = None)" (is "\<exists>n. ?N n")
    proof (cases "d' = d")
      case False
      then obtain k t p where "d' = insert_notice k t p d" using surf_insert [OF Inr] by blast
      then show ?thesis using insert_notice_extends [of k t p d] by (simp only:)
    qed simp
    then obtain n where n: "?N n" ..
    obtain m where m: "deliveries (surface_all surf evs d') = deliveries d' @ m \<and>
      (\<forall>r \<in> set m. delivery_fresh r \<and> de_event_id r = None)" using Cons.IH [of d'] ..
    show ?thesis using Inr n m by (intro exI [of _ "n @ m"]) auto
  qed (use Cons.IH in simp)
qed simp

text \<open>When no surface of the list fails, every event's key is written.\<close>

lemma surface_all_writes:
  assumes "\<And>ev d'. ev \<in> set evs \<Longrightarrow> events d' = events d \<Longrightarrow> dead_letters d' = dead_letters d \<Longrightarrow>
      identities d' = identities d \<Longrightarrow> \<exists>d''. surf ev d' = Inr d'' \<and> key ev \<in> de_delivery_key ` set (deliveries d'')"
    and "ev \<in> set evs"
  shows "key ev \<in> de_delivery_key ` set (deliveries (surface_all surf evs d))"
proof -
  have "events d' = events d \<Longrightarrow> dead_letters d' = dead_letters d \<Longrightarrow> identities d' = identities d \<Longrightarrow>
      set es \<subseteq> set evs \<Longrightarrow> ev \<in> set es \<Longrightarrow> key ev \<in> de_delivery_key ` set (deliveries (surface_all surf es d'))" for es d'
  proof (induction es arbitrary: d')
    case (Cons e es)
    obtain d'' where e: "surf e d' = Inr d''" "key e \<in> de_delivery_key ` set (deliveries d'')"
      using assms(1) [of e d'] Cons.prems by auto
    have same: "events d'' = events d" "dead_letters d'' = dead_letters d" "identities d'' = identities d"
      using surf_insert [OF e(1)] Cons.prems by auto
    show ?case
    proof (cases "ev = e")
      case True
      then show ?thesis using e surface_all_keys [of d'' es] by auto
    next
      case False
      with Cons.IH [OF same] Cons.prems e show ?thesis by auto
    qed
  qed simp
  from this [of d evs] assms(2) show ?thesis by blast
qed

end

interpretation si: notice_writer "SurfaceInterruptedCoordinated fails"
  by unfold_locales (rule surface_insert)

interpretation sd: notice_writer "SurfaceDeadLetterCoordinated fails"
  by unfold_locales (rule surface_insert)

lemma sweep_wf: "wf_db d \<Longrightarrow> wf_db (sweepUnsurfacedParks fails d)"
  by (simp add: sweepUnsurfacedParks_def Let_def si.surface_all_wf sd.surface_all_wf)

section \<open>What the sweep leaves\<close>

lemma wf_find_event:
  assumes "wf_db d" and "e \<in> set (events d)" and "P e"
  shows "find (\<lambda>x. ev_id x = ev_id e \<and> P x) (events d) = Some e"
proof (cases "find (\<lambda>x. ev_id x = ev_id e \<and> P x) (events d)")
  case None
  with assms(2,3) show ?thesis by (auto simp: find_eq_None)
next
  case (Some q)
  then have "q \<in> set (events d)" "ev_id q = ev_id e" by (auto dest: find_eq_Some)
  with wf_event_unique [OF assms(1)] assms(2) Some show ?thesis by blast
qed

lemma in_dead_join: "(x, e) \<in> set (dead_join d) \<longleftrightarrow> x \<in> set (dead_letters d) \<and> e \<in> set (events d) \<and> ev_id e = dl_event_id x"
  by (auto simp: dead_join_def)

lemma wf_find_dead:
  assumes "wf_db d" and "(x, e) \<in> set (dead_join d)" and "dl_resolution x = None"
  shows "find (\<lambda>(y, f). dl_event_id y = ev_id e \<and> dl_resolution y = None) (dead_join d) = Some (x, e)"
proof (cases "find (\<lambda>(y, f). dl_event_id y = ev_id e \<and> dl_resolution y = None) (dead_join d)")
  case None
  with assms(2,3) show ?thesis by (force simp: find_eq_None in_dead_join)
next
  case (Some p)
  obtain y f where p: "p = (y, f)" by fastforce
  from find_eq_Some [OF Some] p have y: "y \<in> set (dead_letters d)" "f \<in> set (events d)" "ev_id f = dl_event_id y"
    "dl_event_id y = ev_id e" by (auto simp: in_dead_join)
  have x: "x \<in> set (dead_letters d)" "e \<in> set (events d)" "ev_id e = dl_event_id x" using assms(2) by (auto simp: in_dead_join)
  have "f = e" using wf_event_unique [OF assms(1) y(2) x(2)] y(3,4) by simp
  moreover have "y = x"
    using distinct_key_inj [of dl_event_id "dead_letters d" y x] wf_dbD(6) [OF assms(1)] y x by (simp add: deaths_agree_def)
  ultimately show ?thesis using Some p by simp
qed

definition park_key :: "db \<Rightarrow> QueuedEvent \<Rightarrow> string" where
  "park_key d ev = (case find (\<lambda>e. ev_id e = Q_ID ev \<and> ev_status e = Interrupted) (events d) of
     None \<Rightarrow> [] | Some e \<Rightarrow> interrupted_key (ev_dedup_key e) (ev_parks e))"

definition death_key :: "db \<Rightarrow> QueuedEvent \<Rightarrow> string" where
  "death_key d ev = (case find (\<lambda>(x, e). dl_event_id x = Q_ID ev \<and> dl_resolution x = None) (dead_join d) of
     None \<Rightarrow> [] | Some (x, e) \<Rightarrow> dead_key (ev_dedup_key e) (dl_entries x))"

lemma sweep_parks_written:
  assumes wf: "wf_db d" and ok: "\<And>c. \<not> fails c" and e: "e \<in> set (events d)" "ev_status e = Interrupted"
  shows "interrupted_key (ev_dedup_key e) (ev_parks e) \<in>
    de_delivery_key ` set (deliveries (surface_all (SurfaceInterruptedCoordinated fails) (UnsurfacedInterruptedEvents d) d))"
    (is "?k \<in> de_delivery_key ` set (deliveries (surface_all _ ?evs d))")
proof (cases "?k \<in> de_delivery_key ` set (deliveries d)")
  case True
  then show ?thesis using si.surface_all_keys [of d fails ?evs] by blast
next
  case False
  have pk: "park_key d (scanQueuedEvent q) = interrupted_key (ev_dedup_key q) (ev_parks q)"
    if "q \<in> set (events d)" "ev_status q = Interrupted" for q
    using wf_find_event [of d q "\<lambda>x. ev_status x = Interrupted", OF wf that] by (simp add: park_key_def scanQueuedEvent_def)
  have mem: "scanQueuedEvent e \<in> set ?evs"
    using e False by (auto simp: UnsurfacedInterruptedEvents_def set_sql_select sql_exists_key)
  have "park_key d (scanQueuedEvent e) \<in> de_delivery_key ` set (deliveries (surface_all (SurfaceInterruptedCoordinated fails) ?evs d))"
  proof (rule si.surface_all_writes [OF _ mem])
    fix ev and d' :: db assume "ev \<in> set ?evs" and d': "events d' = events d"
    then obtain q where q: "q \<in> set (events d)" "ev_status q = Interrupted" "ev = scanQueuedEvent q"
      by (auto simp: UnsurfacedInterruptedEvents_def set_sql_select)
    have "find (\<lambda>x. ev_id x = ev_id q \<and> ev_status x = Interrupted) (events d) = Some q"
      using wf_find_event [of d q "\<lambda>x. ev_status x = Interrupted", OF wf q(1,2)] .
    then show "\<exists>d''. SurfaceInterruptedCoordinated fails ev d' = Inr d'' \<and> park_key d ev \<in> de_delivery_key ` set (deliveries d'')"
      using ok pk [OF q(1,2)] insert_notice_key d' q(3)
      by (simp add: SurfaceInterruptedCoordinated_def scanQueuedEvent_def)
  qed
  then show ?thesis using pk [OF e] by simp
qed

lemma sweep_deaths_written:
  assumes wf: "wf_db d" and ok: "\<And>c. \<not> fails c" and owner: "owner_native_id d \<noteq> None"
    and x: "(x, e) \<in> set (dead_join d)" "dl_resolution x = None"
  shows "dead_key (ev_dedup_key e) (dl_entries x) \<in>
    de_delivery_key ` set (deliveries (surface_all (SurfaceDeadLetterCoordinated fails) (UnsurfacedDeadLetters d) d))"
    (is "?k \<in> de_delivery_key ` set (deliveries (surface_all _ ?evs d))")
proof (cases "?k \<in> de_delivery_key ` set (deliveries d)")
  case True
  then show ?thesis using sd.surface_all_keys [of d fails ?evs] by blast
next
  case False
  have dk: "death_key d (scanQueuedEvent f) = dead_key (ev_dedup_key f) (dl_entries y)"
    if "(y, f) \<in> set (dead_join d)" "dl_resolution y = None" for y f
    using wf_find_dead [OF wf that] by (simp add: death_key_def scanQueuedEvent_def)
  have "scanQueuedEvent e = (scanQueuedEvent \<circ> snd) (x, e)" by simp
  then have mem: "scanQueuedEvent e \<in> set ?evs"
    unfolding UnsurfacedDeadLetters_def using x False by (force simp: set_sql_select sql_exists_key)
  have "death_key d (scanQueuedEvent e) \<in> de_delivery_key ` set (deliveries (surface_all (SurfaceDeadLetterCoordinated fails) ?evs d))"
  proof (rule sd.surface_all_writes [OF _ mem])
    fix ev and d' :: db assume "ev \<in> set ?evs" and d': "events d' = events d" "dead_letters d' = dead_letters d" "identities d' = identities d"
    then obtain y f where q: "(y, f) \<in> set (dead_join d)" "dl_resolution y = None" "ev = scanQueuedEvent f"
      by (auto simp: UnsurfacedDeadLetters_def set_sql_select)
    have join: "dead_join d' = dead_join d" using d' by (simp add: dead_join_def)
    obtain nid where "owner_native_id d' = Some nid" using owner d'(3) by (auto simp: owner_native_id_def)
    then show "\<exists>d''. SurfaceDeadLetterCoordinated fails ev d' = Inr d'' \<and> death_key d ev \<in> de_delivery_key ` set (deliveries d'')"
      using ok dk [OF q(1,2)] insert_notice_key wf_find_dead [OF wf q(1,2)] q(3) join
      by (simp add: SurfaceDeadLetterCoordinated_def scanQueuedEvent_def Let_def)
  qed
  then show ?thesis using dk [OF x] by simp
qed

lemma no_unsurfaced_parks:
  "(\<And>e. e \<in> set (events d) \<Longrightarrow> ev_status e = Interrupted \<Longrightarrow>
      interrupted_key (ev_dedup_key e) (ev_parks e) \<in> de_delivery_key ` set (deliveries d)) \<Longrightarrow>
    UnsurfacedInterruptedEvents d = []"
  by (simp add: UnsurfacedInterruptedEvents_def sql_select_Nil sql_exists_key)

lemma no_unsurfaced_deaths:
  "(\<And>x e. (x, e) \<in> set (dead_join d) \<Longrightarrow> dl_resolution x = None \<Longrightarrow>
      dead_key (ev_dedup_key e) (dl_entries x) \<in> de_delivery_key ` set (deliveries d)) \<Longrightarrow>
    UnsurfacedDeadLetters d = []"
  by (auto simp: UnsurfacedDeadLetters_def sql_select_Nil sql_exists_key)

section \<open>The effect of a resend\<close>

definition del_rel :: "int set \<Rightarrow> delivery_row \<Rightarrow> delivery_row \<Rightarrow> bool" where
  "del_rel A q q' \<longleftrightarrow> de_id q' = de_id q \<and> de_delivery_key q' = de_delivery_key q \<and>
     de_target q' = de_target q \<and> de_payload q' = de_payload q \<and> de_event_id q' = de_event_id q \<and>
     (if owed q \<and> de_id q \<in> A then de_acked q' \<noteq> None \<and> de_status q' = Sent
      else de_acked q' = de_acked q \<and> de_status q' = de_status q)"

lemma del_rel_trans: "del_rel A p q \<Longrightarrow> del_rel B q r \<Longrightarrow> del_rel (A \<union> B) p r"
  by (auto simp: del_rel_def owed_def split: if_splits)

lemma list_all2_del_trans:
  "list_all2 (del_rel A) t u \<Longrightarrow> list_all2 (del_rel B) u v \<Longrightarrow> list_all2 (del_rel (A \<union> B)) t v"
  by (rule list_all2_trans [of "del_rel A" "del_rel B"]) (auto intro: del_rel_trans)

lemma list_all2_sql_update:
  "(\<And>r. r \<in> set t \<Longrightarrow> R r (if P r then f r else r)) \<Longrightarrow> list_all2 R t (sql_update P f t)"
  by (auto simp: list_all2_conv_all_nth sql_update_def)

lemma del_rel_refl: "list_all2 (del_rel {}) t t"
  by (simp add: list_all2_same del_rel_def)

lemma stamp_rel:
  assumes "MarkDeliveryAttempt i now d = Inr d1"
  shows "list_all2 (del_rel {}) (deliveries d) (deliveries d1)" "\<exists>r \<in> set (deliveries d1). de_id r = i \<and> owed r"
  using assms
  by (auto elim!: MarkAttempt_InrE intro!: list_all2_sql_update simp: del_rel_def bex_sql_update owed_def)

lemma ack_rel:
  assumes "AckDelivery i now d = Inr d2" and wf: "wf_db d" and "\<exists>r \<in> set (deliveries d). de_id r = i \<and> owed r"
  shows "list_all2 (del_rel {i}) (deliveries d) (deliveries d2)"
proof -
  obtain r where r: "r \<in> set (deliveries d)" "de_id r = i" "owed r" using assms(3) by blast
  from assms(1) have "deliveries d2 = deliveries (ack_stamp i now d)"
    unfolding AckDelivery_owed [OF wf r] by (auto simp: ack_advance_def split: option.splits if_splits)
  moreover have "list_all2 (del_rel {i}) (deliveries d) (deliveries (ack_stamp i now d))"
    by (auto simp: ack_stamp_def del_rel_def intro!: list_all2_sql_update)
  ultimately show ?thesis by simp
qed

text \<open>One row of the pass, as a case distinction the inductions share.\<close>

lemma resend_loop_cases:
  assumes "resend_loop env (r # rows) stopped d = (d', tr)"
  obtains (cancel) "d' = d" "tr = []"
    | (skip) "RD_Target r \<in> set stopped" "resend_loop env rows stopped d = (d', tr)"
    | (stop) "RD_Target r \<notin> set stopped" "resend_loop env rows (RD_Target r # stopped) d = (d', tr)"
    | (failed) d1 tr1 where "RD_Target r \<notin> set stopped" "\<not> pe_held env (RD_DeliveryKey r)"
        "MarkDeliveryAttempt (RD_ID r) (pe_now env) d = Inr d1"
        "resend_loop env rows (RD_Target r # stopped) d1 = (d', tr1)"
        "tr = DoStamp (RD_ID r) # DoSend (RD_ID r) (RD_Target r) (RD_Payload r) # tr1"
    | (sent) d1 d2 tr1 where "RD_Target r \<notin> set stopped" "\<not> pe_held env (RD_DeliveryKey r)"
        "MarkDeliveryAttempt (RD_ID r) (pe_now env) d = Inr d1"
        "AckDelivery (RD_ID r) (pe_now env) d1 = Inr d2" "resend_loop env rows stopped d2 = (d', tr1)"
        "tr = DoStamp (RD_ID r) # DoSend (RD_ID r) (RD_Target r) (RD_Payload r) # DoAck (RD_ID r) # tr1"
  using assms by (simp split: if_splits sum.splits option.splits prod.splits)

lemma resend_loop_rel:
  "resend_loop env rows stopped d = (d', tr) \<Longrightarrow> wf_db d \<Longrightarrow>
   wf_db d' \<and> list_all2 (del_rel {i. DoAck i \<in> set tr}) (deliveries d) (deliveries d')"
proof (induction rows arbitrary: stopped d tr)
  case Nil
  then show ?case by (simp add: del_rel_refl)
next
  case (Cons r rows)
  from Cons.prems(1) show ?case
  proof (cases rule: resend_loop_cases)
    case cancel
    with Cons.prems show ?thesis by (simp add: del_rel_refl)
  next
    case skip
    with Cons show ?thesis by blast
  next
    case stop
    with Cons show ?thesis by blast
  next
    case (failed d1 tr1)
    have "wf_db d1" by (rule MarkAttempt_wf [OF failed(3) Cons.prems(2)])
    with Cons.IH [OF failed(4)] list_all2_del_trans [OF stamp_rel(1) [OF failed(3)]] failed(5) show ?thesis by simp
  next
    case (sent d1 d2 tr1)
    have w1: "wf_db d1" by (rule MarkAttempt_wf [OF sent(3) Cons.prems(2)])
    have w2: "wf_db d2" by (rule AckDelivery_wf [OF sent(4) w1])
    have "list_all2 (del_rel {RD_ID r}) (deliveries d1) (deliveries d2)"
      by (rule ack_rel [OF sent(4) w1 stamp_rel(2) [OF sent(3)]])
    from list_all2_del_trans [OF stamp_rel(1) [OF sent(3)] this]
    have "list_all2 (del_rel {RD_ID r}) (deliveries d) (deliveries d2)" by simp
    from list_all2_del_trans [OF this] Cons.IH [OF sent(5) w2]
    have "wf_db d' \<and> list_all2 (del_rel ({RD_ID r} \<union> {i. DoAck i \<in> set tr1})) (deliveries d) (deliveries d')" by blast
    moreover have "{RD_ID r} \<union> {i. DoAck i \<in> set tr1} = {i. DoAck i \<in> set tr}" using sent(6) by auto
    ultimately show ?thesis by simp
  qed
qed

fun sends_to :: "string \<Rightarrow> action list \<Rightarrow> int list" where
  "sends_to t [] = []"
| "sends_to t (DoSend i u p # tr) = (if u = t then i # sends_to t tr else sends_to t tr)"
| "sends_to t (_ # tr) = sends_to t tr"

lemma resend_loop_order:
  "resend_loop env rows stopped d = (d', tr) \<Longrightarrow>
   prefix (sends_to t tr) (if t \<in> set stopped then [] else map RD_ID (filter (\<lambda>r. RD_Target r = t) rows))"
proof (induction rows arbitrary: stopped d tr)
  case (Cons r rows)
  from Cons.prems show ?case
  proof (cases rule: resend_loop_cases)
    case skip
    with Cons.IH [OF skip(2)] show ?thesis by (auto split: if_splits)
  next
    case stop
    from Cons.IH [OF stop(2)] stop(1) show ?thesis by (cases "RD_Target r = t") auto
  next
    case (failed d1 tr1)
    from Cons.IH [OF failed(4)] failed(1,5) show ?thesis by (cases "RD_Target r = t") (auto split: if_splits)
  next
    case (sent d1 d2 tr1)
    from Cons.IH [OF sent(5)] sent(1,6) show ?thesis by (cases "RD_Target r = t") (auto split: if_splits)
  qed simp
qed simp

fun trace_ok :: "action list \<Rightarrow> bool" where
  "trace_ok (DoStamp i # DoSend j t p # DoAck k # tr) \<longleftrightarrow> i = j \<and> j = k \<and> trace_ok tr"
| "trace_ok (DoStamp i # DoSend j t p # tr) \<longleftrightarrow> i = j \<and> trace_ok tr"
| "trace_ok [] \<longleftrightarrow> True"
| "trace_ok _ \<longleftrightarrow> False"

lemma trace_ok_stamp_send: "trace_ok tr \<Longrightarrow> trace_ok (DoStamp i # DoSend i t p # tr)"
  by (cases tr rule: trace_ok.cases) auto

lemma resend_loop_trace: "resend_loop env rows stopped d = (d', tr) \<Longrightarrow> trace_ok tr"
proof (induction rows arbitrary: stopped d tr)
  case (Cons r rows)
  from Cons.prems show ?case
    by (cases rule: resend_loop_cases) (auto dest: Cons.IH simp: trace_ok_stamp_send)
qed simp

lemma resend_loop_sends:
  "resend_loop env rows stopped d = (d', tr) \<Longrightarrow> DoSend i t p \<in> set tr \<Longrightarrow>
   \<exists>r \<in> set rows. RD_ID r = i \<and> RD_Target r = t \<and> RD_Payload r = p \<and> \<not> pe_held env (RD_DeliveryKey r)"
proof (induction rows arbitrary: stopped d tr)
  case (Cons r rows)
  from Cons.prems(1) show ?case
    by (cases rule: resend_loop_cases) (use Cons.prems(2) in \<open>auto dest: Cons.IH\<close>)
qed simp

section \<open>Properties\<close>


definition ex_env :: pass_env where
  "ex_env = \<lparr>pe_fails = (\<lambda>c. c = AckWrite 9), pe_cancelled = (\<lambda>_. False), pe_held = (\<lambda>_. False),
     pe_senders = (\<lambda>c. c = ''discord''), pe_send = (\<lambda>i _ _. if i = 2 then Some ''ack'' else None), pe_now = 40\<rparr>"


text \<open>
  A resend pass neither loses nor invents an acknowledgement.  On a well-formed store the rows
  keep their identity, destination and payload; a row becomes acked in the pass exactly when the pass
  recorded its ack after a send, and every other row keeps its status, so what was owed and not acked
  is still owed for the next pass; nothing is given up.
\<close>

lemma ResendUnacked_accounts:
  assumes "ResendUnacked env d = (d', tr)" and "wf_db d" and "q \<in> set (deliveries d)" and "owed q"
  shows "\<exists>q' \<in> set (deliveries d'). de_id q' = de_id q \<and> de_target q' = de_target q \<and>
    de_payload q' = de_payload q \<and> (owed q' \<longleftrightarrow> DoAck (de_id q) \<notin> set tr) \<and>
    (DoAck (de_id q) \<in> set tr \<longrightarrow> de_status q' = Sent) \<and> wf_db d'"
proof -
  have "wf_db d' \<and> list_all2 (del_rel {i. DoAck i \<in> set tr}) (deliveries d) (deliveries d')"
  proof (cases "pe_fails env ScanOwed")
    case True
    with assms show ?thesis by (auto simp: ResendUnacked_def del_rel_refl)
  next
    case False
    with assms show ?thesis by (intro resend_loop_rel) (simp_all add: ResendUnacked_def)
  qed
  moreover obtain n where n: "n < length (deliveries d)" "q = deliveries d ! n"
    using assms(3) by (auto simp: in_set_conv_nth)
  ultimately have rel: "del_rel {i. DoAck i \<in> set tr} q (deliveries d' ! n)" and mem: "deliveries d' ! n \<in> set (deliveries d')"
    and wf: "wf_db d'" by (auto simp: list_all2_conv_all_nth)
  show ?thesis
    by (rule bexI [OF _ mem]) (use rel wf assms(4) in \<open>auto simp: del_rel_def owed_def split: if_splits\<close>)
qed

lemma ResendUnacked_accounts_example:
  "\<exists>q' \<in> set (deliveries (fst (ResendUnacked ex_env ex_reply_db))). de_id q' = 2 \<and> de_payload q' = ''hi''"
proof -
  obtain d' tr where r: "ResendUnacked ex_env ex_reply_db = (d', tr)" by fastforce
  have "ex_delivery 2 ''r2'' None \<in> set (deliveries ex_reply_db)" "owed (ex_delivery 2 ''r2'' None)"
    by (simp_all add: ex_reply_db_def ex_delivery_def owed_def)
  from ResendUnacked_accounts [OF r wf_ex_reply_db this] r show ?thesis by (auto simp: ex_delivery_def)
qed

text \<open>
  No park and no death stays silent.  On a well-formed store with an enrolled Discord owner, a
  sweep in which nothing fails leaves no interrupted event and no unresolved dead letter without its
  notice; it adds only pending rows that bind no event, touches no event and no dead letter, and a
  second sweep finds nothing to do.
\<close>

lemma sweep_surfaces_everything:
  assumes "wf_db d" and "\<forall>c. \<not> fails c" and "owner_native_id d \<noteq> None"
  shows "UnsurfacedInterruptedEvents (sweepUnsurfacedParks fails d) = [] \<and>
    UnsurfacedDeadLetters (sweepUnsurfacedParks fails d) = [] \<and>
    events (sweepUnsurfacedParks fails d) = events d \<and> dead_letters (sweepUnsurfacedParks fails d) = dead_letters d \<and>
    (\<exists>new. deliveries (sweepUnsurfacedParks fails d) = deliveries d @ new \<and>
       (\<forall>r \<in> set new. owed r \<and> de_event_id r = None)) \<and>
    sweepUnsurfacedParks fails (sweepUnsurfacedParks fails d) = sweepUnsurfacedParks fails d"
proof -
  let ?d1 = "surface_all (SurfaceInterruptedCoordinated fails) (UnsurfacedInterruptedEvents d) d"
  let ?d2 = "surface_all (SurfaceDeadLetterCoordinated fails) (UnsurfacedDeadLetters ?d1) ?d1"
  have d2: "sweepUnsurfacedParks fails d = ?d2" using assms(2) by (simp add: sweepUnsurfacedParks_def Let_def)
  note s1 = si.surface_all_same [of fails "UnsurfacedInterruptedEvents d" d]
  note s2 = sd.surface_all_same [of fails "UnsurfacedDeadLetters ?d1" ?d1]
  have wf1: "wf_db ?d1" using assms(1) by (rule si.surface_all_wf)
  have owner1: "owner_native_id ?d1 \<noteq> None" using assms(3) s1 by (simp add: owner_native_id_def)
  have k2: "de_delivery_key ` set (deliveries ?d1) \<subseteq> de_delivery_key ` set (deliveries ?d2)"
    by (rule sd.surface_all_keys)
  have parks: "UnsurfacedInterruptedEvents ?d2 = []"
  proof (rule no_unsurfaced_parks)
    fix e assume "e \<in> set (events ?d2)" "ev_status e = Interrupted"
    then have "e \<in> set (events d)" "ev_status e = Interrupted" using s1 s2 by simp_all
    from sweep_parks_written [of d fails, OF assms(1) _ this] assms(2) k2
    show "interrupted_key (ev_dedup_key e) (ev_parks e) \<in> de_delivery_key ` set (deliveries ?d2)" by blast
  qed
  have deaths: "UnsurfacedDeadLetters ?d2 = []"
  proof (rule no_unsurfaced_deaths)
    fix x e assume x: "(x, e) \<in> set (dead_join ?d2)" "dl_resolution x = None"
    have "dead_join ?d2 = dead_join ?d1" using s2 by (simp add: dead_join_def)
    with x have "(x, e) \<in> set (dead_join ?d1)" by simp
    from sweep_deaths_written [of ?d1 fails, OF wf1 _ owner1 this x(2)] assms(2)
    show "dead_key (ev_dedup_key e) (dl_entries x) \<in> de_delivery_key ` set (deliveries ?d2)" by blast
  qed
  obtain n1 where n1: "deliveries ?d1 = deliveries d @ n1 \<and> (\<forall>r \<in> set n1. delivery_fresh r \<and> de_event_id r = None)"
    using si.surface_all_extends [of fails "UnsurfacedInterruptedEvents d" d] ..
  obtain n2 where n2: "deliveries ?d2 = deliveries ?d1 @ n2 \<and> (\<forall>r \<in> set n2. delivery_fresh r \<and> de_event_id r = None)"
    using sd.surface_all_extends [of fails "UnsurfacedDeadLetters ?d1" ?d1] ..
  have "deliveries ?d2 = deliveries d @ (n1 @ n2) \<and> (\<forall>r \<in> set (n1 @ n2). owed r \<and> de_event_id r = None)"
    using n1 n2 by (auto simp: delivery_fresh_def owed_def)
  then have new: "\<exists>new. deliveries ?d2 = deliveries d @ new \<and> (\<forall>r \<in> set new. owed r \<and> de_event_id r = None)" by blast
  have "sweepUnsurfacedParks fails ?d2 = ?d2"
    using parks deaths assms(2) by (simp add: sweepUnsurfacedParks_def Let_def)
  with parks deaths new s1 s2 show ?thesis unfolding d2 by simp
qed

definition ex_silent_db :: db where
  "ex_silent_db = ex_dead_db\<lparr>identities := map identity_row_of ex_identities\<rparr>"

lemma sweep_surfaces_everything_example:
  "UnsurfacedDeadLetters ex_silent_db \<noteq> [] \<and> UnsurfacedDeadLetters (sweepUnsurfacedParks (\<lambda>_. False) ex_silent_db) = []"
proof -
  have "wf_db ex_silent_db" using wf_ex_dead_db by (simp add: ex_silent_db_def wf_untracked)
  moreover have "owner_native_id ex_silent_db \<noteq> None"
    by (simp add: owner_native_id_def ex_silent_db_def ex_identities_def identity_row_of_def)
  moreover have "UnsurfacedDeadLetters ex_silent_db \<noteq> []"
    by (simp add: UnsurfacedDeadLetters_def sql_select_Nil dead_join_def ex_silent_db_def ex_defs empty_db_def sql_exists_def)
  ultimately show ?thesis using sweep_surfaces_everything [of ex_silent_db "\<lambda>_. False"] by simp
qed

end
