(* ===== verification/Store_Machine.thy ===== *)
theory Store_Machine
  imports Delivery
begin

text \<open>
  The store as a state machine: one rule per exported operation of \<open>src/internal/store\<close> that
  writes, and the two notice writers of \<open>src/internal/delivery/surface.go\<close>, each taken with the operation's own success value (a refused or failed call changes
  nothing).  The callers interleave these operations freely, each in its own transaction, so what
  holds of every run of this relation holds of every schedule of the daemon.
\<close>

section \<open>Steps and runs\<close>

inductive store_step :: "db \<Rightarrow> db \<Rightarrow> bool" where
  insert_event: "InsertEvent u ev d = Inr (x, d') \<Longrightarrow> store_step d d'"
| park_event: "store_step d (ParkEvent i now d)"
| mark_processing: "MarkEventProcessing i now d = Inr d' \<Longrightarrow> store_step d d'"
| mark_completed: "MarkEventCompleted i now d = Inr d' \<Longrightarrow> store_step d d'"
| mark_reconciled: "MarkEventCompletedReconciled i now d = Inr d' \<Longrightarrow> store_step d d'"
| skip_event: "SkipEvent i now d = Inr d' \<Longrightarrow> store_step d d'"
| requeue_event: "RequeueEventForRetry i now d = Inr d' \<Longrightarrow> store_step d d'"
| requeue_interrupted: "RequeueInterruptedEvent i now d = Inr (q, d') \<Longrightarrow> store_step d d'"
| dead_letter: "DeadLetterEvent i reason now d = Inr d' \<Longrightarrow> store_step d d'"
| ack_dead_letter: "AckDeadLetter i now d = Inr d' \<Longrightarrow> store_step d d'"
| dead_letter_requeue: "ResolveDeadLetterRequeue i now d = Inr (q, d') \<Longrightarrow> store_step d d'"
| dead_letter_discard: "ResolveDeadLetterDiscard i d = Inr d' \<Longrightarrow> store_step d d'"
| insert_attempt: "InsertToolAttempt a d = Inr (i, d') \<Longrightarrow> store_step d d'"
| complete_attempt: "CompleteToolAttempt i outcome endedAt d = Inr d' \<Longrightarrow> store_step d d'"
| insert_delivery: "InsertDelivery x d = Inr (p, d') \<Longrightarrow> store_step d d'"
| insert_deliveries: "InsertDeliveries xs d = Inr (p, d') \<Longrightarrow> store_step d d'"
| mark_attempt: "MarkDeliveryAttempt i now d = Inr d' \<Longrightarrow> store_step d d'"
| ack_delivery: "AckDelivery i now d = Inr d' \<Longrightarrow> store_step d d'"
| mark_failed: "MarkDeliveryFailed i d = Inr d' \<Longrightarrow> store_step d d'"
| insert_session: "InsertSession fs s d = Inr (cwd, d') \<Longrightarrow> store_step d d'"
| activate_session: "ActivateSession sid d = Inr d' \<Longrightarrow> store_step d d'"
| fail_session: "FailSession sid d = Inr d' \<Longrightarrow> store_step d d'"
| rotate_session: "RotateSession fs old s d = Inr (cwd, d') \<Longrightarrow> store_step d d'"
| resume_fail_session: "ResumeFailSession fs old s d = Inr (cwd, d') \<Longrightarrow> store_step d d'"
| expire_session: "ExpireSession fs old s d = Inr (cwd, d') \<Longrightarrow> store_step d d'"
| touch_session: "TouchSession sid now d = Inr d' \<Longrightarrow> store_step d d'"
| taint_session: "MarkSessionTainted sid d = Inr d' \<Longrightarrow> store_step d d'"
| seed_identities: "SeedIdentities is d = Inr d' \<Longrightarrow> store_step d d'"
| insert_turn: "InsertTurn t d = Inr (i, d') \<Longrightarrow> store_step d d'"
| surface_dead: "SurfaceDeadLetterCoordinated fails q d = Inr d' \<Longrightarrow> store_step d d'"
| surface_interrupted: "SurfaceInterruptedCoordinated fails q d = Inr d' \<Longrightarrow> store_step d d'"

abbreviation store_run :: "db \<Rightarrow> db \<Rightarrow> bool" where
  "store_run \<equiv> store_step\<^sup>*\<^sup>*"

section \<open>Every step keeps the invariant and the lifecycles\<close>

lemma InsertDeliveries_InrD: "InsertDeliveries xs d = Inr (p, d') \<Longrightarrow> d' = d \<or> (\<exists>ids. insert_batch xs d = Inr (Some (ids, d')))"
  by (auto simp: InsertDeliveries_def split: sum.splits option.splits)

lemma step_wf: "store_step d d' \<Longrightarrow> wf_db d \<Longrightarrow> wf_db d'"
proof (induction rule: store_step.induct)
  case (insert_deliveries xs d p d')
  then show ?case by (auto dest!: InsertDeliveries_InrD insert_batch_wf)
next
  case (surface_dead fails q d d')
  then show ?case using surface_insert(2) [of fails q d d'] by (auto simp: insert_notice_wf)
next
  case (surface_interrupted fails q d d')
  then show ?case using surface_insert(1) [of fails q d d'] by (auto simp: insert_notice_wf)
next
  case (rotate_session fs old s d cwd d')
  then show ?case unfolding RotateSession_def by (elim retire_wf) (simp_all add: retirement_def)
next
  case (resume_fail_session fs old s d cwd d')
  then show ?case unfolding ResumeFailSession_def by (elim retire_wf) (simp_all add: retirement_def)
next
  case (expire_session fs old s d cwd d')
  then show ?case unfolding ExpireSession_def by (elim retire_wf) (simp_all add: retirement_def)
qed (simp_all add: InsertEvent_wf ParkEvent_wf mp.act_wf mc.act_wf sk.act_wf Reconciled_wf Requeue_wf RequeueInterrupted_wf
    DeadLetter_wf AckDead_wf RequeueDead_wf Discard_wf InsertAttempt_wf CompleteAttempt_wf
    InsertDelivery_def insertDelivery_wf MarkAttempt_wf AckDelivery_wf MarkFailed_wf InsertSession_def insertSession_wf
    ActivateSession_def FailSession_def Transition_wf Touch_wf Taint_wf Seed_wf InsertTurn_wf)

lemma step_evolves: "store_step d d' \<Longrightarrow> wf_db d \<Longrightarrow> db_evolves d d'"
proof (induction rule: store_step.induct)
  case (insert_deliveries xs d p d')
  then show ?case by (auto dest!: InsertDeliveries_InrD insert_batch_evolves)
next
  case (surface_dead fails q d d')
  then show ?case using surface_insert(2) [of fails q d d'] by (auto simp: insert_notice_evolves)
next
  case (surface_interrupted fails q d d')
  then show ?case using surface_insert(1) [of fails q d d'] by (auto simp: insert_notice_evolves)
next
  case (rotate_session fs old s d cwd d')
  then show ?case unfolding RotateSession_def by (elim retire_evolves) (simp_all add: retirement_def)
next
  case (resume_fail_session fs old s d cwd d')
  then show ?case unfolding ResumeFailSession_def by (elim retire_evolves) (simp_all add: retirement_def)
next
  case (expire_session fs old s d cwd d')
  then show ?case unfolding ExpireSession_def by (elim retire_evolves) (simp_all add: retirement_def)
qed (simp_all add: InsertEvent_evolves ParkEvent_evolves mp.act_evolves mc.act_evolves sk.act_evolves Reconciled_evolves
    Requeue_evolves RequeueInterrupted_evolves DeadLetter_evolves AckDead_evolves RequeueDead_evolves Discard_evolves
    InsertAttempt_evolves CompleteAttempt_evolves InsertDelivery_def insertDelivery_evolves MarkAttempt_evolves
    AckDelivery_evolves MarkFailed_evolves InsertSession_def insertSession_evolves ActivateSession_def FailSession_def
    Transition_evolves Touch_evolves Taint_evolves Seed_evolves InsertTurn_evolves)

lemma run_wf: "store_run d d' \<Longrightarrow> wf_db d \<Longrightarrow> wf_db d'"
  by (induction rule: rtranclp_induct) (auto intro: step_wf)

section \<open>Histories of rows\<close>

text \<open>
  What one step may do to a row of a table extends to runs, for any relation that contains the
  identity and absorbs one more step.
\<close>

locale row_history = row_lifecycle ok fresh
  for ok :: "'r \<Rightarrow> 'r \<Rightarrow> bool" and fresh :: "'r \<Rightarrow> bool" +
  fixes table :: "db \<Rightarrow> 'r list" and hist :: "'r \<Rightarrow> 'r \<Rightarrow> bool"
  assumes step_table: "store_step d d' \<Longrightarrow> wf_db d \<Longrightarrow> table_evolves ok fresh (table d) (table d')"
    and hist_refl: "hist r r"
    and hist_step: "hist r q \<Longrightarrow> ok q s \<Longrightarrow> hist r s"
begin

lemma run_row: "store_run d d' \<Longrightarrow> wf_db d \<Longrightarrow> r \<in> set (table d) \<Longrightarrow> \<exists>r' \<in> set (table d'). hist r r'"
proof (induction rule: rtranclp_induct)
  case base
  then show ?case using hist_refl by blast
next
  case (step d1 d2)
  then obtain q where q: "q \<in> set (table d1)" "hist r q" by blast
  have "table_evolves ok fresh (table d1) (table d2)"
    by (rule step_table [OF step.hyps(2) run_wf [OF step.hyps(1) step.prems(1)]])
  from evolves_row [OF this q(1)] q(2) show ?case using hist_step by blast
qed

end

definition event_hist :: "event_row \<Rightarrow> event_row \<Rightarrow> bool" where
  "event_hist e e' \<longleftrightarrow> ev_id e' = ev_id e \<and> ev_dedup_key e' = ev_dedup_key e \<and>
     ev_thread_key e' = ev_thread_key e \<and> ev_kind e' = ev_kind e \<and> ev_trust e' = ev_trust e \<and>
     ev_payload e' = ev_payload e \<and> ev_received e' = ev_received e \<and> ev_correlation e' = ev_correlation e \<and>
     ev_edge\<^sup>*\<^sup>* (ev_status e) (ev_status e') \<and> ev_attempts e \<le> ev_attempts e' \<and> ev_parks e \<le> ev_parks e'"

definition session_hist :: "session_row \<Rightarrow> session_row \<Rightarrow> bool" where
  "session_hist s s' \<longleftrightarrow> se_session_id s' = se_session_id s \<and> se_thread_key s' = se_thread_key s \<and>
     se_cwd s' = se_cwd s \<and> se_origin s' = se_origin s \<and> se_trust_floor s' = se_trust_floor s \<and>
     se_created_at s' = se_created_at s \<and> se_activation_deadline s' = se_activation_deadline s \<and>
     sess_edge\<^sup>*\<^sup>* (se_status s) (se_status s') \<and> (se_tainted s \<longrightarrow> se_tainted s') \<and>
     (se_rotated_to s \<noteq> None \<longrightarrow> se_rotated_to s' = se_rotated_to s)"

definition delivery_hist :: "delivery_row \<Rightarrow> delivery_row \<Rightarrow> bool" where
  "delivery_hist r r' \<longleftrightarrow> de_id r' = de_id r \<and> de_delivery_key r' = de_delivery_key r \<and>
     de_event_id r' = de_event_id r \<and> de_target r' = de_target r \<and> de_payload r' = de_payload r \<and>
     (de_status r \<noteq> Pending \<longrightarrow> de_status r' = de_status r) \<and> de_attempts r \<le> de_attempts r' \<and>
     (de_acked r \<noteq> None \<longrightarrow> de_acked r' = de_acked r)"

interpretation eh: row_history event_ok event_fresh events event_hist
proof
  show "table_evolves event_ok event_fresh (events d) (events d')" if "store_step d d'" "wf_db d" for d d'
    using step_evolves [OF that] by (simp add: db_evolves_def)
  show "event_hist r r" for r by (simp add: event_hist_def)
  show "event_hist r s" if "event_hist r q" "event_ok q s" for r q s
    using that by (auto simp: event_hist_def event_ok_iff intro: rtranclp.rtrancl_into_rtrancl)
qed

interpretation sh: row_history session_ok session_fresh sessions session_hist
proof
  show "table_evolves session_ok session_fresh (sessions d) (sessions d')" if "store_step d d'" "wf_db d" for d d'
    using step_evolves [OF that] by (simp add: db_evolves_def)
  show "session_hist r r" for r by (simp add: session_hist_def)
  show "session_hist r s" if "session_hist r q" "session_ok q s" for r q s
    using that unfolding session_hist_def session_ok_iff
    by (intro conjI) (auto intro: rtranclp.rtrancl_into_rtrancl)
qed

interpretation dh: row_history delivery_ok delivery_fresh deliveries delivery_hist
proof
  show "table_evolves delivery_ok delivery_fresh (deliveries d) (deliveries d')" if "store_step d d'" "wf_db d" for d d'
    using step_evolves [OF that] by (simp add: db_evolves_def)
  show "delivery_hist r r" for r by (simp add: delivery_hist_def)
  show "delivery_hist r s" if "delivery_hist r q" "delivery_ok q s" for r q s
    using that by (auto simp: delivery_hist_def delivery_ok_iff)
qed

text \<open>Terminal states of the two lifecycles.\<close>

lemma edges_terminal: "ev_edge\<^sup>*\<^sup>* Replied s \<longleftrightarrow> s = Replied" "ev_edge\<^sup>*\<^sup>* Skipped s \<longleftrightarrow> s = Skipped"
  by (auto elim: converse_rtranclpE)

lemma completed_edges: "ev_edge\<^sup>*\<^sup>* Completed s \<Longrightarrow> s = Completed \<or> s = Replied"
  by (auto elim: converse_rtranclpE simp: edges_terminal)

lemma sess_edges_dead:
  "sess_edge\<^sup>*\<^sup>* Rotated s \<longleftrightarrow> s = Rotated" "sess_edge\<^sup>*\<^sup>* ResumeFailed s \<longleftrightarrow> s = ResumeFailed"
  "sess_edge\<^sup>*\<^sup>* Failed s \<longleftrightarrow> s = Failed"
  by (auto elim: converse_rtranclpE)

lemma retired_stays: "session_hist s s' \<Longrightarrow> \<not> live s \<Longrightarrow> \<not> live s' \<and> se_status s' = se_status s"
  by (cases "se_status s") (auto simp: session_hist_def live_def live_status_def sess_edges_dead)

lemma SessionTainted_eq: "wf_db d \<Longrightarrow> s \<in> set (sessions d) \<Longrightarrow> SessionTainted (se_session_id s) d = Inr (se_tainted s)"
  using wf_session_unique [of d _ s] unfolding SessionTainted_def
  by (cases "find (\<lambda>r. se_session_id r = se_session_id s) (sessions d)") (auto simp: find_eq_None dest!: find_eq_Some)

section \<open>Properties\<close>

text \<open>
  C1: every store a run of the program can reach from the freshly migrated one is well formed: keys
  are unique, references resolve, a thread has at most one live session, retries stay within the
  budget, a replied event has all its deliveries acked, an acked delivery is sent, and the dead events
  are exactly those with an open dead-letter record.
\<close>

theorem reachable_store_wf:
  assumes "store_run empty_db d"
  shows "wf_db d"
  using assms by (rule run_wf) simp

definition ex_new_event :: Event where
  "ex_new_event = \<lparr>Event_DedupKey = ''m1'', Event_ThreadKey = ''discord:dm:7'', Event_Kind = ''message'', Event_Trust = ''owner'',
     Event_Payload = ''p'', Event_Received = 1, Event_Correlation = []\<rparr>"

definition ex_unmarshal :: "string \<Rightarrow> mirror option" where
  "ex_unmarshal p = Some \<lparr>P_DedupKey = ''m1'', P_ThreadKey = ''discord:dm:7'', P_Kind = ''message'', P_Trust = ''owner''\<rparr>"

theorem reachable_store_wf_witness:
  "\<exists>d. store_run empty_db d \<and> events d \<noteq> [] \<and> wf_db d"
proof -
  have "InsertEvent ex_unmarshal ex_new_event empty_db =
      Inr ((1, True), empty_db\<lparr>events := [new_event_row ex_new_event empty_db]\<rparr>)"
    by (simp add: InsertEvent_def Event_validate_def Event_validatePayload_def ex_unmarshal_def ex_new_event_def
        Let_def event_check_def event_kinds_def event_trusts_def new_event_row_def empty_db_def next_rowid_def sql_exists_def)
  then have "store_run empty_db (empty_db\<lparr>events := [new_event_row ex_new_event empty_db]\<rparr>)"
    by (intro r_into_rtranclp store_step.insert_event)
  from reachable_store_wf [OF this] this show ?thesis by (metis event_row.ext_inject list.distinct(1) db.select_convs db.update_convs db.surjective)
qed


lemma ex_run: "\<exists>d'. SkipEvent 1 20 ex_turn_db = Inr d' \<and> store_run ex_turn_db d'"
proof -
  have "ex_event 1 ''m1'' Processing \<in> set (events ex_turn_db)" by (simp add: ex_turn_db_def)
  from sk.act_ok [OF this, of 1 20] show ?thesis
    by (auto simp: ex_event_def intro!: r_into_rtranclp store_step.skip_event)
qed


text \<open>
  C16: the session lifecycle, over any run: a session row never disappears, its identity, thread,
  directory, origin, trust floor and deadlines never change, its status moves only along the declared
  edges, a retired session never becomes live again, its taint is never cleared, and its link to a
  successor is written at most once.
\<close>

theorem session_lifecycle:
  assumes "wf_db d" and "store_run d d'" and "s \<in> set (sessions d)"
  shows "\<exists>s' \<in> set (sessions d'). session_hist s s' \<and> (\<not> live s \<longrightarrow> \<not> live s' \<and> se_status s' = se_status s) \<and>
    (SessionTainted (se_session_id s) d = Inr True \<longrightarrow> SessionTainted (se_session_id s) d' = Inr True)"
proof -
  obtain s' where s': "s' \<in> set (sessions d')" "session_hist s s'" using sh.run_row [OF assms(2,1,3)] by blast
  have "SessionTainted (se_session_id s) d = Inr (se_tainted s)" by (rule SessionTainted_eq [OF assms(1,3)])
  moreover have "SessionTainted (se_session_id s) d' = Inr (se_tainted s')"
    using SessionTainted_eq [OF run_wf [OF assms(2,1)] s'(1)] s'(2) by (simp add: session_hist_def)
  ultimately show ?thesis using s' retired_stays [OF s'(2)] by (auto simp: session_hist_def)
qed

theorem session_lifecycle_witness:
  "\<exists>d'. store_run ex_turn_db d' \<and> (\<exists>s' \<in> set (sessions d'). se_session_id s' = ''s1'' \<and> se_cwd s' = se_cwd (ex_session ''s1'' Active))"
proof -
  obtain d' where r: "store_run ex_turn_db d'" using ex_run by blast
  have "ex_session ''s1'' Active \<in> set (sessions ex_turn_db)" by (simp add: ex_turn_db_def)
  from session_lifecycle [OF wf_ex_turn_db r this] r show ?thesis by (auto simp: session_hist_def ex_session_def)
qed

text \<open>
  C17: a delivery is never lost or rewritten: over any run its row stays, with the same key, target,
  payload and event; once it is sent or failed its status is final, and once it is acked the time of
  the ack is final.
\<close>

theorem delivery_lifecycle:
  assumes "wf_db d" and "store_run d d'" and "r \<in> set (deliveries d)"
  shows "\<exists>r'. delivery_by_id (de_id r) d' = Some r' \<and> delivery_hist r r'"
proof -
  obtain r' where r': "r' \<in> set (deliveries d')" "delivery_hist r r'" using dh.run_row [OF assms(2,1,3)] by blast
  with delivery_by_id_eq [OF run_wf [OF assms(2,1)] r'(1)] show ?thesis by (auto simp: delivery_hist_def)
qed

theorem delivery_lifecycle_witness:
  "\<exists>d' r'. AckDelivery 2 30 ex_reply_db = Inr d' \<and> delivery_by_id 1 d' = Some r' \<and> de_acked r' = Some 9"
proof -
  obtain d' where a: "AckDelivery 2 30 ex_reply_db = Inr d'"
    using AckDelivery_owed [OF wf_ex_reply_db, of "ex_delivery 2 ''r2'' None" 2 30]
    by (simp add: ex_defs owed_def empty_db_def)
  have "store_run ex_reply_db d'" using a by (intro r_into_rtranclp store_step.ack_delivery)
  moreover have "ex_delivery 1 ''r1'' (Some 9) \<in> set (deliveries ex_reply_db)" by (simp add: ex_reply_db_def)
  ultimately obtain r' where "delivery_by_id (de_id (ex_delivery 1 ''r1'' (Some 9))) d' = Some r'" "delivery_hist (ex_delivery 1 ''r1'' (Some 9)) r'"
    using delivery_lifecycle [OF wf_ex_reply_db] by blast
  with a show ?thesis by (auto simp: delivery_hist_def ex_delivery_def)
qed

end
