(* ===== verification/InFlight.thy ===== *)
theory InFlight
  imports Prelude
begin

text \<open>
  The live-send claims and target gates of \<open>src/internal/delivery/inflight.go\<close>.  Claims are a
  set of keys.  Gates are modelled at the grain of the mutex and of the channel operations, as a step
  relation over any number of goroutines: entering \<open>AcquireTarget\<close> (find or create the gate,
  count a reference, under the mutex), taking the token, giving up on a cancelled context, putting
  the token back, and dropping the reference (again under the mutex, deleting the gate when it was
  the last one and is still the one in the table).  A gate object is identified by a number, so that
  a gate that was deleted and one created later for the same target are different objects, as in the
  program.
\<close>

section \<open>Claims\<close>

definition Claim :: "string list \<Rightarrow> string set \<Rightarrow> string set" where
  "Claim ks keys = keys \<union> set ks"

definition Release :: "string list \<Rightarrow> string set \<Rightarrow> string set" where
  "Release ks keys = keys - set ks"

definition Held :: "string \<Rightarrow> string set \<Rightarrow> bool" where
  "Held k keys \<longleftrightarrow> k \<in> keys"

section \<open>Gates\<close>

record targetGate =
  tg_token :: bool
  tg_refs :: nat

datatype phase = Idle | Waiting string nat | Holding string nat | Releasing string nat

record gates =
  gt_targets :: "string \<Rightarrow> nat option"
  gt_gate :: "nat \<Rightarrow> targetGate"
  gt_next :: nat
  gt_phase :: "nat \<Rightarrow> phase"

definition NewInFlight :: gates where
  "NewInFlight = \<lparr>gt_targets = (\<lambda>_. None), gt_gate = (\<lambda>_. \<lparr>tg_token = True, tg_refs = 0\<rparr>), gt_next = 0,
     gt_phase = (\<lambda>_. Idle)\<rparr>"

text \<open>The critical section of \<open>AcquireTarget\<close>: the gate of the target, created when absent, with one
  more reference.\<close>

definition acquire_ref :: "string \<Rightarrow> gates \<Rightarrow> nat \<times> gates" where
  "acquire_ref target s =
     (case gt_targets s target of
        Some g \<Rightarrow>
          (g, s\<lparr>gt_gate := (gt_gate s)(g := (gt_gate s g)\<lparr>tg_refs := tg_refs (gt_gate s g) + 1\<rparr>)\<rparr>)
      | None \<Rightarrow>
          (gt_next s, s\<lparr>gt_targets := (gt_targets s)(target \<mapsto> gt_next s),
             gt_gate := (gt_gate s)(gt_next s := \<lparr>tg_token = True, tg_refs = 1\<rparr>), gt_next := gt_next s + 1\<rparr>))"

definition releaseTargetRef :: "string \<Rightarrow> nat \<Rightarrow> gates \<Rightarrow> gates" where
  "releaseTargetRef target g s =
     (let refs = tg_refs (gt_gate s g) - 1;
          s' = s\<lparr>gt_gate := (gt_gate s)(g := (gt_gate s g)\<lparr>tg_refs := refs\<rparr>)\<rparr>
      in if refs = 0 \<and> gt_targets s target = Some g then s'\<lparr>gt_targets := (gt_targets s)(target := None)\<rparr> else s')"

inductive gate_step :: "gates \<Rightarrow> gates \<Rightarrow> bool" where
  enter: "gt_phase s p = Idle \<Longrightarrow> target \<noteq> [] \<Longrightarrow> acquire_ref target s = (g, s') \<Longrightarrow>
    gate_step s (s'\<lparr>gt_phase := (gt_phase s)(p := Waiting target g)\<rparr>)"
| take: "gt_phase s p = Waiting target g \<Longrightarrow> tg_token (gt_gate s g) \<Longrightarrow>
    gate_step s (s\<lparr>gt_gate := (gt_gate s)(g := (gt_gate s g)\<lparr>tg_token := False\<rparr>),
      gt_phase := (gt_phase s)(p := Holding target g)\<rparr>)"
| cancel: "gt_phase s p = Waiting target g \<Longrightarrow>
    gate_step s ((releaseTargetRef target g s)\<lparr>gt_phase := (gt_phase s)(p := Idle)\<rparr>)"
| release: "gt_phase s p = Holding target g \<Longrightarrow>
    gate_step s (s\<lparr>gt_gate := (gt_gate s)(g := (gt_gate s g)\<lparr>tg_token := True\<rparr>),
      gt_phase := (gt_phase s)(p := Releasing target g)\<rparr>)"
| drop: "gt_phase s p = Releasing target g \<Longrightarrow>
    gate_step s ((releaseTargetRef target g s)\<lparr>gt_phase := (gt_phase s)(p := Idle)\<rparr>)"

inductive gate_reach :: "gates \<Rightarrow> bool" where
  init: "gate_reach NewInFlight"
| step: "gate_reach s \<Longrightarrow> gate_step s s' \<Longrightarrow> gate_reach s'"

section \<open>Invariant\<close>

fun gate_of :: "phase \<Rightarrow> (string \<times> nat) option" where
  "gate_of Idle = None"
| "gate_of (Waiting t g) = Some (t, g)"
| "gate_of (Holding t g) = Some (t, g)"
| "gate_of (Releasing t g) = Some (t, g)"

definition users :: "gates \<Rightarrow> nat \<Rightarrow> nat set" where
  "users s g = {p. \<exists>t. gate_of (gt_phase s p) = Some (t, g)}"

definition holders :: "gates \<Rightarrow> nat \<Rightarrow> nat set" where
  "holders s g = {p. \<exists>t. gt_phase s p = Holding t g}"

definition gates_inv :: "gates \<Rightarrow> bool" where
  "gates_inv s \<longleftrightarrow> finite {p. gt_phase s p \<noteq> Idle} \<and>
     (\<forall>p t g. gate_of (gt_phase s p) = Some (t, g) \<longrightarrow> gt_targets s t = Some g) \<and>
     (\<forall>t g. gt_targets s t = Some g \<longrightarrow> g < gt_next s \<and> tg_refs (gt_gate s g) = card (users s g) \<and>
        users s g \<noteq> {} \<and>
        (tg_token (gt_gate s g) \<longleftrightarrow> holders s g = {}) \<and> card (holders s g) \<le> 1) \<and>
     (\<forall>t u g. gt_targets s t = Some g \<longrightarrow> gt_targets s u = Some g \<longrightarrow> t = u)"

lemma gate_of_Some_iff: "gate_of ph = Some (t, g) \<longleftrightarrow> ph = Waiting t g \<or> ph = Holding t g \<or> ph = Releasing t g"
  by (cases ph) auto

lemma users_subset: "users s g \<subseteq> {p. gt_phase s p \<noteq> Idle}"
  by (auto simp: users_def)

lemma finite_users: "gates_inv s \<Longrightarrow> finite (users s g)"
  by (rule finite_subset [OF users_subset]) (simp add: gates_inv_def)

lemma holders_subset: "holders s g \<subseteq> users s g"
  by (auto simp: holders_def users_def)

lemma gates_invD:
  assumes "gates_inv s"
  shows "finite {p. gt_phase s p \<noteq> Idle}"
    "gate_of (gt_phase s p) = Some (t, g) \<Longrightarrow> gt_targets s t = Some g"
    "gt_targets s t = Some g \<Longrightarrow> g < gt_next s"
    "gt_targets s t = Some g \<Longrightarrow> tg_refs (gt_gate s g) = card (users s g)"
    "gt_targets s t = Some g \<Longrightarrow> users s g \<noteq> {}"
    "gt_targets s t = Some g \<Longrightarrow> tg_token (gt_gate s g) \<longleftrightarrow> holders s g = {}"
    "gt_targets s t = Some g \<Longrightarrow> card (holders s g) \<le> 1"
    "gt_targets s t = Some g \<Longrightarrow> gt_targets s u = Some g \<Longrightarrow> t = u"
  using assms unfolding gates_inv_def by blast+

text \<open>How the two sets move when one goroutine changes phase.\<close>

lemma users_upd:
  "gt_phase s' = (gt_phase s)(p := ph) \<Longrightarrow>
   users s' g = (if \<exists>t. gate_of ph = Some (t, g) then insert p (users s g) else users s g - {p})"
  by (auto simp: users_def split: if_splits)

lemma holders_upd:
  "gt_phase s' = (gt_phase s)(p := ph) \<Longrightarrow>
   holders s' g = (if \<exists>t. ph = Holding t g then insert p (holders s g) else holders s g - {p})"
  by (auto simp: holders_def split: if_splits)

lemma gates_invI:
  assumes "gates_inv s" and ph: "gt_phase s' = (gt_phase s)(p := ph)"
    and "\<And>q t g. gate_of (gt_phase s' q) = Some (t, g) \<Longrightarrow> gt_targets s' t = Some g"
    and "\<And>t g. gt_targets s' t = Some g \<Longrightarrow> g < gt_next s' \<and> tg_refs (gt_gate s' g) = card (users s' g) \<and>
        users s' g \<noteq> {} \<and> (tg_token (gt_gate s' g) \<longleftrightarrow> holders s' g = {}) \<and> card (holders s' g) \<le> 1"
    and "\<And>t u g. gt_targets s' t = Some g \<Longrightarrow> gt_targets s' u = Some g \<Longrightarrow> t = u"
  shows "gates_inv s'"
proof -
  have "{q. gt_phase s' q \<noteq> Idle} \<subseteq> insert p {q. gt_phase s q \<noteq> Idle}" by (auto simp: ph)
  then have "finite {q. gt_phase s' q \<noteq> Idle}"
    by (rule finite_subset) (simp add: gates_invD(1) [OF assms(1)])
  with assms(3-5) show ?thesis unfolding gates_inv_def by blast
qed

section \<open>Preservation\<close>

lemma enter_inv:
  assumes inv: "gates_inv s" and idle: "gt_phase s p = Idle" and acq: "acquire_ref target s = (g, s')"
  shows "gates_inv (s'\<lparr>gt_phase := (gt_phase s)(p := Waiting target g)\<rparr>)" (is "gates_inv ?s")
proof -
  have ph: "gt_phase ?s = (gt_phase s)(p := Waiting target g)" by simp
  have p: "p \<notin> users s h" "p \<notin> holders s h" for h using idle by (auto simp: users_def holders_def)
  have us: "users ?s h = (if h = g then insert p (users s h) else users s h)" for h
    using users_upd [OF ph, of h] p by auto
  have ho: "holders ?s h = holders s h" for h using holders_upd [OF ph, of h] p by auto
  show ?thesis
  proof (cases "gt_targets s target")
    case (Some h)
    with acq have g: "g = h" "gt_targets s' = gt_targets s" "gt_next s' = gt_next s"
      "gt_gate s' = (gt_gate s)(g := (gt_gate s g)\<lparr>tg_refs := tg_refs (gt_gate s g) + 1\<rparr>)"
      by (auto simp: acquire_ref_def)
    note D = gates_invD [OF inv]
    have fin: "finite (users s g)" by (rule finite_users [OF inv])
    show ?thesis
    proof (rule gates_invI [OF inv ph])
      fix q t k assume "gate_of (gt_phase ?s q) = Some (t, k)"
      then show "gt_targets ?s t = Some k"
        using Some D(2) [of q t k] g(1) by (cases "q = p") (auto simp: g(2))
    next
      fix t k assume "gt_targets ?s t = Some k"
      then have "gt_targets s t = Some k" using g(2) by simp
      then show "k < gt_next ?s \<and> tg_refs (gt_gate ?s k) = card (users ?s k) \<and> users ?s k \<noteq> {} \<and>
          (tg_token (gt_gate ?s k) \<longleftrightarrow> holders ?s k = {}) \<and> card (holders ?s k) \<le> 1"
        using D(3-7) [of t k] fin p(1) [of g] by (auto simp: us ho g(3,4))
    next
      show "\<And>t u k. gt_targets ?s t = Some k \<Longrightarrow> gt_targets ?s u = Some k \<Longrightarrow> t = u"
        using D(8) by (simp add: g(2))
    qed
  next
    case None
    with acq have g: "g = gt_next s" "gt_targets s' = (gt_targets s)(target \<mapsto> g)" "gt_next s' = g + 1"
      "gt_gate s' = (gt_gate s)(g := \<lparr>tg_token = True, tg_refs = 1\<rparr>)"
      by (auto simp: acquire_ref_def)
    note D = gates_invD [OF inv]
    have none: "users s g = {}"
      using D(2,3) g(1) by (fastforce simp: users_def)
    then have hnone: "holders s g = {}" using holders_subset [of s g] by simp
    show ?thesis
    proof (rule gates_invI [OF inv ph])
      fix q t k assume q: "gate_of (gt_phase ?s q) = Some (t, k)"
      show "gt_targets ?s t = Some k"
      proof (cases "q = p")
        case True
        with q show ?thesis by (simp add: g(2))
      next
        case False
        with q D(2) [of q t k] None show ?thesis by (auto simp: g(2))
      qed
    next
      fix t k assume t: "gt_targets ?s t = Some k"
      show "k < gt_next ?s \<and> tg_refs (gt_gate ?s k) = card (users ?s k) \<and> users ?s k \<noteq> {} \<and>
          (tg_token (gt_gate ?s k) \<longleftrightarrow> holders ?s k = {}) \<and> card (holders ?s k) \<le> 1"
      proof (cases "t = target")
        case True
        with t have "k = g" by (simp add: g(2))
        then show ?thesis using none hnone by (simp add: us ho g(3,4))
      next
        case False
        with t have tk: "gt_targets s t = Some k" by (simp add: g(2))
        then have k: "k < g" using D(3) unfolding g(1) by blast
        then have uk: "users ?s k = users s k" using us [of k] by simp
        show ?thesis unfolding uk ho using D(4-7) [OF tk] k by (simp add: g(3,4))
      qed
    next
      fix t u k assume "gt_targets ?s t = Some k" "gt_targets ?s u = Some k"
      then show "t = u"
        using D(3) [of t k] D(3) [of u k] D(8) [of t k u] g(1) by (auto simp: g(2) split: if_splits)
    qed
  qed
qed

lemma token_inv:
  assumes inv: "gates_inv s" and ph: "gate_of (gt_phase s p) = Some (target, g)" "gate_of ph' = Some (target, g)"
    and tok: "b \<longleftrightarrow> holders (s\<lparr>gt_phase := (gt_phase s)(p := ph')\<rparr>) g = {}"
      "card (holders (s\<lparr>gt_phase := (gt_phase s)(p := ph')\<rparr>) g) \<le> 1"
  shows "gates_inv (s\<lparr>gt_gate := (gt_gate s)(g := (gt_gate s g)\<lparr>tg_token := b\<rparr>), gt_phase := (gt_phase s)(p := ph')\<rparr>)"
    (is "gates_inv ?s")
proof -
  have phs: "gt_phase ?s = (gt_phase s)(p := ph')" by simp
  have us: "users ?s h = users s h" for h
    using ph by (auto simp: users_def)
  have ho: "holders ?s h = holders s h" if "h \<noteq> g" for h
    using that ph by (auto simp: holders_def gate_of_Some_iff)
  have hg: "holders ?s g = holders (s\<lparr>gt_phase := (gt_phase s)(p := ph')\<rparr>) g" by (simp add: holders_def)
  note D = gates_invD [OF inv]
  show ?thesis
  proof (rule gates_invI [OF inv phs])
    fix q t k assume "gate_of (gt_phase ?s q) = Some (t, k)"
    then show "gt_targets ?s t = Some k" using ph D(2) [of q t k] D(2) [of p target g] by (cases "q = p") auto
  next
    fix t k assume "gt_targets ?s t = Some k"
    then have "gt_targets s t = Some k" by simp
    from D(3-7) [OF this] ho [of k] hg tok
    show "k < gt_next ?s \<and> tg_refs (gt_gate ?s k) = card (users ?s k) \<and> users ?s k \<noteq> {} \<and>
          (tg_token (gt_gate ?s k) \<longleftrightarrow> holders ?s k = {}) \<and> card (holders ?s k) \<le> 1"
      unfolding us by (cases "k = g") simp_all
  next
    fix t u k assume "gt_targets ?s t = Some k" "gt_targets ?s u = Some k"
    with D(8) [of t k u] show "t = u" by simp
  qed
qed

lemma drop_inv:
  assumes inv: "gates_inv s" and ph: "gt_phase s p = Waiting target g \<or> gt_phase s p = Releasing target g"
  shows "gates_inv ((releaseTargetRef target g s)\<lparr>gt_phase := (gt_phase s)(p := Idle)\<rparr>)" (is "gates_inv ?s")
proof -
  note D = gates_invD [OF inv]
  have phs: "gt_phase ?s = (gt_phase s)(p := Idle)" by simp
  have gp: "gate_of (gt_phase s p) = Some (target, g)" using ph by (auto simp: gate_of_Some_iff)
  have tg: "gt_targets s target = Some g" by (rule D(2) [OF gp])
  have us: "users ?s h = users s h - {p}" for h using users_upd [OF phs, of h] by simp
  have ho: "holders ?s h = holders s h" for h using holders_upd [OF phs, of h] ph by (auto simp: holders_def)
  have pu: "p \<in> users s g" using gp by (auto simp: users_def)
  have other: "p \<notin> users s h" if "h \<noteq> g" for h using gp that by (auto simp: users_def)
  have refs: "tg_refs (gt_gate s g) - 1 = card (users ?s g)"
    using D(4) [OF tg] pu finite_users [OF inv, of g] unfolding us by simp
  define gone where "gone \<longleftrightarrow> users ?s g = {}"
  have zero: "tg_refs (gt_gate s g) - 1 = 0 \<longleftrightarrow> gone"
    unfolding refs gone_def using finite_users [OF inv, of g] us by simp
  have tgs: "gt_targets ?s = (if gone then (gt_targets s)(target := None) else gt_targets s)"
    using zero tg by (simp add: releaseTargetRef_def Let_def)
  have gts: "gt_gate ?s = (gt_gate s)(g := (gt_gate s g)\<lparr>tg_refs := card (users ?s g)\<rparr>)" "gt_next ?s = gt_next s"
    using refs by (simp_all add: releaseTargetRef_def Let_def)
  show ?thesis
  proof (rule gates_invI [OF inv phs])
    fix q t k assume q: "gate_of (gt_phase ?s q) = Some (t, k)"
    then have qp: "q \<noteq> p" "gate_of (gt_phase s q) = Some (t, k)" by (auto split: if_splits)
    have tk: "gt_targets s t = Some k" by (rule D(2) [OF qp(2)])
    have "\<not> gone" if "t = target"
    proof -
      have "k = g" using tk tg that by simp
      with qp have "q \<in> users ?s g" unfolding us by (auto simp: users_def)
      then show ?thesis by (auto simp: gone_def)
    qed
    with tk show "gt_targets ?s t = Some k" unfolding tgs by auto
  next
    fix t k assume "gt_targets ?s t = Some k"
    then have tk: "gt_targets s t = Some k" and ng: "t = target \<Longrightarrow> \<not> gone" unfolding tgs by (auto split: if_splits)
    have kg: "k = g \<Longrightarrow> t = target" using D(8) [OF tk, of target] tg by simp
    show "k < gt_next ?s \<and> tg_refs (gt_gate ?s k) = card (users ?s k) \<and> users ?s k \<noteq> {} \<and>
          (tg_token (gt_gate ?s k) \<longleftrightarrow> holders ?s k = {}) \<and> card (holders ?s k) \<le> 1"
    proof (cases "k = g")
      case True
      with kg ng have "users ?s g \<noteq> {}" by (simp add: gone_def)
      with True D(3,6,7) [OF tk] show ?thesis by (simp add: gts ho)
    next
      case False
      with D(3-7) [OF tk] other [OF False] show ?thesis by (simp add: gts ho us)
    qed
  next
    fix t u k assume "gt_targets ?s t = Some k" "gt_targets ?s u = Some k"
    then show "t = u" using D(8) [of t k u] unfolding tgs by (auto split: if_splits)
  qed
qed

lemma gate_step_inv: "gate_step s s' \<Longrightarrow> gates_inv s \<Longrightarrow> gates_inv s'"
proof (induction rule: gate_step.induct)
  case (enter s p target g s')
  then show ?case by (intro enter_inv)
next
  case (take s p target g)
  let ?s1 = "s\<lparr>gt_phase := (gt_phase s)(p := Holding target g)\<rparr>"
  have tg: "gt_targets s target = Some g" using gates_invD(2) [OF take.prems, of p target g] take by simp
  have "holders s g = {}" using gates_invD(6) [OF take.prems tg] take by simp
  then have "holders ?s1 g = {p}" using holders_upd [of ?s1 s p "Holding target g" g] by simp
  with take show ?case by (intro token_inv) simp_all
next
  case (release s p target g)
  let ?s1 = "s\<lparr>gt_phase := (gt_phase s)(p := Releasing target g)\<rparr>"
  have tg: "gt_targets s target = Some g" using gates_invD(2) [OF release.prems, of p target g] release by simp
  have c: "card (holders s g) \<le> 1" by (rule gates_invD(7) [OF release.prems tg])
  have p: "p \<in> holders s g" using release by (auto simp: holders_def)
  have fin: "finite (holders s g)"
    using holders_subset finite_users [OF release.prems] by (rule finite_subset)
  have "\<forall>q \<in> holders s g. q = p" using c p by (simp add: card_le_Suc0_iff_eq [OF fin])
  with p have "holders s g = {p}" by blast
  then have "holders ?s1 g = {}" using holders_upd [of ?s1 s p "Releasing target g" g] by simp
  with release show ?case by (intro token_inv) simp_all
qed (auto intro: drop_inv)

lemma gate_reach_inv: "gate_reach s \<Longrightarrow> gates_inv s"
proof (induction rule: gate_reach.induct)
  case init
  show ?case by (simp add: gates_inv_def NewInFlight_def)
qed (rule gate_step_inv)

section \<open>Properties\<close>

text \<open>
  C21: the target gates exclude each other and do not leak.  In every reachable state, whatever the
  interleaving of entries, cancellations and releases, at most one goroutine holds the gate of a
  target; when nobody holds it and somebody waits, the token is there to be taken; and a gate stays
  in the table exactly as long as some goroutine uses it.
\<close>

theorem target_gates_exclusive:
  assumes "gate_reach s"
  shows "(\<forall>p q t g h. gt_phase s p = Holding t g \<longrightarrow> gt_phase s q = Holding t h \<longrightarrow> p = q) \<and>
    (\<forall>p t g. gt_phase s p = Waiting t g \<longrightarrow> (\<forall>q h. gt_phase s q \<noteq> Holding t h) \<longrightarrow> tg_token (gt_gate s g)) \<and>
    (\<forall>t. gt_targets s t \<noteq> None \<longleftrightarrow> (\<exists>p g. gate_of (gt_phase s p) = Some (t, g)))"
proof (intro conjI allI impI)
  note inv = gate_reach_inv [OF assms]
  note D = gates_invD [OF inv]
  fix p q t g h assume p: "gt_phase s p = Holding t g" and q: "gt_phase s q = Holding t h"
  have "gt_targets s t = Some g" "gt_targets s t = Some h" using D(2) [of p t g] D(2) [of q t h] p q by simp_all
  then have h: "h = g" "card (holders s g) \<le> 1" using D(7) by simp_all
  have "p \<in> holders s g" "q \<in> holders s g" using p q h by (auto simp: holders_def)
  moreover have "finite (holders s g)" using holders_subset finite_users [OF inv] by (rule finite_subset)
  ultimately show "p = q" using h(2) by (simp add: card_le_Suc0_iff_eq)
next
  note D = gates_invD [OF gate_reach_inv [OF assms]]
  fix p t g assume p: "gt_phase s p = Waiting t g" and none: "\<forall>q h. gt_phase s q \<noteq> Holding t h"
  have tg: "gt_targets s t = Some g" using D(2) [of p t g] p by simp
  have "holders s g = {}"
  proof (rule ccontr)
    assume "holders s g \<noteq> {}"
    then obtain q u where q: "gt_phase s q = Holding u g" by (auto simp: holders_def)
    then have "gt_targets s u = Some g" using D(2) [of q u g] by simp
    with D(8) [OF tg] q none show False by blast
  qed
  with D(6) [OF tg] show "tg_token (gt_gate s g)" by simp
next
  note D = gates_invD [OF gate_reach_inv [OF assms]]
  fix t
  show "gt_targets s t \<noteq> None \<longleftrightarrow> (\<exists>p g. gate_of (gt_phase s p) = Some (t, g))"
  proof
    assume "gt_targets s t \<noteq> None"
    then obtain g where tg: "gt_targets s t = Some g" by blast
    then obtain p u where p: "gate_of (gt_phase s p) = Some (u, g)" using D(5) [OF tg] by (auto simp: users_def)
    have "u = t" by (rule D(8) [OF D(2) [OF p] tg])
    with p show "\<exists>p g. gate_of (gt_phase s p) = Some (t, g)" by blast
  qed (auto dest: D(2))
qed

definition ex_gates :: gates where
  "ex_gates = (snd (acquire_ref ''discord:dm:7'' NewInFlight))
     \<lparr>gt_phase := (gt_phase NewInFlight)(5 := Waiting ''discord:dm:7'' 0)\<rparr>"

lemma ex_gate_reach: "gate_reach ex_gates"
proof -
  have "gate_step NewInFlight ex_gates"
    unfolding ex_gates_def by (rule gate_step.enter) (simp_all add: NewInFlight_def acquire_ref_def)
  from gate_reach.step [OF gate_reach.init this] show ?thesis .
qed

theorem target_gates_exclusive_witness: "gt_phase ex_gates 5 = Waiting ''discord:dm:7'' 0 \<and> tg_token (gt_gate ex_gates 0)"
proof
  show w: "gt_phase ex_gates 5 = Waiting ''discord:dm:7'' 0" by (simp add: ex_gates_def)
  have "\<forall>q h. gt_phase ex_gates q \<noteq> Holding ''discord:dm:7'' h" by (simp add: ex_gates_def NewInFlight_def)
  with w target_gates_exclusive [OF ex_gate_reach] show "tg_token (gt_gate ex_gates 0)" by blast
qed

end
