(* ===== verification/Recovery.thy ===== *)
theory Recovery
  imports Delivery
begin

text \<open>
  What becomes of the event of a failed turn: \<open>src/internal/recovery/recovery.go\<close>.  The store
  calls that may fail, the clock and \<open>rv_gap\<close>, what other goroutines commit between the read of
  the tool journal and the writes that follow, are one record.  A result carries the outcome (or no
  outcome, where the code returns an error), the database, the timer armed for the retry and whether
  the pump was woken.
\<close>

section \<open>Operations\<close>

datatype Outcome = Retried | Parked | DeadLettered

record rec_env =
  rv_journal_fails :: bool
  rv_gap :: "db \<Rightarrow> db"
  rv_requeue_fails :: bool
  rv_readback_fails :: bool
  rv_dead_fails :: bool
  rv_park_fails :: bool
  rv_surface :: "surface_call \<Rightarrow> bool"
  rv_now :: int

record rec_result =
  rr_out :: "Outcome option"
  rr_db :: db
  rr_timer :: "(int \<times> QueuedEvent) option"
  rr_notify :: bool

definition rec_error :: "db \<Rightarrow> rec_result" where
  "rec_error d = \<lparr>rr_out = None, rr_db = d, rr_timer = None, rr_notify = False\<rparr>"

text \<open>Seconds.\<close>

definition backoff :: "int list" where "backoff = [30, 120]"

definition safeToRetry :: "ToolAttempt list \<Rightarrow> bool" where
  "safeToRetry attempts = list_all (\<lambda>a. TA_IdempotencyKey a \<noteq> []) attempts"

definition park :: "rec_env \<Rightarrow> QueuedEvent \<Rightarrow> db \<Rightarrow> rec_result" where
  "park env ev d =
     (if rv_park_fails env then rec_error d
      else
        let d1 = ParkEvent (Q_ID ev) (rv_now env) d in
        case SurfaceInterruptedCoordinated (rv_surface env) ev d1 of
          Inl _ \<Rightarrow> \<lparr>rr_out = Some Parked, rr_db = d1, rr_timer = None, rr_notify = False\<rparr>
        | Inr d2 \<Rightarrow> \<lparr>rr_out = Some Parked, rr_db = d2, rr_timer = None, rr_notify = True\<rparr>)"

definition deadLetter :: "rec_env \<Rightarrow> QueuedEvent \<Rightarrow> db \<Rightarrow> rec_result" where
  "deadLetter env ev d =
     (case (if rv_dead_fails env then Inl ErrDriver
            else DeadLetterEvent (Q_ID ev) ''retries-exhausted'' (rv_now env) d) of
        Inl _ \<Rightarrow> park env ev d
      | Inr d1 \<Rightarrow>
          (case SurfaceDeadLetterCoordinated (rv_surface env) ev d1 of
             Inl _ \<Rightarrow> \<lparr>rr_out = Some DeadLettered, rr_db = d1, rr_timer = None, rr_notify = False\<rparr>
           | Inr d2 \<Rightarrow> \<lparr>rr_out = Some DeadLettered, rr_db = d2, rr_timer = None, rr_notify = True\<rparr>))"

definition retry_delay :: "rec_env \<Rightarrow> QueuedEvent \<Rightarrow> db \<Rightarrow> int" where
  "retry_delay env ev d =
     (case (if rv_readback_fails env then None else event_by_id (Q_ID ev) d) of
        None \<Rightarrow> last backoff
      | Some r \<Rightarrow>
          if 1 \<le> ev_attempts r \<and> ev_attempts r \<le> int (length backoff) then backoff ! nat (ev_attempts r - 1)
          else last backoff)"

definition HandleEngineFailure :: "rec_env \<Rightarrow> QueuedEvent \<Rightarrow> db \<Rightarrow> rec_result" where
  "HandleEngineFailure env ev d =
     (if rv_journal_fails env then rec_error d
      else
        let attempts = AttemptsForEvent (Q_ID ev) d; d1 = rv_gap env d in
        if \<not> safeToRetry attempts then park env ev d1
        else
          case (if rv_requeue_fails env then Inl ErrDriver else RequeueEventForRetry (Q_ID ev) (rv_now env) d1) of
            Inl e \<Rightarrow>
              if e = ErrRetryBudgetExhausted then deadLetter env ev d1
              else if e = ErrSideEffectingAttempt then park env ev d1
              else rec_error d1
          | Inr d2 \<Rightarrow>
              \<lparr>rr_out = Some Retried, rr_db = d2,
               rr_timer = Some (retry_delay env ev d2, ev\<lparr>Q_Status := Received\<rparr>), rr_notify = False\<rparr>)"

definition ParkAmbiguous :: "rec_env \<Rightarrow> QueuedEvent \<Rightarrow> db \<Rightarrow> rec_result" where
  "ParkAmbiguous = park"

section \<open>Landings\<close>

text \<open>The state of an event by id, as the store shows it.\<close>

definition status_of :: "int \<Rightarrow> db \<Rightarrow> ev_status option" where
  "status_of i d = map_option ev_status (event_by_id i d)"

lemma event_by_id_update:
  assumes "wf_db d" and e: "e \<in> set (events d)" "ev_id e = i" "P e" and "\<And>r. ev_id (f r) = ev_id r"
  shows "event_by_id i (d\<lparr>events := sql_update P f (events d)\<rparr>) = Some (f e)"
proof -
  have "find (\<lambda>r. ev_id r = i) (sql_update P f t) = map_option (\<lambda>r. if P r then f r else r) (find (\<lambda>r. ev_id r = i) t)" for t
    by (induction t) (simp_all add: sql_simps assms(5))
  with event_by_id_eq [OF assms(1) e(1)] e show ?thesis by (simp add: event_by_id_def)
qed

lemma surface_events:
  "SurfaceInterruptedCoordinated fails ev d = Inr d' \<Longrightarrow> events d' = events d \<and> dead_letters d' = dead_letters d"
  "SurfaceDeadLetterCoordinated fails ev d = Inr d' \<Longrightarrow> events d' = events d \<and> dead_letters d' = dead_letters d"
  using surface_insert(1) [of fails ev d d'] surface_insert(2) [of fails ev d d'] by auto

lemma park_lands:
  assumes "wf_db d" and e: "e \<in> set (events d)" "ev_id e = Q_ID ev" "ev_status e \<in> {Received, Processing}"
    and "\<not> rv_park_fails env"
  shows "rr_out (park env ev d) = Some Parked \<and> rr_timer (park env ev d) = None \<and>
    event_by_id (Q_ID ev) (rr_db (park env ev d)) =
      Some (e\<lparr>ev_status := Interrupted, ev_updated := Some (rv_now env), ev_parks := ev_parks e + 1\<rparr>)"
proof -
  let ?d1 = "ParkEvent (Q_ID ev) (rv_now env) d"
  have "event_by_id (Q_ID ev) ?d1 =
      Some (e\<lparr>ev_status := Interrupted, ev_updated := Some (rv_now env), ev_parks := ev_parks e + 1\<rparr>)"
    unfolding ParkEvent_eq by (rule event_by_id_update [OF assms(1) e(1,2)]) (use e in auto)
  moreover have "event_by_id i d' = event_by_id i ?d1" if "SurfaceInterruptedCoordinated (rv_surface env) ev ?d1 = Inr d'" for i d'
    using surface_events(1) [OF that] by (simp add: event_by_id_def)
  ultimately show ?thesis using assms(5) by (simp add: park_def Let_def split: sum.splits)
qed

lemma deadLetter_lands:
  assumes "wf_db d" and e: "e \<in> set (events d)" "ev_id e = Q_ID ev" "ev_status e = Processing"
    and "\<not> rv_dead_fails env"
  shows "rr_out (deadLetter env ev d) = Some DeadLettered \<and> rr_timer (deadLetter env ev d) = None \<and>
    event_by_id (Q_ID ev) (rr_db (deadLetter env ev d)) =
      Some (e\<lparr>ev_status := Dead, ev_updated := Some (rv_now env)\<rparr>) \<and>
    (\<exists>x \<in> set (dead_letters (rr_db (deadLetter env ev d))). dl_event_id x = Q_ID ev \<and> dl_resolution x = None)"
proof -
  let ?P = "\<lambda>r. ev_id r = Q_ID ev \<and> ev_status r \<in> {Processing, Interrupted}"
  let ?f = "\<lambda>r. r\<lparr>ev_status := Dead, ev_updated := Some (rv_now env)\<rparr>"
  let ?t = "upsert_dead (Q_ID ev) ''retries-exhausted'' (rv_now env) (dead_letters d)"
  define d1 where "d1 = d\<lparr>events := sql_update ?P ?f (events d), dead_letters := ?t\<rparr>"
  have "rows_affected ?P (events d) \<noteq> 0" using e by (auto simp: rows_affected_0)
  then have dl: "DeadLetterEvent (Q_ID ev) ''retries-exhausted'' (rv_now env) d = Inr d1"
    by (simp add: DeadLetterEvent_def dead_reasons_def exec_defs d1_def del: rows_affected_0)
  have "event_by_id (Q_ID ev) (d\<lparr>events := sql_update ?P ?f (events d)\<rparr>) = Some (?f e)"
    by (rule event_by_id_update [OF assms(1) e(1,2)]) (use e in auto)
  then have by_id: "event_by_id (Q_ID ev) d1 = Some (?f e)" by (simp add: event_by_id_def d1_def)
  have x: "\<exists>x \<in> set (dead_letters d1). dl_event_id x = Q_ID ev \<and> dl_resolution x = None"
    using upsert_dead_new by (simp add: d1_def)
  have same: "event_by_id i d' = event_by_id i d1 \<and> dead_letters d' = dead_letters d1"
    if "SurfaceDeadLetterCoordinated (rv_surface env) ev d1 = Inr d'" for i d'
    using surface_events(2) [OF that] by (simp add: event_by_id_def)
  show ?thesis
  proof (cases "SurfaceDeadLetterCoordinated (rv_surface env) ev d1")
    case (Inl a)
    have "deadLetter env ev d = \<lparr>rr_out = Some DeadLettered, rr_db = d1, rr_timer = None, rr_notify = False\<rparr>"
      using assms(5) by (simp add: deadLetter_def dl Inl)
    then show ?thesis using by_id x by simp
  next
    case (Inr d')
    have "deadLetter env ev d = \<lparr>rr_out = Some DeadLettered, rr_db = d', rr_timer = None, rr_notify = True\<rparr>"
      using assms(5) by (simp add: deadLetter_def dl Inr)
    then show ?thesis using by_id x same [OF Inr] by simp
  qed
qed

lemma Requeue_errors:
  assumes "wf_db d" and e: "e \<in> set (events d)" "ev_id e = i" "ev_status e = Processing"
  shows "RequeueEventForRetry i now d =
    (if ev_attempts e \<ge> maxEventRetries then Inl ErrRetryBudgetExhausted
     else if unkeyed_attempt i d then Inl ErrSideEffectingAttempt
     else Inr (d\<lparr>events := sql_update
       (\<lambda>r. ev_id r = i \<and> ev_status r = Processing \<and> ev_attempts r < maxEventRetries)
       (\<lambda>r. r\<lparr>ev_status := Received, ev_attempts := ev_attempts r + 1, ev_updated := Some now\<rparr>) (events d)\<rparr>))"
proof -
  have by_id: "event_by_id i d = Some e" using event_by_id_eq [OF assms(1) e(1)] e(2) by simp
  have uniq: "\<forall>q \<in> set (events d). ev_id q = i \<longrightarrow> q = e"
    using wf_event_unique [OF assms(1) _ e(1)] e(2) by simp
  let ?G = "\<lambda>r. ev_id r = i \<and> ev_status r = Processing \<and> ev_attempts r < maxEventRetries \<and> \<not> unkeyed_attempt i d"
  have zero: "rows_affected ?G (events d) = 0 \<longleftrightarrow> \<not> (ev_attempts e < maxEventRetries \<and> \<not> unkeyed_attempt i d)"
    unfolding rows_affected_0 using uniq e by blast
  show ?thesis
  proof (cases "ev_attempts e < maxEventRetries \<and> \<not> unkeyed_attempt i d")
    case True
    then have "rows_affected ?G (events d) \<noteq> 0" using zero by simp
    with True show ?thesis by (simp add: RequeueEventForRetry_def exec_defs del: rows_affected_0)
  next
    case False
    then have "rows_affected ?G (events d) = 0" using zero by simp
    with False by_id e(3) show ?thesis
      by (simp add: RequeueEventForRetry_def exec_defs del: rows_affected_0)
  qed
qed

lemma HandleEngineFailure_lands:
  assumes wf: "wf_db (rv_gap env d)" and e: "e \<in> set (events (rv_gap env d))" "ev_id e = Q_ID ev" "ev_status e = Processing"
    and ok: "\<not> rv_journal_fails env" "\<not> rv_requeue_fails env" "\<not> rv_park_fails env"
  shows "case rr_out (HandleEngineFailure env ev d) of
      None \<Rightarrow> False
    | Some Retried \<Rightarrow> status_of (Q_ID ev) (rr_db (HandleEngineFailure env ev d)) = Some Received \<and>
        rr_timer (HandleEngineFailure env ev d) \<noteq> None
    | Some Parked \<Rightarrow>
        event_by_id (Q_ID ev) (rr_db (HandleEngineFailure env ev d)) = Some (e\<lparr>ev_status := Interrupted,
          ev_updated := Some (rv_now env), ev_parks := ev_parks e + 1\<rparr>)
    | Some DeadLettered \<Rightarrow> status_of (Q_ID ev) (rr_db (HandleEngineFailure env ev d)) = Some Dead \<and> ev_attempts e = 2 \<and>
        (\<exists>x \<in> set (dead_letters (rr_db (HandleEngineFailure env ev d))). dl_event_id x = Q_ID ev \<and> dl_resolution x = None)"
proof -
  let ?d1 = "rv_gap env d" and ?H = "HandleEngineFailure env ev d"
  note park = park_lands [OF wf e(1,2) _ ok(3)]
  have att: "ev_attempts e \<ge> maxEventRetries \<Longrightarrow> ev_attempts e = 2"
    using wf_event_inv [OF wf e(1)] by (simp add: event_inv_def maxEventRetries_def)
  consider (unsafe) "?H = park env ev ?d1" | (budget) "ev_attempts e \<ge> maxEventRetries" "?H = deadLetter env ev ?d1"
    | (retry) d2 where "RequeueEventForRetry (Q_ID ev) (rv_now env) ?d1 = Inr d2"
        "?H = \<lparr>rr_out = Some Retried, rr_db = d2,
          rr_timer = Some (retry_delay env ev d2, ev\<lparr>Q_Status := Received\<rparr>), rr_notify = False\<rparr>"
  proof (cases "safeToRetry (AttemptsForEvent (Q_ID ev) d)")
    case False
    then have "?H = park env ev ?d1" using ok(1) by (simp add: HandleEngineFailure_def Let_def)
    then show ?thesis by (rule that(1))
  next
    case safe: True
    show ?thesis
    proof (cases "RequeueEventForRetry (Q_ID ev) (rv_now env) ?d1")
      case (Inl x)
      with Requeue_errors [OF wf e, of "rv_now env"]
      consider "x = ErrRetryBudgetExhausted" "ev_attempts e \<ge> maxEventRetries" | "x = ErrSideEffectingAttempt"
        by (simp split: if_splits)
      then show ?thesis
      proof cases
        case 1
        then have "?H = deadLetter env ev ?d1" using Inl safe ok(1,2) by (simp add: HandleEngineFailure_def Let_def)
        with 1(2) show ?thesis by (rule that(2))
      next
        case 2
        then have "?H = park env ev ?d1" using Inl safe ok(1,2) by (simp add: HandleEngineFailure_def Let_def)
        then show ?thesis by (rule that(1))
      qed
    next
      case (Inr d2)
      then show ?thesis using safe ok(1,2) by (intro that(3)) (simp_all add: HandleEngineFailure_def Let_def)
    qed
  qed
  then show ?thesis
  proof cases
    case unsafe
    then show ?thesis using park e(3) by simp
  next
    case budget
    show ?thesis
    proof (cases "rv_dead_fails env")
      case True
      then have "?H = park env ev ?d1" using budget(2) by (simp add: deadLetter_def)
      then show ?thesis using park e(3) by simp
    next
      case False
      with deadLetter_lands [OF wf e False] budget att show ?thesis by (simp add: status_of_def)
    qed
  next
    case (retry d2)
    from retry(1) obtain q where q: "q \<in> set (events ?d1)" "ev_id q = Q_ID ev" "ev_status q = Processing"
      "ev_attempts q < maxEventRetries"
      and d2: "d2 = ?d1\<lparr>events := sql_update
       (\<lambda>r. ev_id r = Q_ID ev \<and> ev_status r = Processing \<and> ev_attempts r < maxEventRetries)
       (\<lambda>r. r\<lparr>ev_status := Received, ev_attempts := ev_attempts r + 1, ev_updated := Some (rv_now env)\<rparr>) (events ?d1)\<rparr>"
      by (rule Requeue_InrE)
    have "event_by_id (Q_ID ev) d2 = Some (q\<lparr>ev_status := Received, ev_attempts := ev_attempts q + 1, ev_updated := Some (rv_now env)\<rparr>)"
      unfolding d2 by (rule event_by_id_update [OF wf q(1,2)]) (use q in auto)
    then show ?thesis using retry(2) by (simp add: status_of_def)
  qed
qed

section \<open>Properties\<close>

text \<open>
  C4: no retry on missing or ambiguous evidence.  When the event of a failed turn is retried, the
  tool journal was readable, at the moment of the requeue no attempt without an idempotency key was
  filed under the event (even one journalled after the judgment was made), the budget was not spent,
  and the row the store now holds is the same event in received with exactly one more attempt; the
  timer is armed for that event with 30 seconds for the first retry and 120 for the second.
\<close>

theorem no_blind_retry:
  assumes "wf_db (rv_gap env d)" and "rr_out (HandleEngineFailure env ev d) = Some Retried"
  shows "\<not> rv_journal_fails env \<and> safeToRetry (AttemptsForEvent (Q_ID ev) d) \<and>
    \<not> unkeyed_attempt (Q_ID ev) (rv_gap env d) \<and>
    (\<exists>e \<in> set (events (rv_gap env d)). ev_id e = Q_ID ev \<and> ev_status e = Processing \<and>
       ev_attempts e < 2 \<and>
       event_by_id (Q_ID ev) (rr_db (HandleEngineFailure env ev d)) =
         Some (e\<lparr>ev_status := Received, ev_attempts := ev_attempts e + 1, ev_updated := Some (rv_now env)\<rparr>) \<and>
       rr_timer (HandleEngineFailure env ev d) =
         Some (if \<not> rv_readback_fails env \<and> ev_attempts e = 0 then 30 else 120, ev\<lparr>Q_Status := Received\<rparr>))"
proof -
  let ?d1 = "rv_gap env d"
  have p: "rr_out (park env ev d1) \<noteq> Some Retried" "rr_out (deadLetter env ev d1) \<noteq> Some Retried"
    "rr_out (rec_error d1) \<noteq> Some Retried" for d1
    by (auto simp: park_def deadLetter_def rec_error_def Let_def split: sum.splits if_splits)
  from assms(2) p obtain d2 where j: "\<not> rv_journal_fails env" "safeToRetry (AttemptsForEvent (Q_ID ev) d)"
    and rq: "RequeueEventForRetry (Q_ID ev) (rv_now env) ?d1 = Inr d2"
    and res: "HandleEngineFailure env ev d = \<lparr>rr_out = Some Retried, rr_db = d2,
      rr_timer = Some (retry_delay env ev d2, ev\<lparr>Q_Status := Received\<rparr>), rr_notify = False\<rparr>"
    by (auto simp: HandleEngineFailure_def Let_def split: if_splits sum.splits)
  from rq obtain e where e: "e \<in> set (events ?d1)" "ev_id e = Q_ID ev" "ev_status e = Processing"
    "ev_attempts e < maxEventRetries" "\<not> unkeyed_attempt (Q_ID ev) ?d1"
    and d2: "d2 = ?d1\<lparr>events := sql_update
       (\<lambda>r. ev_id r = Q_ID ev \<and> ev_status r = Processing \<and> ev_attempts r < maxEventRetries)
       (\<lambda>r. r\<lparr>ev_status := Received, ev_attempts := ev_attempts r + 1, ev_updated := Some (rv_now env)\<rparr>) (events ?d1)\<rparr>"
    by (rule Requeue_InrE)
  let ?e = "e\<lparr>ev_status := Received, ev_attempts := ev_attempts e + 1, ev_updated := Some (rv_now env)\<rparr>"
  have by_id: "event_by_id (Q_ID ev) d2 = Some ?e"
    unfolding d2 by (rule event_by_id_update [OF assms(1) e(1,2)]) (use e in auto)
  have "0 \<le> ev_attempts e" using wf_event_inv [OF assms(1) e(1)] by (simp add: event_inv_def)
  with e(4) have "ev_attempts e = 0 \<or> ev_attempts e = 1" by (simp add: maxEventRetries_def) arith
  then have "retry_delay env ev d2 = (if \<not> rv_readback_fails env \<and> ev_attempts e = 0 then 30 else 120)"
    using by_id by (auto simp: retry_delay_def backoff_def)
  with res by_id j e show ?thesis by (auto simp: maxEventRetries_def)
qed

definition ex_rec_env :: rec_env where
  "ex_rec_env = \<lparr>rv_journal_fails = False, rv_gap = (\<lambda>d. d), rv_requeue_fails = False, rv_readback_fails = False,
     rv_dead_fails = False, rv_park_fails = False, rv_surface = (\<lambda>_. False), rv_now = 60\<rparr>"

definition ex_queued :: QueuedEvent where
  "ex_queued = scanQueuedEvent (ex_event 1 ''m1'' Processing)"

theorem no_blind_retry_witness:
  "rr_out (HandleEngineFailure ex_rec_env ex_queued ex_turn_db) = Some Retried \<and>
   \<not> unkeyed_attempt 1 ex_turn_db"
proof
  show r: "rr_out (HandleEngineFailure ex_rec_env ex_queued ex_turn_db) = Some Retried"
    by (simp add: HandleEngineFailure_def ex_rec_env_def ex_queued_def scanQueuedEvent_def AttemptsForEvent_def
        sql_select_def ex_defs empty_db_def safeToRetry_def RequeueEventForRetry_def exec_defs rows_affected_def
        unkeyed_attempt_def sql_exists_def maxEventRetries_def Let_def)
  have "wf_db (rv_gap ex_rec_env ex_turn_db)" using wf_ex_turn_db by (simp add: ex_rec_env_def)
  from no_blind_retry [OF this r] show "\<not> unkeyed_attempt 1 ex_turn_db"
    by (simp add: ex_rec_env_def ex_queued_def scanQueuedEvent_def ex_event_def)
qed

text \<open>
  C22: a failed turn lands.  For an event still processing when the writes happen, and as long as the
  journal can be read and the park and requeue writes do not fail, the outcome is one of the three and
  the store shows the event in the matching durable state: received and re-timed, interrupted with a
  new park generation, or dead with an unresolved dead letter; the budget alone sends it to the dead
  letters, and a failed dead-letter write falls back to a park.
\<close>

theorem engine_failure_lands:
  assumes wf: "wf_db (rv_gap env d)" and e: "e \<in> set (events (rv_gap env d))" "ev_id e = Q_ID ev" "ev_status e = Processing"
    and ok: "\<not> rv_journal_fails env" "\<not> rv_requeue_fails env" "\<not> rv_park_fails env"
  shows "case rr_out (HandleEngineFailure env ev d) of
      None \<Rightarrow> False
    | Some Retried \<Rightarrow> status_of (Q_ID ev) (rr_db (HandleEngineFailure env ev d)) = Some Received \<and>
        rr_timer (HandleEngineFailure env ev d) \<noteq> None
    | Some Parked \<Rightarrow>
        event_by_id (Q_ID ev) (rr_db (HandleEngineFailure env ev d)) = Some (e\<lparr>ev_status := Interrupted,
          ev_updated := Some (rv_now env), ev_parks := ev_parks e + 1\<rparr>)
    | Some DeadLettered \<Rightarrow> status_of (Q_ID ev) (rr_db (HandleEngineFailure env ev d)) = Some Dead \<and> ev_attempts e = 2 \<and>
        (\<exists>x \<in> set (dead_letters (rr_db (HandleEngineFailure env ev d))). dl_event_id x = Q_ID ev \<and> dl_resolution x = None)"
  by (rule HandleEngineFailure_lands [OF assms])

theorem engine_failure_lands_witness:
  "status_of 1 (rr_db (HandleEngineFailure ex_rec_env ex_queued ex_turn_db)) = Some Received"
proof -
  have wf: "wf_db (rv_gap ex_rec_env ex_turn_db)" using wf_ex_turn_db by (simp add: ex_rec_env_def)
  have e: "ex_event 1 ''m1'' Processing \<in> set (events (rv_gap ex_rec_env ex_turn_db))"
    "ev_id (ex_event 1 ''m1'' Processing) = Q_ID ex_queued" "ev_status (ex_event 1 ''m1'' Processing) = Processing"
    by (simp_all add: ex_rec_env_def ex_turn_db_def ex_queued_def scanQueuedEvent_def ex_event_def)
  have r: "rr_out (HandleEngineFailure ex_rec_env ex_queued ex_turn_db) = Some Retried"
    by (simp add: HandleEngineFailure_def ex_rec_env_def ex_queued_def scanQueuedEvent_def AttemptsForEvent_def
        sql_select_def ex_defs empty_db_def safeToRetry_def RequeueEventForRetry_def exec_defs rows_affected_def
        unkeyed_attempt_def sql_exists_def maxEventRetries_def Let_def)
  have "Q_ID ex_queued = 1" by (simp add: ex_queued_def scanQueuedEvent_def ex_event_def)
  with engine_failure_lands [OF wf e] r show ?thesis by (simp add: ex_rec_env_def)
qed

end
