(* ===== verification/Router.thy ===== *)
theory Router
  imports Recovery "HOL-Library.Word"
begin

text \<open>
  The per-thread dispatch index: \<open>src/internal/router/router.go\<close>.  The fields guarded by the
  mutex are a record; each critical section is a function on it, and the drain goroutines are part of
  the state (one entry per live goroutine, with the event whose turn it runs), so that their
  interleaving is a step relation.  Two ghost fields record what was accepted by \<open>Enqueue\<close> and
  what was handed to \<open>dispatch\<close>, in order.  The turn handler, which may panic, and
  \<open>OnPark\<close> are arguments.
\<close>

unbundle bit_operations_syntax

section \<open>The index\<close>

datatype drain_state = AtLoop | Running QueuedEvent

record Queues =
  q_cancelled :: bool
  q_pending :: "string \<Rightarrow> QueuedEvent list"
  q_claimed :: "string \<Rightarrow> bool"
  q_drains :: "(string \<times> drain_state) list"
  q_enqueued :: "QueuedEvent list"
  q_started :: "QueuedEvent list"

definition New :: Queues where
  "New = \<lparr>q_cancelled = False, q_pending = (\<lambda>_. []), q_claimed = (\<lambda>_. False), q_drains = [],
     q_enqueued = [], q_started = []\<rparr>"

definition Enqueue :: "QueuedEvent \<Rightarrow> Queues \<Rightarrow> Queues" where
  "Enqueue ev q =
     (let t = Q_ThreadKey ev in
      if q_cancelled q then q
      else
        let q1 = q\<lparr>q_pending := (q_pending q)(t := q_pending q t @ [ev]), q_enqueued := q_enqueued q @ [ev]\<rparr> in
        if \<not> q_claimed q t then
          q1\<lparr>q_claimed := (q_claimed q)(t := True), q_drains := q_drains q @ [(t, AtLoop)]\<rparr>
        else q1)"

text \<open>\<open>fnv.New32a\<close> over the bytes of the key, modulo the number of shards.\<close>

definition ingestShards :: nat where "ingestShards = 64"

definition fnv32a :: "string \<Rightarrow> 32 word" where
  "fnv32a s = fold (\<lambda>c h. (h XOR word_of_int (of_char c)) * 16777619) s 2166136261"

definition ingestLock :: "string \<Rightarrow> nat" where
  "ingestLock threadKey = unat (fnv32a threadKey) mod ingestShards"

definition queued_of :: "int \<Rightarrow> Event \<Rightarrow> QueuedEvent" where
  "queued_of i ev =
     \<lparr>Q_ID = i, Q_DedupKey = Event_DedupKey ev, Q_ThreadKey = Event_ThreadKey ev, Q_Kind = Event_Kind ev,
      Q_Trust = Event_Trust ev, Q_Payload = Event_Payload ev, Q_Status = Received,
      Q_Received = Event_Received ev, Q_Correlation = Event_Correlation ev\<rparr>"

definition Persist ::
  "(string \<Rightarrow> mirror option) \<Rightarrow> Event \<Rightarrow> db \<times> Queues \<Rightarrow> bool res \<times> (db \<times> Queues)" where
  "Persist unmarshal ev s =
     (case InsertEvent unmarshal ev (fst s) of
        Inl e \<Rightarrow> (Inl e, s)
      | Inr ((i, inserted), d') \<Rightarrow>
          if \<not> inserted then (Inr False, (d', snd s))
          else (Inr True, (d', Enqueue (queued_of i ev) (snd s))))"

definition Readmit :: "QueuedEvent \<Rightarrow> Queues \<Rightarrow> Queues" where
  "Readmit ev q = Enqueue ev q"

section \<open>Rebuild\<close>

text \<open>Phase one: park every row found processing, stopping at a park that cannot be written.\<close>

fun park_rows ::
  "(int \<Rightarrow> bool) \<Rightarrow> (QueuedEvent \<Rightarrow> db \<Rightarrow> db res) \<Rightarrow> int \<Rightarrow> QueuedEvent list \<Rightarrow> db \<Rightarrow> db \<times> bool" where
  "park_rows park_fails onPark now [] d = (d, True)"
| "park_rows park_fails onPark now (ev # evs) d =
     (if Q_Status ev \<noteq> Processing then park_rows park_fails onPark now evs d
      else if park_fails (Q_ID ev) then (d, False)
      else
        let d1 = ParkEvent (Q_ID ev) now d in
        case onPark ev d1 of
          Inl _ \<Rightarrow> park_rows park_fails onPark now evs d1
        | Inr d2 \<Rightarrow> park_rows park_fails onPark now evs d2)"

fun enqueue_received :: "QueuedEvent list \<Rightarrow> Queues \<Rightarrow> Queues" where
  "enqueue_received [] q = q"
| "enqueue_received (ev # evs) q =
     enqueue_received evs (if Q_Status ev = Received then Enqueue ev q else q)"

definition Rebuild ::
  "bool \<Rightarrow> (int \<Rightarrow> bool) \<Rightarrow> (QueuedEvent \<Rightarrow> db \<Rightarrow> db res) \<Rightarrow> int \<Rightarrow> db \<times> Queues \<Rightarrow> bool \<times> (db \<times> Queues)" where
  "Rebuild scan_fails park_fails onPark now s =
     (if scan_fails then (False, s)
      else
        let rows = UnprocessedEvents (fst s);
            (d', ok) = park_rows park_fails onPark now rows (fst s)
        in if \<not> ok then (False, (d', snd s))
           else (True, (d', enqueue_received rows (snd s))))"

section \<open>Dispatch\<close>

definition dispatch ::
  "bool \<Rightarrow> bool \<Rightarrow> bool \<Rightarrow> (QueuedEvent \<Rightarrow> db \<Rightarrow> db \<times> bool) \<Rightarrow> (QueuedEvent \<Rightarrow> db \<Rightarrow> db res) \<Rightarrow> int \<Rightarrow>
   QueuedEvent \<Rightarrow> db \<Rightarrow> bool \<times> db" where
  "dispatch cancelled stamp_fails park_fails handler onPark now ev d =
     (if cancelled then (False, d)
      else
        case (if stamp_fails then Inl ErrDriver else MarkEventProcessing (Q_ID ev) now d) of
          Inl _ \<Rightarrow> (False, d)
        | Inr d1 \<Rightarrow>
            let (d2, panicked) = handler ev d1 in
            if \<not> panicked \<or> park_fails then (True, d2)
            else
              let d3 = ParkEvent (Q_ID ev) now d2 in
              case onPark ev d3 of Inl _ \<Rightarrow> (True, d3) | Inr d4 \<Rightarrow> (True, d4))"

section \<open>Interleaving\<close>

text \<open>The locked section of \<open>drain\<close>: goroutine number \<open>n\<close> releases its claim and ends, or takes the head
  of its queue.\<close>

definition drain_locked :: "nat \<Rightarrow> Queues \<Rightarrow> Queues" where
  "drain_locked n q =
     (let t = fst (q_drains q ! n) in
      if q_cancelled q \<or> q_pending q t = [] then
        q\<lparr>q_claimed := (q_claimed q)(t := False), q_pending := (q_pending q)(t := []),
          q_drains := take n (q_drains q) @ drop (Suc n) (q_drains q)\<rparr>
      else
        q\<lparr>q_pending := (q_pending q)(t := tl (q_pending q t)),
          q_drains := (q_drains q)[n := (t, Running (hd (q_pending q t)))],
          q_started := q_started q @ [hd (q_pending q t)]\<rparr>)"

inductive drain_step :: "Queues \<Rightarrow> Queues \<Rightarrow> bool" where
  lock: "n < length (q_drains q) \<Longrightarrow> snd (q_drains q ! n) = AtLoop \<Longrightarrow> drain_step q (drain_locked n q)"
| finish: "n < length (q_drains q) \<Longrightarrow> q_drains q ! n = (t, Running ev) \<Longrightarrow>
    drain_step q (q\<lparr>q_drains := (q_drains q)[n := (t, AtLoop)]\<rparr>)"

inductive router_step :: "Queues \<Rightarrow> Queues \<Rightarrow> bool" where
  enqueue: "router_step q (Enqueue ev q)"
| cancel: "router_step q (q\<lparr>q_cancelled := True\<rparr>)"
| drain: "drain_step q q' \<Longrightarrow> router_step q q'"

inductive router_reach :: "Queues \<Rightarrow> bool" where
  init: "router_reach New"
| step: "router_reach q \<Longrightarrow> router_step q q' \<Longrightarrow> router_reach q'"

section \<open>Invariant\<close>

definition on_thread :: "string \<Rightarrow> QueuedEvent list \<Rightarrow> QueuedEvent list" where
  "on_thread t evs = filter (\<lambda>e. Q_ThreadKey e = t) evs"

definition queues_inv :: "Queues \<Rightarrow> bool" where
  "queues_inv q \<longleftrightarrow> distinct (map fst (q_drains q)) \<and>
     (\<forall>t. q_claimed q t \<longleftrightarrow> t \<in> fst ` set (q_drains q)) \<and>
     (\<forall>t. q_pending q t \<noteq> [] \<longrightarrow> q_claimed q t) \<and>
     (\<forall>t. \<forall>e \<in> set (q_pending q t). Q_ThreadKey e = t) \<and>
     (\<forall>t ev. (t, Running ev) \<in> set (q_drains q) \<longrightarrow> Q_ThreadKey ev = t) \<and>
     (\<forall>t. if q_cancelled q then prefix (on_thread t (q_started q) @ q_pending q t) (on_thread t (q_enqueued q))
          else on_thread t (q_started q) @ q_pending q t = on_thread t (q_enqueued q))"

lemma queues_invD:
  assumes "queues_inv q"
  shows "distinct (map fst (q_drains q))" "q_claimed q t \<longleftrightarrow> t \<in> fst ` set (q_drains q)"
    "q_pending q t \<noteq> [] \<Longrightarrow> q_claimed q t" "e \<in> set (q_pending q t) \<Longrightarrow> Q_ThreadKey e = t"
    "(t, Running ev) \<in> set (q_drains q) \<Longrightarrow> Q_ThreadKey ev = t"
    "if q_cancelled q then prefix (on_thread t (q_started q) @ q_pending q t) (on_thread t (q_enqueued q))
     else on_thread t (q_started q) @ q_pending q t = on_thread t (q_enqueued q)"
  using assms unfolding queues_inv_def by blast+

lemma queues_invI:
  assumes "distinct (map fst (q_drains q))" "\<And>t. q_claimed q t \<longleftrightarrow> t \<in> fst ` set (q_drains q)"
    "\<And>t. q_pending q t \<noteq> [] \<Longrightarrow> q_claimed q t" "\<And>t e. e \<in> set (q_pending q t) \<Longrightarrow> Q_ThreadKey e = t"
    "\<And>t ev. (t, Running ev) \<in> set (q_drains q) \<Longrightarrow> Q_ThreadKey ev = t"
    "\<And>t. if q_cancelled q then prefix (on_thread t (q_started q) @ q_pending q t) (on_thread t (q_enqueued q))
     else on_thread t (q_started q) @ q_pending q t = on_thread t (q_enqueued q)"
  shows "queues_inv q"
  using assms unfolding queues_inv_def by blast

lemma New_inv: "queues_inv New"
  by (simp add: queues_inv_def New_def on_thread_def)

lemma on_thread_append [simp]: "on_thread t (xs @ ys) = on_thread t xs @ on_thread t ys"
  by (simp add: on_thread_def)

lemma on_thread_single: "on_thread t [e] = (if Q_ThreadKey e = t then [e] else [])"
  by (simp add: on_thread_def)

lemma Enqueue_inv: assumes "queues_inv q" shows "queues_inv (Enqueue ev q)"
proof (cases "q_cancelled q")
  case True
  with assms show ?thesis by (simp add: Enqueue_def)
next
  case False
  let ?t = "Q_ThreadKey ev" and ?q = "Enqueue ev q"
  note D = queues_invD [OF assms]
  have f: "q_pending ?q = (q_pending q)(?t := q_pending q ?t @ [ev])" "q_enqueued ?q = q_enqueued q @ [ev]"
    "q_started ?q = q_started q" "q_cancelled ?q = False" "q_claimed ?q = (q_claimed q)(?t := True)"
    "q_drains ?q = (if q_claimed q ?t then q_drains q else q_drains q @ [(?t, AtLoop)])"
    using False by (auto simp: Enqueue_def Let_def fun_upd_idem)
  show ?thesis
  proof (rule queues_invI)
    show "distinct (map fst (q_drains ?q))" using D(1,2) by (auto simp: f)
    show "q_claimed ?q u \<longleftrightarrow> u \<in> fst ` set (q_drains ?q)" for u using D(2) by (auto simp: f)
    show "q_pending ?q u \<noteq> [] \<Longrightarrow> q_claimed ?q u" for u using D(3) by (auto simp: f)
    show "e \<in> set (q_pending ?q u) \<Longrightarrow> Q_ThreadKey e = u" for u e using D(4) by (auto simp: f split: if_splits)
    show "(u, Running x) \<in> set (q_drains ?q) \<Longrightarrow> Q_ThreadKey x = u" for u x using D(5) by (auto simp: f split: if_splits)
    show "if q_cancelled ?q then prefix (on_thread u (q_started ?q) @ q_pending ?q u) (on_thread u (q_enqueued ?q))
     else on_thread u (q_started ?q) @ q_pending ?q u = on_thread u (q_enqueued ?q)" for u
      using D(6) [of u] False by (auto simp: f on_thread_single)
  qed
qed

lemma drain_locked_inv:
  assumes inv: "queues_inv q" and n: "n < length (q_drains q)" "snd (q_drains q ! n) = AtLoop"
  shows "queues_inv (drain_locked n q)"
proof -
  let ?q = "drain_locked n q" and ?t = "fst (q_drains q ! n)"
  note D = queues_invD [OF inv]
  have mem: "?t \<in> fst ` set (q_drains q)" using n by simp
  show ?thesis
  proof (cases "q_cancelled q \<or> q_pending q ?t = []")
    case True
    then have f: "q_claimed ?q = (q_claimed q)(?t := False)" "q_pending ?q = (q_pending q)(?t := [])"
      "q_drains ?q = take n (q_drains q) @ drop (Suc n) (q_drains q)" "q_started ?q = q_started q"
      "q_enqueued ?q = q_enqueued q" "q_cancelled ?q = q_cancelled q"
      by (simp_all add: drain_locked_def Let_def)
    have split: "map fst (q_drains q) = map fst (take n (q_drains q)) @ ?t # map fst (drop (Suc n) (q_drains q))"
      using id_take_nth_drop [OF n(1)] by (metis list.simps(9) map_append)
    have dist: "distinct (map fst (q_drains ?q))" "?t \<notin> fst ` set (q_drains ?q)"
      "fst ` set (q_drains q) = insert ?t (fst ` set (q_drains ?q))"
      using D(1) unfolding split f(3) by (auto simp: image_Un arg_cong [OF split, of set, simplified])
    have sub: "set (q_drains ?q) \<subseteq> set (q_drains q)"
      unfolding f(3) using set_take_subset set_drop_subset by fastforce
    show ?thesis
    proof (rule queues_invI)
      show "q_claimed ?q u \<longleftrightarrow> u \<in> fst ` set (q_drains ?q)" for u
        using D(2) [of u] dist(2,3) by (auto simp: f(1))
      show "q_pending ?q u \<noteq> [] \<Longrightarrow> q_claimed ?q u" for u using D(3) by (auto simp: f(1,2) split: if_splits)
      show "e \<in> set (q_pending ?q u) \<Longrightarrow> Q_ThreadKey e = u" for u e using D(4) by (auto simp: f(2) split: if_splits)
      show "(u, Running x) \<in> set (q_drains ?q) \<Longrightarrow> Q_ThreadKey x = u" for u x using D(5) sub by blast
      show "if q_cancelled ?q then prefix (on_thread u (q_started ?q) @ q_pending ?q u) (on_thread u (q_enqueued ?q))
        else on_thread u (q_started ?q) @ q_pending ?q u = on_thread u (q_enqueued ?q)" for u
        using D(6) [of u] True by (auto simp: f append_prefixD)
    qed (rule dist(1))
  next
    case False
    then obtain e es where p: "q_pending q ?t = e # es" by (cases "q_pending q ?t") auto
    with False have f: "q_claimed ?q = q_claimed q" "q_pending ?q = (q_pending q)(?t := es)"
      "q_drains ?q = (q_drains q)[n := (?t, Running e)]" "q_started ?q = q_started q @ [e]"
      "q_enqueued ?q = q_enqueued q" "q_cancelled ?q = False"
      by (simp_all add: drain_locked_def Let_def)
    have keys: "map fst (q_drains ?q) = map fst (q_drains q)"
      unfolding f(3) map_update by (simp add: n(1) list_update_id [symmetric] del: list_update_id)
        (metis list_update_id n(1) nth_map)
    have et: "Q_ThreadKey e = ?t" using D(4) [of e ?t] p by simp
    show ?thesis
    proof (rule queues_invI)
      show "distinct (map fst (q_drains ?q))" unfolding keys by (rule D(1))
      show "q_claimed ?q u \<longleftrightarrow> u \<in> fst ` set (q_drains ?q)" for u
        using D(2) [of u] keys by (metis f(1) list.set_map)
      show "q_pending ?q u \<noteq> [] \<Longrightarrow> q_claimed ?q u" for u
        using D(3) mem D(2) by (auto simp: f(1,2) split: if_splits)
      show "x \<in> set (q_pending ?q u) \<Longrightarrow> Q_ThreadKey x = u" for u x
        using D(4) p by (auto simp: f(2) split: if_splits)
      show "Q_ThreadKey x = u" if x: "(u, Running x) \<in> set (q_drains ?q)" for u x
      proof -
        have "(u, Running x) \<in> insert (?t, Running e) (set (q_drains q))"
          using x set_update_subset_insert unfolding f(3) by fastforce
        then show ?thesis using D(5) et by auto
      qed
      show "if q_cancelled ?q then prefix (on_thread u (q_started ?q) @ q_pending ?q u) (on_thread u (q_enqueued ?q))
        else on_thread u (q_started ?q) @ q_pending ?q u = on_thread u (q_enqueued ?q)" for u
        using D(6) [of u] False p et by (auto simp: f on_thread_single)
    qed
  qed
qed

lemma finish_inv:
  assumes inv: "queues_inv q" and n: "n < length (q_drains q)" "q_drains q ! n = (t, Running ev)"
  shows "queues_inv (q\<lparr>q_drains := (q_drains q)[n := (t, AtLoop)]\<rparr>)" (is "queues_inv ?q")
proof -
  note D = queues_invD [OF inv]
  have keys: "map fst ((q_drains q)[n := (t, AtLoop)]) = map fst (q_drains q)"
    unfolding map_update using n by (metis fst_conv list_update_id nth_map)
  show ?thesis
  proof (rule queues_invI)
    show "distinct (map fst (q_drains ?q))" using D(1) keys by simp
    show "q_claimed ?q u \<longleftrightarrow> u \<in> fst ` set (q_drains ?q)" for u
      using D(2) [of u] arg_cong [OF keys, of set] by simp
    show "Q_ThreadKey x = u" if x: "(u, Running x) \<in> set (q_drains ?q)" for u x
    proof -
      have "(u, Running x) \<in> insert (t, AtLoop) (set (q_drains q))"
        using x set_update_subset_insert by fastforce
      then show ?thesis using D(5) by auto
    qed
    show "if q_cancelled ?q then prefix (on_thread u (q_started ?q) @ q_pending ?q u) (on_thread u (q_enqueued ?q))
        else on_thread u (q_started ?q) @ q_pending ?q u = on_thread u (q_enqueued ?q)" for u
      using D(6) [of u] by simp
  qed (use D(3,4) in auto)
qed

lemma cancel_inv: "queues_inv q \<Longrightarrow> queues_inv (q\<lparr>q_cancelled := True\<rparr>)"
  unfolding queues_inv_def by (auto split: if_splits)

lemma drain_step_inv: "drain_step q q' \<Longrightarrow> queues_inv q \<Longrightarrow> queues_inv q'"
  by (induction rule: drain_step.induct) (auto intro: drain_locked_inv finish_inv)

lemma router_step_inv: "router_step q q' \<Longrightarrow> queues_inv q \<Longrightarrow> queues_inv q'"
  by (induction rule: router_step.induct) (auto intro: Enqueue_inv cancel_inv drain_step_inv)

lemma router_reach_inv: "router_reach q \<Longrightarrow> queues_inv q"
  by (induction rule: router_reach.induct) (auto intro: New_inv router_step_inv)

section \<open>Draining\<close>

lemma drain_step_keeps: "drain_step q q' \<Longrightarrow> q_cancelled q' = q_cancelled q \<and> q_enqueued q' = q_enqueued q"
  by (induction rule: drain_step.induct) (auto simp: drain_locked_def Let_def)

lemma drain_progress:
  assumes "queues_inv q" and "\<not> q_cancelled q" and "q_pending q t = e # es"
  shows "\<exists>q'. drain_step\<^sup>*\<^sup>* q q' \<and> q_pending q' t = es"
proof -
  note D = queues_invD [OF assms(1)]
  have "t \<in> fst ` set (q_drains q)" using D(2,3) assms(3) by simp
  then obtain n where n: "n < length (q_drains q)" "fst (q_drains q ! n) = t" by (auto simp: in_set_conv_nth)
  show ?thesis
  proof (cases "snd (q_drains q ! n)")
    case AtLoop
    have "drain_step q (drain_locked n q)" using n(1) AtLoop by (rule drain_step.lock)
    moreover have "q_pending (drain_locked n q) t = es" using n assms(2,3) by (simp add: drain_locked_def Let_def)
    ultimately show ?thesis by blast
  next
    case (Running ev)
    let ?q1 = "q\<lparr>q_drains := (q_drains q)[n := (t, AtLoop)]\<rparr>"
    have "drain_step q ?q1" using n Running by (intro drain_step.finish [of n q t ev]) (auto simp: prod_eq_iff)
    moreover have "drain_step ?q1 (drain_locked n ?q1)" using n by (intro drain_step.lock) simp_all
    ultimately have "drain_step\<^sup>*\<^sup>* q (drain_locked n ?q1)" by (meson converse_rtranclp_into_rtranclp r_into_rtranclp)
    moreover have "q_pending (drain_locked n ?q1) t = es" using n assms(2,3) by (simp add: drain_locked_def Let_def)
    ultimately show ?thesis by blast
  qed
qed

lemma drain_steps_keep: "drain_step\<^sup>*\<^sup>* q q' \<Longrightarrow> queues_inv q \<Longrightarrow>
  queues_inv q' \<and> q_cancelled q' = q_cancelled q \<and> q_enqueued q' = q_enqueued q"
  by (induction rule: rtranclp_induct) (auto dest: drain_step_keeps drain_step_inv)

lemma drain_empties:
  "queues_inv q \<Longrightarrow> \<not> q_cancelled q \<Longrightarrow> \<exists>q'. drain_step\<^sup>*\<^sup>* q q' \<and> q_pending q' t = []"
proof (induction "q_pending q t" arbitrary: q)
  case Nil
  then show ?case by (metis rtranclp.rtrancl_refl)
next
  case (Cons e es)
  obtain q1 where q1: "drain_step\<^sup>*\<^sup>* q q1" "q_pending q1 t = es"
    using drain_progress [OF Cons.prems Cons.hyps(2) [symmetric]] by blast
  with Cons.hyps(1) [of q1] drain_steps_keep [OF q1(1) Cons.prems(1)] Cons.prems(2)
  obtain q2 where "drain_step\<^sup>*\<^sup>* q1 q2" "q_pending q2 t = []" by auto
  with q1(1) show ?case by (meson rtranclp_trans)
qed

section \<open>The re-admission interface\<close>

text \<open>What recovery relies on when its timer fires.\<close>

locale readmitter =
  fixes readmit :: "QueuedEvent \<Rightarrow> 'q \<Rightarrow> 'q" and waiting :: "'q \<Rightarrow> string \<Rightarrow> QueuedEvent list"
    and accepting :: "'q \<Rightarrow> bool"
  assumes admit: "accepting q \<Longrightarrow> waiting (readmit ev q) t = waiting q t @ on_thread t [ev]"
    and admit_accepting: "accepting (readmit ev q) \<longleftrightarrow> accepting q"
begin

lemma admit_all: "accepting q \<Longrightarrow> waiting (fold readmit evs q) t = waiting q t @ on_thread t evs"
proof (induction evs arbitrary: q)
  case (Cons ev evs)
  have "on_thread t (ev # evs) = on_thread t [ev] @ on_thread t evs" by (simp add: on_thread_def)
  with Cons show ?case by (simp add: admit admit_accepting)
qed (simp add: on_thread_def)

end

interpretation ra: readmitter Readmit q_pending "\<lambda>q. \<not> q_cancelled q"
  by unfold_locales (auto simp: Readmit_def Enqueue_def Let_def on_thread_single)

lemma enqueue_received_fold: "enqueue_received evs q = fold Readmit (filter (\<lambda>e. Q_Status e = Received) evs) q"
  by (induction evs arbitrary: q) (simp_all add: Readmit_def)

section \<open>Rebuilding\<close>

definition parked :: "int \<Rightarrow> event_row \<Rightarrow> event_row" where
  "parked now r = r\<lparr>ev_status := Interrupted, ev_updated := Some now, ev_parks := ev_parks r + 1\<rparr>"

lemma ParkEvent_events:
  "events (ParkEvent i now d) = sql_update (\<lambda>r. ev_id r = i \<and> ev_status r \<in> {Received, Processing}) (parked now) (events d)"
  by (simp add: ParkEvent_eq parked_def [abs_def])

lemma sql_update_twice:
  assumes "i \<notin> I"
  shows "sql_update (\<lambda>r. ev_id r \<in> I \<and> ev_status r \<in> {Received, Processing}) (parked now)
      (sql_update (\<lambda>r. ev_id r = i \<and> ev_status r \<in> {Received, Processing}) (parked now) t) =
    sql_update (\<lambda>r. ev_id r \<in> insert i I \<and> ev_status r \<in> {Received, Processing}) (parked now) t"
  using assms by (auto simp: sql_update_def parked_def)

lemma park_rows_events:
  assumes "notice_writer onPark"
  shows "park_rows pf onPark now evs d = (d', True) \<Longrightarrow> distinct (map Q_ID evs) \<Longrightarrow>
    events d' = sql_update (\<lambda>r. ev_id r \<in> Q_ID ` {e \<in> set evs. Q_Status e = Processing} \<and>
      ev_status r \<in> {Received, Processing}) (parked now) (events d)"
proof (induction evs arbitrary: d)
  case Nil
  then show ?case by (simp add: sql_update_none)
next
  case (Cons ev evs)
  show ?case
  proof (cases "Q_Status ev = Processing")
    case False
    with Cons.prems have "park_rows pf onPark now evs d = (d', True)" by simp
    moreover have "{e \<in> set (ev # evs). Q_Status e = Processing} = {e \<in> set evs. Q_Status e = Processing}" using False by auto
    ultimately show ?thesis using Cons.IH [of d] Cons.prems(2) by simp
  next
    case True
    let ?d1 = "ParkEvent (Q_ID ev) now d"
    from Cons.prems(1) True obtain d2 where rest: "park_rows pf onPark now evs d2 = (d', True)" and d2: "events d2 = events ?d1"
    proof (cases "onPark ev ?d1")
      case (Inl a)
      with Cons.prems(1) True show ?thesis by (intro that [of ?d1]) (auto simp: Let_def split: if_splits)
    next
      case (Inr d3)
      have "events d3 = events ?d1" using notice_writer.surf_insert [OF assms Inr] by auto
      with Inr Cons.prems(1) True show ?thesis by (intro that [of d3]) (auto simp: Let_def split: if_splits)
    qed
    have fresh: "Q_ID ev \<notin> Q_ID ` {e \<in> set evs. Q_Status e = Processing}" using Cons.prems(2) by auto
    have ids: "Q_ID ` {e \<in> set (ev # evs). Q_Status e = Processing} = insert (Q_ID ev) (Q_ID ` {e \<in> set evs. Q_Status e = Processing})"
      using True by auto
    show ?thesis
      using Cons.IH [OF rest] Cons.prems(2) unfolding ids sql_update_twice [OF fresh, symmetric] d2 ParkEvent_events by simp
  qed
qed

lemma UnprocessedEvents_ids: "wf_db d \<Longrightarrow> distinct (map Q_ID (UnprocessedEvents d))"
proof -
  assume "wf_db d"
  then have k: "keyed ev_id (events d)" by (rule wf_events_keyed)
  have "map Q_ID (UnprocessedEvents d) = map ev_id (filter (\<lambda>r. ev_status r \<in> {Received, Processing}) (events d))"
    by (simp add: UnprocessedEvents_def sql_select_keyed [OF k] scanQueuedEvent_def comp_def)
  then show ?thesis using keyed_distinct [OF k] by (simp add: distinct_map_filter)
qed

section \<open>Concurrent ingest\<close>

text \<open>
  \<open>Persist\<close> at the grain of its lock: a goroutine takes the shard lock of its thread key, inserts,
  enqueues what was new and unlocks.  Drains, cancellation of nothing, and any store write that adds
  no event may happen in between.
\<close>

datatype ingest_phase = Outside | Locked Event | Inserted QueuedEvent | Leaving string

record ingest =
  in_db :: db
  in_q :: Queues
  in_lock :: "nat \<Rightarrow> nat option"
  in_phase :: "nat \<Rightarrow> ingest_phase"

inductive ingest_step :: "(string \<Rightarrow> mirror option) \<Rightarrow> ingest \<Rightarrow> ingest \<Rightarrow> bool" for u where
  lock: "in_phase s p = Outside \<Longrightarrow> in_lock s (ingestLock (Event_ThreadKey ev)) = None \<Longrightarrow>
    ingest_step u s (s\<lparr>in_lock := (in_lock s)(ingestLock (Event_ThreadKey ev) \<mapsto> p), in_phase := (in_phase s)(p := Locked ev)\<rparr>)"
| insert: "in_phase s p = Locked ev \<Longrightarrow> InsertEvent u ev (in_db s) = Inr ((i, True), d') \<Longrightarrow>
    ingest_step u s (s\<lparr>in_db := d', in_phase := (in_phase s)(p := Inserted (queued_of i ev))\<rparr>)"
| nothing: "in_phase s p = Locked ev \<Longrightarrow>
    (\<exists>e. InsertEvent u ev (in_db s) = Inl e) \<or> (\<exists>i d'. InsertEvent u ev (in_db s) = Inr ((i, False), d')) \<Longrightarrow>
    ingest_step u s (s\<lparr>in_phase := (in_phase s)(p := Leaving (Event_ThreadKey ev))\<rparr>)"
| enqueue: "in_phase s p = Inserted ev \<Longrightarrow>
    ingest_step u s (s\<lparr>in_q := Enqueue ev (in_q s), in_phase := (in_phase s)(p := Leaving (Q_ThreadKey ev))\<rparr>)"
| unlock: "in_phase s p = Leaving t \<Longrightarrow>
    ingest_step u s (s\<lparr>in_lock := (in_lock s)(ingestLock t := None), in_phase := (in_phase s)(p := Outside)\<rparr>)"
| drains: "drain_step (in_q s) q' \<Longrightarrow> ingest_step u s (s\<lparr>in_q := q'\<rparr>)"
| writes: "map ev_id (events d') = map ev_id (events (in_db s)) \<Longrightarrow> ingest_step u s (s\<lparr>in_db := d'\<rparr>)"

inductive ingest_reach :: "(string \<Rightarrow> mirror option) \<Rightarrow> ingest \<Rightarrow> bool" for u where
  init: "q_enqueued q = [] \<Longrightarrow> ingest_reach u \<lparr>in_db = d, in_q = q, in_lock = (\<lambda>_. None), in_phase = (\<lambda>_. Outside)\<rparr>"
| step: "ingest_reach u s \<Longrightarrow> ingest_step u s s' \<Longrightarrow> ingest_reach u s'"

fun ingest_key :: "ingest_phase \<Rightarrow> string option" where
  "ingest_key Outside = None"
| "ingest_key (Locked ev) = Some (Event_ThreadKey ev)"
| "ingest_key (Inserted ev) = Some (Q_ThreadKey ev)"
| "ingest_key (Leaving t) = Some t"

definition ingest_inv :: "ingest \<Rightarrow> bool" where
  "ingest_inv s \<longleftrightarrow>
     (\<forall>p t. ingest_key (in_phase s p) = Some t \<longrightarrow> in_lock s (ingestLock t) = Some p) \<and>
     (\<forall>e \<in> set (q_enqueued (in_q s)). Q_ID e \<in> ev_id ` set (events (in_db s))) \<and>
     (\<forall>p ev. in_phase s p = Inserted ev \<longrightarrow> Q_ID ev \<in> ev_id ` set (events (in_db s)) \<and>
        (\<forall>e \<in> set (on_thread (Q_ThreadKey ev) (q_enqueued (in_q s))). Q_ID e < Q_ID ev)) \<and>
     (\<forall>t. sorted_wrt (<) (map Q_ID (on_thread t (q_enqueued (in_q s)))))"

lemma ingest_invI:
  assumes "\<And>p t. ingest_key (in_phase s p) = Some t \<Longrightarrow> in_lock s (ingestLock t) = Some p"
    and "\<And>e. e \<in> set (q_enqueued (in_q s)) \<Longrightarrow> Q_ID e \<in> ev_id ` set (events (in_db s))"
    and "\<And>p ev. in_phase s p = Inserted ev \<Longrightarrow> Q_ID ev \<in> ev_id ` set (events (in_db s)) \<and>
        (\<forall>e \<in> set (on_thread (Q_ThreadKey ev) (q_enqueued (in_q s))). Q_ID e < Q_ID ev)"
    and "\<And>t. sorted_wrt (<) (map Q_ID (on_thread t (q_enqueued (in_q s))))"
  shows "ingest_inv s"
  using assms unfolding ingest_inv_def by blast

lemma ingest_invD:
  assumes "ingest_inv s"
  shows "ingest_key (in_phase s p) = Some t \<Longrightarrow> in_lock s (ingestLock t) = Some p"
    "e \<in> set (q_enqueued (in_q s)) \<Longrightarrow> Q_ID e \<in> ev_id ` set (events (in_db s))"
    "in_phase s p = Inserted ev \<Longrightarrow> Q_ID ev \<in> ev_id ` set (events (in_db s))"
    "in_phase s p = Inserted ev \<Longrightarrow> e \<in> set (on_thread (Q_ThreadKey ev) (q_enqueued (in_q s))) \<Longrightarrow> Q_ID e < Q_ID ev"
    "sorted_wrt (<) (map Q_ID (on_thread t (q_enqueued (in_q s))))"
  using assms unfolding ingest_inv_def by blast+

lemma Enqueue_enqueued: "q_enqueued (Enqueue ev q) = (if q_cancelled q then q_enqueued q else q_enqueued q @ [ev])"
  by (simp add: Enqueue_def Let_def)

lemma insert_true: "InsertEvent u ev d = Inr ((i, True), d') \<Longrightarrow>
  i = next_rowid ev_id (events d) \<and> ev_id ` set (events d') = insert i (ev_id ` set (events d))"
  by (erule InsertEvent_InrE) (simp_all add: new_event_row_def)

lemma ingest_step_inv: "ingest_step u s s' \<Longrightarrow> ingest_inv s \<Longrightarrow> ingest_inv s'"
proof (induction rule: ingest_step.induct)
  case (lock s p ev)
  note D = ingest_invD [OF lock.prems]
  show ?case
  proof (rule ingest_invI, goal_cases)
    case (1 q t)
    then show ?case using D(1) [of q t] lock.hyps(2) by (auto split: if_splits)
  next
    case (3 q x)
    then show ?case using D(3,4) [of q x] by (auto split: if_splits)
  qed (use D(2,5) in auto)
next
  case (insert s p ev i d')
  note D = ingest_invD [OF insert.prems]
  have i: "i = next_rowid ev_id (events (in_db s))" and ids: "ev_id ` set (events d') = Set.insert i (ev_id ` set (events (in_db s)))"
    using insert_true [OF insert.hyps(2)] by auto
  have less: "Q_ID e < i" if e: "e \<in> set (q_enqueued (in_q s))" for e
    using D(2) [OF e] next_rowid_gt i by fastforce
  show ?case
  proof (rule ingest_invI, goal_cases)
    case (1 q t)
    then show ?case using D(1) [of q t] D(1) [of p t] insert.hyps(1) by (auto simp: queued_of_def split: if_splits)
  next
    case (3 q x)
    show ?case
    proof (cases "q = p")
      case True
      with 3 have "x = queued_of i ev" by simp
      then show ?thesis using ids less by (simp add: queued_of_def on_thread_def)
    next
      case False
      with 3 show ?thesis using D(3,4) [of q x] ids by simp
    qed
  qed (use D(2,5) ids in auto)
next
  case (nothing s p ev)
  note D = ingest_invD [OF nothing.prems]
  show ?case
  proof (rule ingest_invI, goal_cases)
    case (1 q t)
    then show ?case using D(1) [of q t] D(1) [of p t] nothing.hyps(1) by (auto split: if_splits)
  next
    case (3 q x)
    then show ?case using D(3,4) [of q x] by (auto split: if_splits)
  qed (use D(2,5) in auto)
next
  case (enqueue s p ev)
  note D = ingest_invD [OF enqueue.prems]
  have mine: "in_lock s (ingestLock (Q_ThreadKey ev)) = Some p" using D(1) [of p] enqueue.hyps by simp
  have app: "on_thread t (q_enqueued (Enqueue ev (in_q s))) =
      (if q_cancelled (in_q s) then on_thread t (q_enqueued (in_q s))
       else on_thread t (q_enqueued (in_q s)) @ on_thread t [ev])" for t by (simp add: Enqueue_enqueued)
  show ?case
  proof (rule ingest_invI, goal_cases)
    case (1 q t)
    then show ?case using D(1) [of q t] D(1) [of p t] enqueue.hyps by (auto split: if_splits)
  next
    case (2 e)
    then show ?case using D(2) [of e] D(3) [OF enqueue.hyps] by (auto simp: Enqueue_enqueued split: if_splits)
  next
    case (3 q x)
    then have q: "q \<noteq> p" "in_phase s q = Inserted x" by (auto split: if_splits)
    have "Q_ThreadKey x \<noteq> Q_ThreadKey ev" using D(1) [of q "Q_ThreadKey x"] q mine by auto
    then show ?case using D(3,4) [OF q(2)] by (auto simp: app on_thread_single)
  next
    case (4 t)
    then show ?case using D(5) [of t] D(4) [OF enqueue.hyps]
      by (auto simp: app on_thread_single sorted_wrt_append)
  qed
next
  case (unlock s p t)
  note D = ingest_invD [OF unlock.prems]
  have mine: "in_lock s (ingestLock t) = Some p" using D(1) [of p t] unlock.hyps by simp
  show ?case
  proof (rule ingest_invI, goal_cases)
    case (1 q r)
    then show ?case using D(1) [of q r] mine by (auto split: if_splits)
  next
    case (3 q x)
    then show ?case using D(3,4) [of q x] by (auto split: if_splits)
  qed (use D(2,5) in auto)
next
  case (drains s q')
  then show ?case using drain_step_keeps [OF drains.hyps] by (simp add: ingest_inv_def)
next
  case (writes d' s)
  then have "ev_id ` set (events d') = ev_id ` set (events (in_db s))" by (metis image_map_cong)
  with writes.prems show ?case by (simp add: ingest_inv_def)
qed

lemma ingest_reach_inv: "ingest_reach u s \<Longrightarrow> ingest_inv s"
proof (induction rule: ingest_reach.induct)
  case (init q d)
  then show ?case by (simp add: ingest_inv_def on_thread_def)
qed (rule ingest_step_inv)

section \<open>Properties\<close>

text \<open>
  C3: turns are serial and in order on each thread, and no wakeup is lost.  In every reachable state
  of the index at most one goroutine drains a thread (so at most one turn runs there), what has been
  handed to \<open>dispatch\<close> for a thread is an initial segment of what was enqueued for it, in the same
  order, and while the router is not shutting down a thread with pending events has a live goroutine
  whose steps alone dispatch everything that was enqueued.
\<close>

theorem threads_serial_fifo:
  assumes "router_reach q"
  shows "distinct (map fst (q_drains q)) \<and>
    (\<forall>t. prefix (on_thread t (q_started q)) (on_thread t (q_enqueued q))) \<and>
    (\<not> q_cancelled q \<longrightarrow>
      (\<forall>t. (q_pending q t \<noteq> [] \<longrightarrow> t \<in> fst ` set (q_drains q)) \<and>
        (\<exists>q'. drain_step\<^sup>*\<^sup>* q q' \<and> on_thread t (q_started q') = on_thread t (q_enqueued q))))"
proof (intro conjI allI impI)
  note inv = router_reach_inv [OF assms]
  note D = queues_invD [OF inv]
  show "distinct (map fst (q_drains q))" by (rule D(1))
  show "prefix (on_thread t (q_started q)) (on_thread t (q_enqueued q))" for t
    using D(6) [of t] by (cases "q_cancelled q") (auto dest: append_prefixD, metis prefixI)
  fix t assume live: "\<not> q_cancelled q"
  show "t \<in> fst ` set (q_drains q)" if "q_pending q t \<noteq> []" using that D(2,3) by blast
  obtain q' where q': "drain_step\<^sup>*\<^sup>* q q'" "q_pending q' t = []" using drain_empties [OF inv live] by blast
  have k: "queues_inv q'" "q_cancelled q' = q_cancelled q" "q_enqueued q' = q_enqueued q"
    using drain_steps_keep [OF q'(1) inv] by auto
  have "on_thread t (q_started q') = on_thread t (q_enqueued q)"
    using queues_invD(6) [OF k(1), of t] k(2,3) live q'(2) by simp
  with q'(1) show "\<exists>q'. drain_step\<^sup>*\<^sup>* q q' \<and> on_thread t (q_started q') = on_thread t (q_enqueued q)" by blast
qed

theorem threads_serial_fifo_witness:
  "\<exists>q'. drain_step\<^sup>*\<^sup>* (Enqueue ex_queued New) q' \<and> on_thread ''discord:dm:7'' (q_started q') = [ex_queued]"
proof -
  have "router_reach (Enqueue ex_queued New)" by (rule router_reach.step [OF router_reach.init router_step.enqueue])
  note t = threads_serial_fifo [OF this]
  have "on_thread ''discord:dm:7'' (q_enqueued (Enqueue ex_queued New)) = [ex_queued]" "\<not> q_cancelled (Enqueue ex_queued New)"
    by (simp_all add: Enqueue_def New_def ex_queued_def scanQueuedEvent_def ex_event_def on_thread_def Let_def)
  with t show ?thesis by metis
qed



text \<open>
  A restart rebuilds the queues and re-runs nothing.  On a well-formed store, a rebuild that
  reports success leaves every event that was processing parked as interrupted with a new park
  generation and no other event changed, so no event is processing any more, and the pending queue of
  each thread holds exactly its received events in row order; a rebuild that reports failure starts
  nothing.
\<close>

lemma Rebuild_parks_then_queues:
  assumes "wf_db d" and "Rebuild scan_fails pf (SurfaceInterruptedCoordinated fails) now (d, New) = (ok, (d', q'))"
  shows "if ok then
      events d' = sql_update (\<lambda>r. ev_status r = Processing) (parked now) (events d) \<and>
      (\<forall>e \<in> set (events d'). ev_status e \<noteq> Processing) \<and>
      (\<forall>t. q_pending q' t = map scanQueuedEvent (filter (\<lambda>e. ev_status e = Received \<and> ev_thread_key e = t) (events d)))
    else q' = New"
proof (cases ok)
  case False
  then show ?thesis using assms(2) by (auto simp: Rebuild_def Let_def split: if_splits prod.splits)
next
  case True
  let ?rows = "UnprocessedEvents d"
  from assms(2) True have p: "park_rows pf (SurfaceInterruptedCoordinated fails) now ?rows d = (d', True)"
    and q': "q' = enqueue_received ?rows New"
    by (auto simp: Rebuild_def Let_def split: if_splits prod.splits)
  note k = wf_events_keyed [OF assms(1)]
  have rows: "?rows = map scanQueuedEvent (filter (\<lambda>r. ev_status r \<in> {Received, Processing}) (events d))"
    by (simp add: UnprocessedEvents_def sql_select_keyed [OF k])
  have procs: "Q_ID ` {e \<in> set ?rows. Q_Status e = Processing} = ev_id ` {r \<in> set (events d). ev_status r = Processing}"
    unfolding rows by (force simp: scanQueuedEvent_def)
  have "events d' = sql_update (\<lambda>r. ev_id r \<in> Q_ID ` {e \<in> set ?rows. Q_Status e = Processing} \<and>
      ev_status r \<in> {Received, Processing}) (parked now) (events d)"
    by (rule park_rows_events [OF si.notice_writer_axioms p UnprocessedEvents_ids [OF assms(1)]])
  also have "\<dots> = sql_update (\<lambda>r. ev_status r = Processing) (parked now) (events d)"
    unfolding procs sql_update_def
  proof (rule map_cong [OF refl])
    fix r assume r: "r \<in> set (events d)"
    have "ev_id r \<in> ev_id ` {r \<in> set (events d). ev_status r = Processing} \<longleftrightarrow> ev_status r = Processing"
    proof
      assume "ev_id r \<in> ev_id ` {r \<in> set (events d). ev_status r = Processing}"
      then obtain x where "x \<in> set (events d)" "ev_id x = ev_id r" "ev_status x = Processing" by auto
      with wf_event_unique [OF assms(1) _ r, of x] show "ev_status r = Processing" by simp
    qed (use r in simp)
    then show "(if ev_id r \<in> ev_id ` {r \<in> set (events d). ev_status r = Processing} \<and> ev_status r \<in> {Received, Processing}
        then parked now r else r) = (if ev_status r = Processing then parked now r else r)" by simp
  qed
  finally have ev: "events d' = sql_update (\<lambda>r. ev_status r = Processing) (parked now) (events d)" .
  have "\<forall>e \<in> set (events d'). ev_status e \<noteq> Processing"
    unfolding ev ball_sql_update by (simp add: parked_def)
  moreover have "q_pending q' t = map scanQueuedEvent (filter (\<lambda>e. ev_status e = Received \<and> ev_thread_key e = t) (events d))" for t
  proof -
    have "q_pending q' t = on_thread t (filter (\<lambda>e. Q_Status e = Received) ?rows)"
      unfolding q' enqueue_received_fold using ra.admit_all [of New] by (simp add: New_def)
    also have "\<dots> = map scanQueuedEvent (filter (\<lambda>e. ev_status e = Received \<and> ev_thread_key e = t) (events d))"
      unfolding rows by (simp add: on_thread_def filter_map comp_def scanQueuedEvent_def) (rule arg_cong [of _ _ "map _"], rule filter_cong, auto)
    finally show ?thesis .
  qed
  ultimately show ?thesis using True ev by simp
qed

lemma Rebuild_parks_then_queues_example:
  "\<exists>d' q'. Rebuild False (\<lambda>_. False) (SurfaceInterruptedCoordinated (\<lambda>_. False)) 70 (ex_turn_db, New) = (True, (d', q')) \<and>
     (\<forall>e \<in> set (events d'). ev_status e \<noteq> Processing)"
proof -
  obtain ok d' q' where r: "Rebuild False (\<lambda>_. False) (SurfaceInterruptedCoordinated (\<lambda>_. False)) 70 (ex_turn_db, New) = (ok, (d', q'))"
    by (metis prod.exhaust)
  have "snd (park_rows (\<lambda>_. False) on now evs d)" for on now evs d
    by (induction evs arbitrary: d) (simp_all add: Let_def split: sum.splits)
  from this [of "SurfaceInterruptedCoordinated (\<lambda>_. False)" 70 "UnprocessedEvents ex_turn_db" ex_turn_db]
  have "ok" using r by (auto simp: Rebuild_def Let_def split: prod.splits if_splits)
  with Rebuild_parks_then_queues [OF wf_ex_turn_db r] r show ?thesis by auto
qed

text \<open>
  A turn runs only after its stamp.  If \<open>dispatch\<close> runs the handler, the event was received before
  and the handler saw it processing; the event is not received any more, so dispatching it again on
  that store runs nothing; without a stamp the store is untouched; and a handler that panics leaves
  the event interrupted when the park is written and the turn had not moved the event on.
\<close>

lemma dispatch_runs_once:
  assumes "wf_db d" and "dispatch c sf pf handler (SurfaceInterruptedCoordinated fails) now ev d = (run, d')"
    and keeps: "\<forall>x. wf_db x \<longrightarrow> wf_db (fst (handler ev x))"
  shows "if run then
      status_of (Q_ID ev) d = Some Received \<and>
      (\<exists>d1. MarkEventProcessing (Q_ID ev) now d = Inr d1 \<and> status_of (Q_ID ev) d1 = Some Processing \<and>
        dispatch c sf pf handler (SurfaceInterruptedCoordinated fails) now ev d1 = (False, d1) \<and>
        (snd (handler ev d1) \<longrightarrow> \<not> pf \<longrightarrow>
          status_of (Q_ID ev) (fst (handler ev d1)) \<in> {Some Received, Some Processing} \<longrightarrow>
          status_of (Q_ID ev) d' = Some Interrupted))
    else d' = d"
proof (cases run)
  case False
  then show ?thesis using assms(2)
    by (auto simp: dispatch_def Let_def split: if_splits sum.splits prod.splits)
next
  case True
  from assms(2) True obtain d1 where c: "\<not> c" "\<not> sf" and m: "MarkEventProcessing (Q_ID ev) now d = Inr d1"
    by (auto simp: dispatch_def split: if_splits sum.splits)
  from mp.act_InrE [OF m] obtain e where e: "e \<in> set (events d)" "ev_id e = Q_ID ev" "ev_status e = Received" by blast
  have s0: "status_of (Q_ID ev) d = Some Received"
    using event_by_id_eq [OF assms(1) e(1)] e(2,3) by (simp add: status_of_def)
  have s1: "status_of (Q_ID ev) d1 = Some Processing" using mp.act_status [OF m assms(1)] by (auto simp: status_of_def)
  have wf1: "wf_db d1" by (rule mp.act_wf [OF m assms(1)])
  have again: "dispatch c sf pf handler (SurfaceInterruptedCoordinated fails) now ev d1 = (False, d1)"
    using c mp.act_once [OF m] by (simp add: dispatch_def)
  have "status_of (Q_ID ev) d' = Some Interrupted"
    if pan: "snd (handler ev d1)" "\<not> pf" "status_of (Q_ID ev) (fst (handler ev d1)) \<in> {Some Received, Some Processing}"
  proof -
    let ?d2 = "fst (handler ev d1)" and ?d3 = "ParkEvent (Q_ID ev) now (fst (handler ev d1))"
    have wf2: "wf_db ?d2" using keeps wf1 by blast
    from pan(3) obtain r where r: "event_by_id (Q_ID ev) ?d2 = Some r" "ev_status r \<in> {Received, Processing}"
      by (auto simp: status_of_def)
    have rm: "r \<in> set (events ?d2)" "ev_id r = Q_ID ev" using event_by_id_SomeD [OF r(1)] by auto
    have "event_by_id (Q_ID ev) ?d3 = Some (r\<lparr>ev_status := Interrupted, ev_updated := Some now, ev_parks := ev_parks r + 1\<rparr>)"
      unfolding ParkEvent_eq by (rule event_by_id_update [OF wf2 rm]) (use r rm in auto)
    then have s3: "status_of (Q_ID ev) ?d3 = Some Interrupted" by (simp add: status_of_def)
    have "d' = ?d3 \<or> SurfaceInterruptedCoordinated fails ev ?d3 = Inr d'"
      using assms(2) c m pan(1,2) by (auto simp: dispatch_def Let_def split: prod.splits sum.splits if_splits)
    then show ?thesis
      using s3 surface_events(1) [of fails ev ?d3 d'] by (auto simp: status_of_def event_by_id_def)
  qed
  with True s0 m s1 again show ?thesis by auto
qed

lemma dispatch_runs_once_example:
  "fst (dispatch False False False (\<lambda>_ x. (x, True)) (SurfaceInterruptedCoordinated (\<lambda>_. False)) 70
     (scanQueuedEvent (ex_event 2 ''m2'' Received)) ex_turn_db) \<and>
   status_of 2 (snd (dispatch False False False (\<lambda>_ x. (x, True)) (SurfaceInterruptedCoordinated (\<lambda>_. False)) 70
     (scanQueuedEvent (ex_event 2 ''m2'' Received)) ex_turn_db)) = Some Interrupted"
proof -
  let ?ev = "scanQueuedEvent (ex_event 2 ''m2'' Received)"
  let ?D = "dispatch False False False (\<lambda>_ x. (x, True)) (SurfaceInterruptedCoordinated (\<lambda>_. False)) 70 ?ev ex_turn_db"
  have m: "\<exists>d1. MarkEventProcessing (Q_ID ?ev) 70 ex_turn_db = Inr d1"
    unfolding mp.act_iff by (simp add: ex_defs empty_db_def scanQueuedEvent_def)
  obtain run d' where D: "?D = (run, d')" by fastforce
  have run: "run" using D m by (auto simp: dispatch_def Let_def split: sum.splits)
  have id: "Q_ID ?ev = 2" by (simp add: scanQueuedEvent_def ex_event_def)
  from dispatch_runs_once [OF wf_ex_turn_db D] run have "status_of 2 d' = Some Interrupted"
    unfolding id by auto
  with D run show ?thesis by simp
qed

end
