(* ===== verification/Session_Manager.thy ===== *)
theory Session_Manager
  imports Store_Identities Store_Dead "HOL-Library.Word"
begin

unbundle bit_operations_syntax

text \<open>
  The session lifecycle manager: \<open>src/internal/session/manager.go\<close>, \<open>rotation.go\<close>,
  \<open>degrade.go\<close> and \<open>resume.go\<close>.  Instants are nanoseconds since the epoch; the stored
  columns are whole seconds; durations are \<open>int64\<close> nanoseconds whose arithmetic wraps around.
  What a turn meets outside this package is one record: the clock at each read, the file system, the
  random bytes, the store calls that fail, whether the context is dead, and the engine, which may
  itself write to the store.  Every operation threads the database and the list of engine calls made,
  each with the database it was made on.
\<close>

section \<open>Time\<close>

definition second :: int where "second = 1000000000"

definition wrap64 :: "int \<Rightarrow> int" where
  "wrap64 x = (x + 2 ^ 63) mod 2 ^ 64 - 2 ^ 63"

text \<open>\<open>Time.Unix\<close>: whole seconds, rounded down.\<close>

definition Unix :: "int \<Rightarrow> int" where "Unix t = t div second"

section \<open>Configuration\<close>

record Config =
  cfg_ActivationWindow :: int
  cfg_IdleTTL :: int
  cfg_TurnCap :: int

record Manager =
  m_window :: int
  m_idleTTL :: int
  m_turnCap :: int

definition defaultIdleTTL :: int where "defaultIdleTTL = 4 * 3600 * second"
definition defaultTurnCap :: int where "defaultTurnCap = 50"
definition defaultActivationWindow :: int where "defaultActivationWindow = 2 * 60 * second"

definition NewManager :: "Config \<Rightarrow> Manager" where
  "NewManager cfg =
     \<lparr>m_window = (if cfg_ActivationWindow cfg < second then defaultActivationWindow else cfg_ActivationWindow cfg),
      m_idleTTL = (if cfg_IdleTTL cfg < second then defaultIdleTTL else cfg_IdleTTL cfg),
      m_turnCap = (if cfg_TurnCap cfg < 1 then defaultTurnCap else cfg_TurnCap cfg)\<rparr>"

section \<open>The environment of a turn\<close>

record Spec =
  Sp_SessionID :: string
  Sp_ThreadKey :: string
  Sp_Cwd :: string
  Sp_Kind :: string
  Sp_Prompt :: string
  Sp_TransparencyNote :: string

datatype engine_error = EngResumeFailed | EngOther

datatype turn_error = TStore store_error | TRefused | TDeadline | TContext | TCwdGone | TRandom | TEngine engine_error

datatype clock_point = AtEnsure | AtMint | AtRotation | AtStart | AtFinish | AtTouch

datatype mgr_call = EnsureResolve | ExpireWrite | PinWrite | RotateWrite | DegradeWrite | StartResolve
  | ActivateWrite | TouchWrite | ResumeResolve | DegradedRead

datatype engine_call = StartCall Spec db | ResumeCall Spec db

record turn_env =
  te_clock :: "clock_point \<Rightarrow> int"
  te_fs :: file_system
  te_rand :: "8 word list option"
  te_fails :: "mgr_call \<Rightarrow> bool"
  te_dead :: "bool \<Rightarrow> bool"
  te_start :: "Spec \<Rightarrow> db \<Rightarrow> engine_error option \<times> db"
  te_resume :: "Spec \<Rightarrow> db \<Rightarrow> engine_error option \<times> db"

type_synonym 'a turn = "db \<times> engine_call list \<Rightarrow> (turn_error + 'a) \<times> (db \<times> engine_call list)"

section \<open>Identity\<close>

definition hex_digit :: "nat \<Rightarrow> char" where
  "hex_digit n = ''0123456789abcdef'' ! n"

definition hex_byte :: "8 word \<Rightarrow> string" where
  "hex_byte b = [hex_digit (unat b div 16), hex_digit (unat b mod 16)]"

definition hex_bytes :: "8 word list \<Rightarrow> string" where
  "hex_bytes bs = concat (map hex_byte bs)"

definition newSessionID :: "8 word list option \<Rightarrow> string option" where
  "newSessionID rnd =
     (case rnd of
        None \<Rightarrow> None
      | Some b \<Rightarrow>
          let b1 = b[6 := (b ! 6 AND 0x0f) OR 0x40]; b2 = b1[8 := (b1 ! 8 AND 0x3f) OR 0x80]
          in Some (hex_bytes (take 4 b2) @ ''-'' @ hex_bytes (take 2 (drop 4 b2)) @ ''-'' @
                   hex_bytes (take 2 (drop 6 b2)) @ ''-'' @ hex_bytes (take 2 (drop 8 b2)) @ ''-'' @
                   hex_bytes (drop 10 b2)))"

definition mint :: "turn_env \<Rightarrow> Manager \<Rightarrow> string \<Rightarrow> string \<Rightarrow> string \<Rightarrow> string \<Rightarrow> turn_error + Session" where
  "mint env m threadKey trustFloor cwd origin =
     (case newSessionID (te_rand env) of
        None \<Rightarrow> Inl TRandom
      | Some i \<Rightarrow>
          let created = te_clock env AtMint; expiry = created + m_window m; deadline = Unix expiry;
              deadline' = (if deadline * second < expiry then deadline + 1 else deadline)
          in Inr \<lparr>S_ThreadKey = threadKey, S_SessionID = i, S_Cwd = cwd, S_Origin = origin,
                  S_TrustFloor = trustFloor, S_CreatedAt = Unix created, S_ActivationDeadline = deadline'\<rparr>)"

definition live_of :: "Session \<Rightarrow> string \<Rightarrow> LiveSession" where
  "live_of s canonical =
     \<lparr>L_ThreadKey = S_ThreadKey s, L_SessionID = S_SessionID s, L_Status = Creating, L_Cwd = canonical,
      L_Origin = S_Origin s, L_TrustFloor = S_TrustFloor s, L_CreatedAt = S_CreatedAt s,
      L_ActivationDeadline = S_ActivationDeadline s, L_LastSeen = 0, L_Turns = 0\<rparr>"

text \<open>A store write that may fail in the driver.\<close>

definition guarded :: "turn_env \<Rightarrow> mgr_call \<Rightarrow> 'a res \<Rightarrow> 'a res" where
  "guarded env c r = (if te_fails env c then Inl ErrDriver else r)"

section \<open>Ensure, rotate, degrade\<close>

definition pin :: "turn_env \<Rightarrow> Manager \<Rightarrow> string \<Rightarrow> string \<Rightarrow> string \<Rightarrow> (LiveSession \<times> bool) turn" where
  "pin env m threadKey trustFloor cwd s =
     (case mint env m threadKey trustFloor cwd [] of
        Inl e \<Rightarrow> (Inl e, s)
      | Inr ses \<Rightarrow>
          (case guarded env PinWrite (InsertSession (te_fs env) ses (fst s)) of
             Inl e \<Rightarrow> (Inl (TStore e), s)
           | Inr (canonical, d') \<Rightarrow> (Inr (live_of ses canonical, True), (d', snd s))))"

definition Ensure :: "turn_env \<Rightarrow> Manager \<Rightarrow> string \<Rightarrow> string \<Rightarrow> string \<Rightarrow> (LiveSession \<times> bool) turn" where
  "Ensure env m threadKey trustFloor cwd s =
     (if te_fails env EnsureResolve then (Inl (TStore ErrDriver), s)
      else (case ResolveLiveSession threadKey (fst s) of
          None \<Rightarrow> pin env m threadKey trustFloor cwd s
        | Some lv \<Rightarrow>
            if L_Status lv = Active \<or> Unix (te_clock env AtEnsure) < L_ActivationDeadline lv then (Inr (lv, False), s)
            else (case mint env m threadKey trustFloor cwd (L_Origin lv) of
                Inl e \<Rightarrow> (Inl e, s)
              | Inr ses \<Rightarrow>
                  (case guarded env ExpireWrite (ExpireSession (te_fs env) (L_SessionID lv) ses (fst s)) of
                     Inl e \<Rightarrow> (Inl (TStore e), s)
                   | Inr (canonical, d') \<Rightarrow> (Inr (live_of ses canonical, True), (d', snd s))))))"

definition rotationCause :: "turn_env \<Rightarrow> Manager \<Rightarrow> LiveSession \<Rightarrow> string" where
  "rotationCause env m lv =
     (if L_Turns lv \<ge> m_turnCap m then ''turn_cap''
      else
        let idleSince = (if L_LastSeen lv = 0 then L_CreatedAt lv else L_LastSeen lv) in
        if wrap64 ((Unix (te_clock env AtRotation) - idleSince) * second) \<ge> wrap64 (m_idleTTL m + second)
        then ''idle_ttl'' else [])"

definition rotate :: "turn_env \<Rightarrow> Manager \<Rightarrow> LiveSession \<Rightarrow> LiveSession turn" where
  "rotate env m lv s =
     (case mint env m (L_ThreadKey lv) (L_TrustFloor lv) (L_Cwd lv) (L_Origin lv) of
        Inl e \<Rightarrow> (Inl e, s)
      | Inr ses \<Rightarrow>
          (case guarded env RotateWrite (RotateSession (te_fs env) (L_SessionID lv) ses (fst s)) of
             Inl e \<Rightarrow> (Inl (TStore e), s)
           | Inr (canonical, d') \<Rightarrow> (Inr (live_of ses canonical), (d', snd s))))"

definition resumeFailureNote :: string where
  "resumeFailureNote = ''lost this thread'' @ [CHR 0x27] @ ''s conversation history '' @ [CHR 0xE2, CHR 0x80, CHR 0x94]
     @ '' facts intact, starting fresh''"

definition isResumeFailure :: "turn_error \<Rightarrow> bool" where
  "isResumeFailure e \<longleftrightarrow> e = TCwdGone \<or> e = TEngine EngResumeFailed"

definition degradeResumeFailed :: "turn_env \<Rightarrow> Manager \<Rightarrow> LiveSession \<Rightarrow> string \<Rightarrow> LiveSession turn" where
  "degradeResumeFailed env m lv cwd s =
     (case mint env m (L_ThreadKey lv) (L_TrustFloor lv) cwd (L_Origin lv) of
        Inl e \<Rightarrow> (Inl e, s)
      | Inr ses \<Rightarrow>
          (case guarded env DegradeWrite (ResumeFailSession (te_fs env) (L_SessionID lv) ses (fst s)) of
             Inl e \<Rightarrow> (Inl (TStore e), s)
           | Inr (canonical, d') \<Rightarrow> (Inr (live_of ses canonical), (d', snd s))))"

definition degradationNote :: "turn_env \<Rightarrow> string \<Rightarrow> db \<Rightarrow> turn_error + string" where
  "degradationNote env sid d =
     (if te_fails env DegradedRead then Inl (TStore ErrDriver)
      else Inr (if SessionDegraded sid d then resumeFailureNote else []))"

definition assertCwd :: "file_system \<Rightarrow> string \<Rightarrow> turn_error option" where
  "assertCwd fs cwd = (case fs_is_dir fs cwd of None \<Rightarrow> Some TCwdGone | Some b \<Rightarrow> if b then None else Some TCwdGone)"

definition RotateNow :: "turn_env \<Rightarrow> Manager \<Rightarrow> string \<Rightarrow> LiveSession turn" where
  "RotateNow env m threadKey s =
     (if te_fails env EnsureResolve then (Inl (TStore ErrDriver), s)
      else (case ResolveLiveSession threadKey (fst s) of
          None \<Rightarrow> (Inl TRefused, s)
        | Some lv \<Rightarrow>
            if L_Status lv \<noteq> Active then (Inl (TStore ErrNotActive), s)
            else (case assertCwd (te_fs env) (L_Cwd lv) of
                Some e \<Rightarrow> (Inl e, s)
              | None \<Rightarrow> rotate env m lv s)))"

section \<open>Turns\<close>

definition touch :: "turn_env \<Rightarrow> string \<Rightarrow> db \<Rightarrow> db" where
  "touch env sid d =
     (case guarded env TouchWrite (TouchSession sid (Unix (te_clock env AtTouch)) d) of Inl _ \<Rightarrow> d | Inr d' \<Rightarrow> d')"

definition startNew ::
  "turn_env \<Rightarrow> LiveSession \<Rightarrow> string \<Rightarrow> string \<Rightarrow> string \<Rightarrow> unit turn" where
  "startNew env lv note kind prompt s =
     (if te_fails env StartResolve then (Inl (TStore ErrDriver), s)
      else (case ResolveLiveSession (L_ThreadKey lv) (fst s) of
          None \<Rightarrow> (Inl TRefused, s)
        | Some current \<Rightarrow>
            if L_SessionID current \<noteq> L_SessionID lv \<or> L_Status current \<noteq> Creating then (Inl TRefused, s)
            else if L_ActivationDeadline current * second - te_clock env AtStart \<le> 0 then (Inl TDeadline, s)
            else if te_dead env True then (Inl TContext, s)
            else
              let sp = \<lparr>Sp_SessionID = L_SessionID current, Sp_ThreadKey = L_ThreadKey current, Sp_Cwd = L_Cwd current,
                        Sp_Kind = kind, Sp_Prompt = prompt, Sp_TransparencyNote = note\<rparr>;
                  (r, d1) = te_start env sp (fst s); s1 = (d1, snd s @ [StartCall sp (fst s)])
              in (case r of
                    Some e \<Rightarrow> (Inl (TEngine e), s1)
                  | None \<Rightarrow>
                      if Unix (te_clock env AtFinish) \<ge> L_ActivationDeadline current then (Inl TDeadline, s1)
                      else (case guarded env ActivateWrite (ActivateSession (L_SessionID current) d1) of
                          Inl e \<Rightarrow> (Inl (TStore e), s1)
                        | Inr d2 \<Rightarrow> (Inr (), (touch env (L_SessionID current) d2, snd s1))))))"

definition StartNew :: "turn_env \<Rightarrow> LiveSession \<Rightarrow> unit turn" where
  "StartNew env lv = startNew env lv [] [] []"

definition resume :: "turn_env \<Rightarrow> LiveSession \<Rightarrow> string \<Rightarrow> string \<Rightarrow> unit turn" where
  "resume env lv kind prompt s =
     (if te_fails env ResumeResolve then (Inl (TStore ErrDriver), s)
      else (case ResolveLiveSession (L_ThreadKey lv) (fst s) of
          None \<Rightarrow> (Inl TRefused, s)
        | Some current \<Rightarrow>
            if L_SessionID current \<noteq> L_SessionID lv \<or> L_Status current \<noteq> Active then (Inl TRefused, s)
            else (case assertCwd (te_fs env) (L_Cwd current) of
                Some e \<Rightarrow> (Inl e, s)
              | None \<Rightarrow>
                  if te_dead env False then (Inl TContext, s)
                  else
                    let sp = \<lparr>Sp_SessionID = L_SessionID current, Sp_ThreadKey = L_ThreadKey current,
                              Sp_Cwd = L_Cwd current, Sp_Kind = kind, Sp_Prompt = prompt, Sp_TransparencyNote = []\<rparr>;
                        (r, d1) = te_resume env sp (fst s); s1 = (d1, snd s @ [ResumeCall sp (fst s)])
                    in (case r of
                          Some e \<Rightarrow> (Inl (TEngine e), s1)
                        | None \<Rightarrow> (Inr (), (touch env (L_SessionID current) d1, snd s1))))))"

text \<open>A turn with no driving event.\<close>

definition Manager_Resume :: "turn_env \<Rightarrow> LiveSession \<Rightarrow> unit turn" where
  "Manager_Resume env lv s = resume env lv [] [] s"

record TurnRequest =
  Tr_ThreadKey :: string
  Tr_TrustFloor :: string
  Tr_Cwd :: string
  Tr_Kind :: string
  Tr_Prompt :: string

text \<open>The part of \<open>Turn\<close> after the cap checks: dispatch on the live session's status.\<close>

definition run_live :: "turn_env \<Rightarrow> Manager \<Rightarrow> TurnRequest \<Rightarrow> LiveSession \<Rightarrow> unit turn" where
  "run_live env m req lv s =
     (case L_Status lv of
        Creating \<Rightarrow>
          (case degradationNote env (L_SessionID lv) (fst s) of
             Inl e \<Rightarrow> (Inl e, s)
           | Inr note \<Rightarrow> startNew env lv note (Tr_Kind req) (Tr_Prompt req) s)
      | Active \<Rightarrow>
          (case resume env lv (Tr_Kind req) (Tr_Prompt req) s of
             (Inr _, s1) \<Rightarrow> (Inr (), s1)
           | (Inl e, s1) \<Rightarrow>
               if \<not> isResumeFailure e then (Inl e, s1)
               else (case degradeResumeFailed env m lv (Tr_Cwd req) s1 of
                   (Inl e', s2) \<Rightarrow> (Inl e', s2)
                 | (Inr fresh, s2) \<Rightarrow> startNew env fresh resumeFailureNote (Tr_Kind req) (Tr_Prompt req) s2))
      | _ \<Rightarrow> (Inl TRefused, s))"

definition Turn :: "turn_env \<Rightarrow> Manager \<Rightarrow> TurnRequest \<Rightarrow> unit turn" where
  "Turn env m req s =
     (case Ensure env m (Tr_ThreadKey req) (Tr_TrustFloor req) (Tr_Cwd req) s of
        (Inl e, s1) \<Rightarrow> (Inl e, s1)
      | (Inr (lv, _), s1) \<Rightarrow>
          if L_Status lv = Active \<and> rotationCause env m lv \<noteq> [] then
            (if assertCwd (te_fs env) (L_Cwd lv) \<noteq> None then
               (case degradeResumeFailed env m lv (Tr_Cwd req) s1 of
                  (Inl e, s2) \<Rightarrow> (Inl e, s2)
                | (Inr fresh, s2) \<Rightarrow> startNew env fresh resumeFailureNote (Tr_Kind req) (Tr_Prompt req) s2)
             else
               (case rotate env m lv s1 of
                  (Inl e, s2) \<Rightarrow> (Inl e, s2)
                | (Inr lv', s2) \<Rightarrow> run_live env m req lv' s2))
          else run_live env m req lv s1)"

section \<open>Lemmas on minting\<close>

lemma hex_digit_inj: "m < 16 \<Longrightarrow> n < 16 \<Longrightarrow> hex_digit m = hex_digit n \<longleftrightarrow> m = n"
proof -
  have "distinct ''0123456789abcdef''" by simp
  moreover assume "m < 16" "n < 16"
  ultimately show ?thesis unfolding hex_digit_def by (subst nth_eq_iff_index_eq) simp_all
qed

lemma byte_digits [simp]: "unat (b :: 8 word) div 16 < 16" "unat b mod 16 < 16"
proof -
  have "unat b < 2 ^ LENGTH(8)" by (rule unsigned_less)
  then show "unat b div 16 < 16" by (simp add: less_mult_imp_div_less)
qed simp

lemma hex_byte_inj [simp]: "hex_byte a = hex_byte b \<longleftrightarrow> a = b"
proof
  assume "hex_byte a = hex_byte b"
  then have "unat a div 16 = unat b div 16" "unat a mod 16 = unat b mod 16"
    by (simp_all add: hex_byte_def hex_digit_inj)
  then have "unat a = unat b" by (metis div_mult_mod_eq)
  then show "a = b" by (simp add: word_unat_eq_iff)
qed simp

lemma hex_byte_append [simp]: "hex_byte a @ xs = hex_byte b @ ys \<longleftrightarrow> a = b \<and> xs = ys"
  using hex_byte_inj [of a b] by (auto simp: hex_byte_def)

lemma high_nibble: "unat (w :: 8 word) div 16 = unat (drop_bit 4 w)"
  using drop_bit_eq_div [of 4 "unat w"] by (simp add: unat_drop_bit_eq)

lemma version_nibble: "unat (((x :: 8 word) AND 0x0f) OR 0x40) div 16 = 4"
proof -
  have "unat ((x AND 0x0f) OR 0x40) div 16 = unat (drop_bit 4 ((x AND 0x0f) OR 0x40))"
    by (rule high_nibble)
  also have "drop_bit 4 ((x AND 0x0f) OR 0x40) = 4" by simp
  finally show ?thesis by simp
qed

lemma variant_nibble: "unat (((x :: 8 word) AND 0x3f) OR 0x80) div 16 \<in> {8, 9, 10, 11}"
proof -
  define y where "y = drop_bit 4 x AND 3"
  have "unat ((x AND 0x3f) OR 0x80) div 16 = unat (drop_bit 4 ((x AND 0x3f) OR 0x80))"
    by (rule high_nibble)
  also have "drop_bit 4 ((x AND 0x3f) OR 0x80) = y OR 8" by (simp add: y_def)
  finally have e: "unat ((x AND 0x3f) OR 0x80) div 16 = unat (y OR 8)" .
  have "y = take_bit 2 (drop_bit 4 x)" by (simp add: y_def take_bit_eq_mask mask_eq_exp_minus_1)
  then have "unat y = take_bit 2 (unat (drop_bit 4 x))" by (simp only: unsigned_take_bit_eq)
  then have "unat y < 4" using take_bit_nat_less_exp [of 2 "unat (drop_bit 4 x)"] by simp
  then have "unat y = 0 \<or> unat y = 1 \<or> unat y = 2 \<or> unat y = 3" by linarith
  then have "y = 0 \<or> y = 1 \<or> y = 2 \<or> y = 3" by (auto simp: word_unat_eq_iff)
  then show ?thesis unfolding e by auto
qed

lemma masked_eq:
  "((x :: 8 word) AND 0x0f) OR 0x40 = (y AND 0x0f) OR 0x40 \<Longrightarrow> x AND 0x0f = y AND 0x0f"
  "(x AND 0x3f) OR 0x80 = (y AND 0x3f) OR 0x80 \<Longrightarrow> x AND 0x3f = y AND 0x3f"
proof -
  assume "((x :: 8 word) AND 0x0f) OR 0x40 = (y AND 0x0f) OR 0x40"
  from arg_cong [OF this, of "\<lambda>w. w AND 0x0f"] show "x AND 0x0f = y AND 0x0f"
    by (simp add: bit.conj_disj_distrib2 and.assoc)
next
  assume "(x AND 0x3f) OR 0x80 = (y AND 0x3f) OR 0x80"
  from arg_cong [OF this, of "\<lambda>w. w AND 0x3f"] show "x AND 0x3f = y AND 0x3f"
    by (simp add: bit.conj_disj_distrib2 and.assoc)
qed

lemma list16: assumes "length b = 16"
  obtains b0 b1 b2 b3 b4 b5 b6 b7 b8 b9 b10 b11 b12 b13 b14 b15 where
  "b = [b0, b1, b2, b3, b4, b5, b6, b7, b8, b9, b10, b11, b12, b13, b14, b15]"
  using assms by (auto simp: numeral_eq_Suc length_Suc_conv)

lemma live_of_scan: "live_of s c = scanLiveSession (new_session_row s c)"
  by (simp add: live_of_def scanLiveSession_def new_session_row_def null_int_def)

lemma mint_InrE:
  assumes "mint env m t fl cwd origin = Inr ses"
  obtains i where "newSessionID (te_rand env) = Some i" "S_ThreadKey ses = t" "S_SessionID ses = i"
    "S_CreatedAt ses = Unix (te_clock env AtMint)"
    "S_ActivationDeadline ses = (let e = te_clock env AtMint + m_window m in if Unix e * second < e then Unix e + 1 else Unix e)"
  using assms by (auto simp: mint_def Let_def split: option.splits)

lemma ceil_second:
  fixes e :: int
  defines "c \<equiv> (if Unix e * second < e then Unix e + 1 else Unix e)"
  shows "e \<le> c * second" "c * second < e + second"
proof -
  have "e = Unix e * second + e mod second" "0 \<le> e mod second" "e mod second < second"
    by (simp_all add: Unix_def second_def)
  then show "e \<le> c * second" "c * second < e + second" by (auto simp: c_def second_def)
qed

lemma Unix_bounds: "Unix t * second \<le> t" "t < (Unix t + 1) * second"
  unfolding Unix_def second_def by (simp_all add: mult_div_mod_eq [symmetric])

section \<open>Lemmas on turns\<close>

definition engine_keeps :: "turn_env \<Rightarrow> bool" where
  "engine_keeps env \<longleftrightarrow> (\<forall>sp d. sessions (snd (te_start env sp d)) = sessions d \<and> sessions (snd (te_resume env sp d)) = sessions d \<and>
     (wf_db d \<longrightarrow> wf_db (snd (te_start env sp d)) \<and> wf_db (snd (te_resume env sp d))))"

text \<open>What must hold of every engine call, on the database it is made on.\<close>

fun call_ok :: "turn_env \<Rightarrow> string \<Rightarrow> engine_call \<Rightarrow> bool" where
  "call_ok env t (StartCall sp d) \<longleftrightarrow> Sp_ThreadKey sp = t \<and>
     (\<exists>lv. ResolveLiveSession t d = Some lv \<and> L_SessionID lv = Sp_SessionID sp \<and> L_Cwd lv = Sp_Cwd sp \<and>
        L_Status lv = Creating \<and> te_clock env AtStart < L_ActivationDeadline lv * second) \<and>
     Sp_TransparencyNote sp = (if SessionDegraded (Sp_SessionID sp) d then resumeFailureNote else [])"
| "call_ok env t (ResumeCall sp d) \<longleftrightarrow> Sp_ThreadKey sp = t \<and>
     (\<exists>lv. ResolveLiveSession t d = Some lv \<and> L_SessionID lv = Sp_SessionID sp \<and> L_Cwd lv = Sp_Cwd sp \<and>
        L_Status lv = Active \<and> fs_is_dir (te_fs env) (L_Cwd lv) = Some True) \<and>
     Sp_TransparencyNote sp = []"

lemma guarded_Inr: "guarded env c r = Inr x \<Longrightarrow> r = Inr x"
  by (simp add: guarded_def split: if_splits)

lemma ResolveLive_thread: "ResolveLiveSession t d = Some lv \<Longrightarrow> L_ThreadKey lv = t"
  by (auto dest!: ResolveLive_SomeD simp: scanLiveSession_def)

lemma ResolveLive_status: "ResolveLiveSession t d = Some lv \<Longrightarrow> L_Status lv = Creating \<or> L_Status lv = Active"
  by (auto dest!: ResolveLive_SomeD simp: scanLiveSession_def live_def live_status_def)

lemma ResolveLive_cong: "sessions d' = sessions d \<Longrightarrow> ResolveLiveSession t d' = ResolveLiveSession t d"
  by (simp add: ResolveLiveSession_def)

lemma retire_step:
  assumes "guarded env c (retireSession fs old ses from to err d) = Inr (canonical, d')" and "retirement from to" and "wf_db d"
  shows "wf_db d'" "ResolveLiveSession (S_ThreadKey ses) d' = Some (live_of ses canonical)"
    "SessionDegraded (S_SessionID ses) d' \<longleftrightarrow> to = ResumeFailed \<or> (to = Failed \<and> SessionDegraded old d)"
proof -
  note r = guarded_Inr [OF assms(1)]
  show "wf_db d'" by (rule retire_wf [OF r assms(2,3)])
  show "ResolveLiveSession (S_ThreadKey ses) d' = Some (live_of ses canonical)"
    unfolding live_of_scan by (rule retire_resolve [OF assms(3) r assms(2)])
  show "SessionDegraded (S_SessionID ses) d' \<longleftrightarrow> to = ResumeFailed \<or> (to = Failed \<and> SessionDegraded old d)"
    by (rule retire_degraded [OF assms(3) r assms(2)])
qed

lemma pin_ok:
  assumes "pin env m t fl cwd (d, tr) = (Inr (lv, b), (d', tr'))" and "wf_db d"
  shows "tr' = tr \<and> wf_db d' \<and> ResolveLiveSession t d' = Some lv"
proof -
  from assms(1) obtain ses canonical where m: "mint env m t fl cwd [] = Inr ses"
    and i: "guarded env PinWrite (InsertSession (te_fs env) ses d) = Inr (canonical, d')"
    and lv: "lv = live_of ses canonical" "tr' = tr"
    by (auto simp: pin_def split: sum.splits prod.splits)
  from guarded_Inr [OF i] have ins: "insertSession (te_fs env) ses d = Inr (canonical, d')" by (simp add: InsertSession_def)
  have wf: "wf_db d'" by (rule insertSession_wf [OF ins assms(2)])
  have "new_session_row ses canonical \<in> set (sessions d')" using ins by (rule insertSession_InrE) simp
  from ResolveLive_eq [OF wf this new_session_live] m
  have "ResolveLiveSession t d' = Some lv" by (auto simp: lv(1) live_of_scan new_session_row_def elim!: mint_InrE)
  with wf lv(2) show ?thesis by simp
qed

lemma Ensure_ok:
  assumes "Ensure env m t fl cwd (d, tr) = (Inr (lv, b), (d', tr'))" and "wf_db d"
  shows "tr' = tr \<and> wf_db d' \<and> ResolveLiveSession t d' = Some lv"
proof (cases "ResolveLiveSession t d")
  case None
  with assms pin_ok [of env m t fl cwd d tr lv b d' tr'] show ?thesis by (simp add: Ensure_def split: if_splits)
next
  case (Some old)
  show ?thesis
  proof (cases "L_Status old = Active \<or> Unix (te_clock env AtEnsure) < L_ActivationDeadline old")
    case True
    with assms Some show ?thesis by (auto simp: Ensure_def split: if_splits)
  next
    case False
    with assms(1) Some obtain ses canonical where m: "mint env m t fl cwd (L_Origin old) = Inr ses"
      and i: "guarded env ExpireWrite (ExpireSession (te_fs env) (L_SessionID old) ses d) = Inr (canonical, d')"
      and lv: "lv = live_of ses canonical" "tr' = tr"
      by (auto simp: Ensure_def split: sum.splits prod.splits if_splits)
    have "S_ThreadKey ses = t" using m by (rule mint_InrE)
    with retire_step(1,2) [OF i [unfolded ExpireSession_def] _ assms(2)] lv show ?thesis by (simp add: retirement_def)
  qed
qed

lemma Ensure_error: "Ensure env m t fl cwd s = (Inl e, s') \<Longrightarrow> s' = s"
  by (auto simp: Ensure_def pin_def split: if_splits option.splits sum.splits prod.splits)

lemma rotate_ok:
  assumes "rotate env m lv (d, tr) = (Inr lv', (d', tr'))" and "wf_db d"
  shows "tr' = tr \<and> wf_db d' \<and> ResolveLiveSession (L_ThreadKey lv) d' = Some lv' \<and> L_Status lv' = Creating"
proof -
  from assms(1) obtain ses canonical where m: "mint env m (L_ThreadKey lv) (L_TrustFloor lv) (L_Cwd lv) (L_Origin lv) = Inr ses"
    and i: "guarded env RotateWrite (RotateSession (te_fs env) (L_SessionID lv) ses d) = Inr (canonical, d')"
    and lv: "lv' = live_of ses canonical" "tr' = tr"
    by (auto simp: rotate_def split: sum.splits prod.splits)
  have "S_ThreadKey ses = L_ThreadKey lv" using m by (rule mint_InrE)
  with retire_step(1,2) [OF i [unfolded RotateSession_def] _ assms(2)] lv show ?thesis
    by (simp add: retirement_def live_of_def)
qed

lemma degrade_ok:
  assumes "degradeResumeFailed env m lv cwd (d, tr) = (Inr lv', (d', tr'))" and "wf_db d"
  shows "tr' = tr \<and> wf_db d' \<and> L_ThreadKey lv' = L_ThreadKey lv \<and> SessionDegraded (L_SessionID lv') d'"
proof -
  from assms(1) obtain ses canonical where m: "mint env m (L_ThreadKey lv) (L_TrustFloor lv) cwd (L_Origin lv) = Inr ses"
    and i: "guarded env DegradeWrite (ResumeFailSession (te_fs env) (L_SessionID lv) ses d) = Inr (canonical, d')"
    and lv: "lv' = live_of ses canonical" "tr' = tr"
    by (auto simp: degradeResumeFailed_def split: sum.splits prod.splits)
  have "S_ThreadKey ses = L_ThreadKey lv" using m by (rule mint_InrE)
  with retire_step(1,3) [OF i [unfolded ResumeFailSession_def] _ assms(2)] lv show ?thesis
    by (simp add: retirement_def live_of_def)
qed

lemma step_errors:
  "rotate env m lv s = (Inl e, s') \<Longrightarrow> s' = s" "degradeResumeFailed env m lv cwd s = (Inl e, s') \<Longrightarrow> s' = s"
  by (auto simp: rotate_def degradeResumeFailed_def split: sum.splits prod.splits)

lemma touch_wf: "wf_db d \<Longrightarrow> wf_db (touch env sid d)"
  by (auto simp: touch_def split: sum.splits dest!: guarded_Inr Touch_wf)

lemma touch_row:
  assumes "r \<in> set (sessions d)"
  shows "\<exists>r' \<in> set (sessions (touch env sid d)). se_session_id r' = se_session_id r \<and> se_thread_key r' = se_thread_key r \<and>
    se_status r' = se_status r \<and> se_cwd r' = se_cwd r"
proof (cases "guarded env TouchWrite (TouchSession sid (Unix (te_clock env AtTouch)) d)")
  case (Inl a)
  with assms show ?thesis by (auto simp: touch_def)
next
  case (Inr d')
  then have d': "touch env sid d = d'" by (simp add: touch_def)
  from guarded_Inr [OF Inr] show ?thesis
    unfolding d' by (rule Touch_InrE) (use assms in \<open>auto simp: bex_sql_update\<close>)
qed

text \<open>After a successful turn the thread's live session is the active one the engine ran on.\<close>

definition ran_active :: "string \<Rightarrow> string \<Rightarrow> string \<Rightarrow> db \<Rightarrow> bool" where
  "ran_active t sid cwd d \<longleftrightarrow> (\<exists>lv. ResolveLiveSession t d = Some lv \<and> L_Status lv = Active \<and> L_SessionID lv = sid \<and> L_Cwd lv = cwd)"

lemma ran_activeI:
  assumes "wf_db d" and "r \<in> set (sessions d)" and "se_status r = Active"
  shows "ran_active (se_thread_key r) (se_session_id r) (se_cwd r) (touch env sid d)"
proof -
  obtain r' where r': "r' \<in> set (sessions (touch env sid d))" "se_session_id r' = se_session_id r"
    "se_thread_key r' = se_thread_key r" "se_status r' = Active" "se_cwd r' = se_cwd r"
    using touch_row [OF assms(2)] assms(3) by metis
  have "live r'" using r'(4) by (simp add: live_def live_status_def)
  from ResolveLive_eq [OF touch_wf [OF assms(1)] r'(1) this] r' show ?thesis
    by (simp add: ran_active_def scanLiveSession_def)
qed

lemma startNew_ok:
  assumes "startNew env lv note kind prompt (d, tr) = (res, (d', tr'))" and wf: "wf_db d" and eng: "engine_keeps env"
    and nt: "note = (if SessionDegraded (L_SessionID lv) d then resumeFailureNote else [])"
  shows "wf_db d' \<and>
    ((tr' = tr \<and> (\<exists>e. res = Inl e)) \<or>
     (\<exists>sp. tr' = tr @ [StartCall sp d] \<and> call_ok env (L_ThreadKey lv) (StartCall sp d) \<and>
        (res = Inr () \<longrightarrow> ran_active (L_ThreadKey lv) (Sp_SessionID sp) (Sp_Cwd sp) d')))"
proof (cases "\<exists>current. ResolveLiveSession (L_ThreadKey lv) d = Some current \<and> L_SessionID current = L_SessionID lv \<and>
    L_Status current = Creating \<and> te_clock env AtStart < L_ActivationDeadline current * second \<and>
    \<not> te_dead env True \<and> \<not> te_fails env StartResolve")
  case False
  then have "d' = d" "tr' = tr" "\<exists>e. res = Inl e"
    using assms(1) by (auto simp: startNew_def split: if_splits option.splits)
  with wf show ?thesis by blast
next
  case True
  then obtain cur where cur: "ResolveLiveSession (L_ThreadKey lv) d = Some cur" "L_SessionID cur = L_SessionID lv"
    "L_Status cur = Creating" "te_clock env AtStart < L_ActivationDeadline cur * second" "\<not> te_dead env True" "\<not> te_fails env StartResolve" by blast
  define sp where "sp = \<lparr>Sp_SessionID = L_SessionID lv, Sp_ThreadKey = L_ThreadKey cur, Sp_Cwd = L_Cwd cur,
                        Sp_Kind = kind, Sp_Prompt = prompt, Sp_TransparencyNote = note\<rparr>"
  obtain r d1 where eng1: "te_start env sp d = (r, d1)" by fastforce
  have keep: "sessions d1 = sessions d" "wf_db d1" using eng wf eng1 unfolding engine_keeps_def by (metis snd_conv)+
  have ok: "call_ok env (L_ThreadKey lv) (StartCall sp d)"
    using cur nt ResolveLive_thread [OF cur(1)] by (simp add: sp_def)
  have run: "startNew env lv note kind prompt (d, tr) =
    (case r of
       Some e \<Rightarrow> (Inl (TEngine e), (d1, tr @ [StartCall sp d]))
     | None \<Rightarrow>
         if Unix (te_clock env AtFinish) \<ge> L_ActivationDeadline cur then (Inl TDeadline, (d1, tr @ [StartCall sp d]))
         else (case guarded env ActivateWrite (ActivateSession (L_SessionID lv) d1) of
             Inl e \<Rightarrow> (Inl (TStore e), (d1, tr @ [StartCall sp d]))
           | Inr d2 \<Rightarrow> (Inr (), (touch env (L_SessionID lv) d2, tr @ [StartCall sp d]))))"
    using cur eng1 by (simp add: startNew_def Let_def sp_def split: option.split sum.split)
  consider (fail) e where "res = Inl e" "d' = d1" "tr' = tr @ [StartCall sp d]"
    | (finished) d2 where "res = Inr ()" "d' = touch env (L_SessionID lv) d2" "tr' = tr @ [StartCall sp d]"
        "guarded env ActivateWrite (ActivateSession (L_SessionID lv) d1) = Inr d2"
    using assms(1) unfolding run by (auto split: option.splits if_splits sum.splits)
  then show ?thesis
  proof cases
    case fail
    with keep(2) ok show ?thesis by blast
  next
    case (finished d2)
    from guarded_Inr [OF finished(4)] have tr2: "transitionCreating (L_SessionID lv) Active d1 = Inr d2" by (simp add: ActivateSession_def)
    have wf2: "wf_db d2" using Transition_wf [OF tr2 _ keep(2)] by simp
    obtain row where row: "row \<in> set (sessions d)" "se_thread_key row = L_ThreadKey lv" "cur = scanLiveSession row"
      using ResolveLive_SomeD [OF cur(1)] by blast
    have "row\<lparr>se_status := Active\<rparr> \<in> set (sessions d2)"
      using tr2
    proof (rule Transition_InrE)
      assume d2: "d2 = d1\<lparr>sessions := sql_update (\<lambda>r. se_session_id r = L_SessionID lv \<and> se_status r = Creating)
          (\<lambda>r. r\<lparr>se_status := Active\<rparr>) (sessions d1)\<rparr>"
      show ?thesis
        using in_sql_updateI_changed [of row "sessions d1" "\<lambda>r. se_session_id r = L_SessionID lv \<and> se_status r = Creating" "\<lambda>r. r\<lparr>se_status := Active\<rparr>"]
          row keep(1) cur(2,3) by (simp add: d2 scanLiveSession_def)
    qed
    from ran_activeI [OF wf2 this, of env "L_SessionID lv"] row finished(2) cur(2)
    have "ran_active (L_ThreadKey lv) (Sp_SessionID sp) (Sp_Cwd sp) d'" by (simp add: sp_def scanLiveSession_def)
    with ok finished touch_wf [OF wf2] show ?thesis by blast
  qed
qed


lemma resume_ok:
  assumes "resume env lv kind prompt (d, tr) = (res, (d', tr'))" and wf: "wf_db d" and eng: "engine_keeps env"
  shows "wf_db d' \<and>
    ((tr' = tr \<and> (\<exists>e. res = Inl e)) \<or>
     (\<exists>sp. tr' = tr @ [ResumeCall sp d] \<and> call_ok env (L_ThreadKey lv) (ResumeCall sp d) \<and>
        (res = Inr () \<longrightarrow> ran_active (L_ThreadKey lv) (Sp_SessionID sp) (Sp_Cwd sp) d')))"
proof (cases "\<exists>current. ResolveLiveSession (L_ThreadKey lv) d = Some current \<and> L_SessionID current = L_SessionID lv \<and>
    L_Status current = Active \<and> assertCwd (te_fs env) (L_Cwd current) = None \<and>
    \<not> te_dead env False \<and> \<not> te_fails env ResumeResolve")
  case False
  then have "d' = d" "tr' = tr" "\<exists>e. res = Inl e"
    using assms(1) by (auto simp: resume_def split: if_splits option.splits)
  with wf show ?thesis by blast
next
  case True
  then obtain cur where cur: "ResolveLiveSession (L_ThreadKey lv) d = Some cur" "L_SessionID cur = L_SessionID lv"
    "L_Status cur = Active" "assertCwd (te_fs env) (L_Cwd cur) = None" "\<not> te_dead env False" "\<not> te_fails env ResumeResolve" by blast
  define sp where "sp = \<lparr>Sp_SessionID = L_SessionID lv, Sp_ThreadKey = L_ThreadKey cur, Sp_Cwd = L_Cwd cur,
                        Sp_Kind = kind, Sp_Prompt = prompt, Sp_TransparencyNote = []\<rparr>"
  obtain r d1 where eng1: "te_resume env sp d = (r, d1)" by fastforce
  have keep: "sessions d1 = sessions d" "wf_db d1" using eng wf eng1 unfolding engine_keeps_def by (metis snd_conv)+
  have dir: "fs_is_dir (te_fs env) (L_Cwd cur) = Some True"
    using cur(4) by (auto simp: assertCwd_def split: option.splits if_splits)
  have ok: "call_ok env (L_ThreadKey lv) (ResumeCall sp d)"
    using cur dir ResolveLive_thread [OF cur(1)] by (simp add: sp_def)
  have run: "resume env lv kind prompt (d, tr) =
    (case r of
       Some e \<Rightarrow> (Inl (TEngine e), (d1, tr @ [ResumeCall sp d]))
     | None \<Rightarrow> (Inr (), (touch env (L_SessionID lv) d1, tr @ [ResumeCall sp d])))"
    using cur eng1 by (simp add: resume_def Let_def sp_def split: option.split)
  show ?thesis
  proof (cases r)
    case (Some e)
    with assms(1) keep(2) ok show ?thesis unfolding run by auto
  next
    case None
    obtain row where row: "row \<in> set (sessions d)" "se_thread_key row = L_ThreadKey lv" "cur = scanLiveSession row"
      using ResolveLive_SomeD [OF cur(1)] by blast
    have act: "se_status row = Active" using cur(3) row(3) by (simp add: scanLiveSession_def)
    have res: "d' = touch env (L_SessionID lv) d1" "tr' = tr @ [ResumeCall sp d]" using assms(1) None unfolding run by auto
    from ran_activeI [OF keep(2) _ act, of env "L_SessionID lv"] row keep(1) cur(2)
    have "ran_active (L_ThreadKey lv) (Sp_SessionID sp) (Sp_Cwd sp) d'" by (simp add: res sp_def scanLiveSession_def)
    with ok res touch_wf [OF keep(2)] show ?thesis by blast
  qed
qed

text \<open>The contract of every way a turn can go on from a state.\<close>

definition turn_ok :: "turn_env \<Rightarrow> string \<Rightarrow> nat \<Rightarrow> engine_call list \<Rightarrow> (turn_error + unit) \<times> (db \<times> engine_call list) \<Rightarrow> bool" where
  "turn_ok env t n tr out \<longleftrightarrow>
     (case out of (res, (d', tr')) \<Rightarrow>
        wf_db d' \<and>
        (\<exists>new. tr' = tr @ new \<and> length new \<le> n \<and> list_all (call_ok env t) new \<and>
           (res = Inr () \<longrightarrow> (\<exists>sp d0. (last new = StartCall sp d0 \<or> last new = ResumeCall sp d0) \<and> new \<noteq> [] \<and>
              ran_active t (Sp_SessionID sp) (Sp_Cwd sp) d'))))"

lemma turn_ok_none: "wf_db d \<Longrightarrow> turn_ok env t n tr (Inl e, (d, tr))"
  by (simp add: turn_ok_def)

lemma turn_ok_mono: "turn_ok env t n tr out \<Longrightarrow> n \<le> k \<Longrightarrow> turn_ok env t k tr out"
  by (fastforce simp: turn_ok_def split: prod.splits)

lemma turn_ok_start:
  assumes "wf_db d" "engine_keeps env" "note = (if SessionDegraded (L_SessionID lv) d then resumeFailureNote else [])"
    "L_ThreadKey lv = t"
  shows "turn_ok env t 1 tr (startNew env lv note kind prompt (d, tr))"
proof -
  obtain res d' tr' where out: "startNew env lv note kind prompt (d, tr) = (res, (d', tr'))" by (metis prod.collapse)
  from startNew_ok [OF this assms(1-3)] assms(4) have wf: "wf_db d'"
    and "(tr' = tr \<and> (\<exists>e. res = Inl e)) \<or>
     (\<exists>sp. tr' = tr @ [StartCall sp d] \<and> call_ok env t (StartCall sp d) \<and>
        (res = Inr () \<longrightarrow> ran_active t (Sp_SessionID sp) (Sp_Cwd sp) d'))" by auto
  then consider (a) e where "tr' = tr" "res = Inl e"
    | (b) sp where "tr' = tr @ [StartCall sp d]" "call_ok env t (StartCall sp d)"
        "res = Inr () \<longrightarrow> ran_active t (Sp_SessionID sp) (Sp_Cwd sp) d'" by blast
  then show ?thesis
  proof cases
    case a
    with wf show ?thesis by (simp add: out turn_ok_none)
  next
    case b
    then show ?thesis using wf unfolding out turn_ok_def
      by (intro case_prodI conjI exI [of _ "[StartCall sp d]"] impI exI [of _ sp] exI [of _ d]) (auto simp del: call_ok.simps)
  qed
qed

lemma turn_ok_extend:
  assumes "turn_ok env t n (tr @ mid) out" and "list_all (call_ok env t) mid"
  shows "turn_ok env t (length mid + n) tr out"
proof -
  obtain res d' tr' where out: "out = (res, (d', tr'))" by (metis prod.collapse)
  from assms(1) obtain new where new: "tr' = (tr @ mid) @ new" "length new \<le> n" "list_all (call_ok env t) new" "wf_db d'"
    "res = Inr () \<longrightarrow> (\<exists>sp d0. (last new = StartCall sp d0 \<or> last new = ResumeCall sp d0) \<and> new \<noteq> [] \<and>
              ran_active t (Sp_SessionID sp) (Sp_Cwd sp) d')"
    unfolding out turn_ok_def by blast
  have "res = Inr () \<longrightarrow> (\<exists>sp d0. (last (mid @ new) = StartCall sp d0 \<or> last (mid @ new) = ResumeCall sp d0) \<and> mid @ new \<noteq> [] \<and>
              ran_active t (Sp_SessionID sp) (Sp_Cwd sp) d')" using new(5) by auto
  moreover have "tr' = tr @ (mid @ new)" "length (mid @ new) \<le> length mid + n" "list_all (call_ok env t) (mid @ new)"
    using new(1-3) assms(2) by simp_all
  ultimately show ?thesis using new(4) unfolding out turn_ok_def by blast
qed

lemma degrade_then_start:
  assumes "wf_db d" "engine_keeps env" "L_ThreadKey lv = t"
  shows "turn_ok env t 1 tr (case degradeResumeFailed env m lv cwd (d, tr) of
      (Inl e', s2) \<Rightarrow> (Inl e', s2)
    | (Inr fresh, s2) \<Rightarrow> startNew env fresh resumeFailureNote kind prompt s2)"
proof -
  obtain r d2 tr2 where dg: "degradeResumeFailed env m lv cwd (d, tr) = (r, (d2, tr2))" by (metis prod.collapse)
  show ?thesis
  proof (cases r)
    case (Inl e)
    with step_errors(2) [of env m lv cwd "(d, tr)" e "(d2, tr2)"] dg assms(1) show ?thesis by (simp add: turn_ok_none)
  next
    case (Inr fresh)
    from degrade_ok [OF dg [unfolded Inr] assms(1)] assms(3) have *: "tr2 = tr" "wf_db d2" "L_ThreadKey fresh = t"
      "SessionDegraded (L_SessionID fresh) d2" by auto
    from turn_ok_start [OF *(2) assms(2) _ *(3)] *(1,4) dg Inr show ?thesis by simp
  qed
qed

lemma run_live_ok:
  assumes "wf_db d" "engine_keeps env" "ResolveLiveSession t d = Some lv"
  shows "turn_ok env t 2 tr (run_live env m req lv (d, tr))"
proof -
  note th = ResolveLive_thread [OF assms(3)]
  from ResolveLive_status [OF assms(3)] consider "L_Status lv = Creating" | "L_Status lv = Active" by blast
  then show ?thesis
  proof cases
    case 1
    with turn_ok_start [OF assms(1,2) refl th, THEN turn_ok_mono, of 2] assms(1) turn_ok_none show ?thesis
      by (simp add: run_live_def degradationNote_def)
  next
    case 2
    obtain r d1 tr1 where out: "resume env lv (Tr_Kind req) (Tr_Prompt req) (d, tr) = (r, (d1, tr1))" by (metis prod.collapse)
    from resume_ok [OF this assms(1,2)] th obtain mid where res: "tr1 = tr @ mid" "length mid \<le> 1" "list_all (call_ok env t) mid" "wf_db d1"
      "r = Inr () \<longrightarrow> (\<exists>sp d0. last mid = ResumeCall sp d0 \<and> mid \<noteq> [] \<and> ran_active t (Sp_SessionID sp) (Sp_Cwd sp) d1)"
      by (elim conjE disjE exE) (auto simp del: call_ok.simps)
    show ?thesis
    proof (cases r)
      case (Inr u)
      have "turn_ok env t 2 tr (Inr (), (d1, tr1))"
        unfolding turn_ok_def using res Inr by (auto simp del: call_ok.simps intro!: exI [of _ mid])
      with 2 out Inr show ?thesis by (simp add: run_live_def)
    next
      case (Inl e)
      have stop: "turn_ok env t 2 tr (Inl e, (d1, tr1))" using res unfolding turn_ok_def by auto
      from degrade_then_start [OF res(4) assms(2) th, where tr = tr1 and m = m and cwd = "Tr_Cwd req" and kind = "Tr_Kind req" and prompt = "Tr_Prompt req"]
      have "turn_ok env t 1 (tr @ mid) (case degradeResumeFailed env m lv (Tr_Cwd req) (d1, tr1) of
          (Inl e', s2) \<Rightarrow> (Inl e', s2)
        | (Inr fresh, s2) \<Rightarrow> startNew env fresh resumeFailureNote (Tr_Kind req) (Tr_Prompt req) s2)" unfolding res(1) .
      from turn_ok_mono [OF turn_ok_extend [OF this res(3)], of 2] res(2) 2 out Inl stop show ?thesis
        by (simp add: run_live_def)
    qed
  qed
qed


lemma Turn_ok:
  assumes "wf_db d" "engine_keeps env"
  shows "turn_ok env (Tr_ThreadKey req) 2 tr (Turn env m req (d, tr))"
proof -
  let ?t = "Tr_ThreadKey req"
  obtain r d1 tr1 where en: "Ensure env m ?t (Tr_TrustFloor req) (Tr_Cwd req) (d, tr) = (r, (d1, tr1))" by (metis prod.collapse)
  show ?thesis
  proof (cases r)
    case (Inl e)
    with Ensure_error [OF en [unfolded Inl]] en assms(1) show ?thesis by (simp add: Turn_def turn_ok_none)
  next
    case (Inr p)
    obtain lv b where p: "p = (lv, b)" by fastforce
    from Ensure_ok [OF en [unfolded Inr p] assms(1)] have e: "tr1 = tr" "wf_db d1" "ResolveLiveSession ?t d1 = Some lv" by simp_all
    note th = ResolveLive_thread [OF e(3)]
    have dg: "turn_ok env ?t 2 tr (case degradeResumeFailed env m lv (Tr_Cwd req) (d1, tr) of
        (Inl e', s2) \<Rightarrow> (Inl e', s2)
      | (Inr fresh, s2) \<Rightarrow> startNew env fresh resumeFailureNote (Tr_Kind req) (Tr_Prompt req) s2)"
      by (rule turn_ok_mono [OF degrade_then_start [OF e(2) assms(2) th]]) simp
    have live: "turn_ok env ?t 2 tr (run_live env m req lv (d1, tr))" by (rule run_live_ok [OF e(2) assms(2) e(3)])
    have rt: "turn_ok env ?t 2 tr (case rotate env m lv (d1, tr) of
        (Inl e, s2) \<Rightarrow> (Inl e, s2) | (Inr lv', s2) \<Rightarrow> run_live env m req lv' s2)"
    proof -
      obtain q d2 tr2 where ro: "rotate env m lv (d1, tr) = (q, (d2, tr2))" by (metis prod.collapse)
      show ?thesis
      proof (cases q)
        case (Inl e')
        with step_errors(1) [of env m lv "(d1, tr)" e' "(d2, tr2)"] ro e(2) show ?thesis by (simp add: turn_ok_none)
      next
        case (Inr lv')
        from rotate_ok [OF ro [unfolded Inr] e(2)] th have "tr2 = tr" "wf_db d2" "ResolveLiveSession ?t d2 = Some lv'" by simp_all
        with run_live_ok [of d2 env ?t lv' tr m req] assms(2) ro Inr show ?thesis by simp
      qed
    qed
    from dg live rt en Inr p e(1) show ?thesis by (simp add: Turn_def)
  qed
qed

section \<open>Properties\<close>

text \<open>
  C11: A turn on a well-formed store drives the engine at most twice, and every engine call is made
  for the thread's one live session of that moment: its identity, its recorded directory, its status
  (a start only on a session still in its activation window, a resume only on an active session whose
  directory still exists), and with the transparency note exactly when a start follows a lost history.
  The turn keeps the store well formed, and when it reports success the thread's live session is the
  active one the last engine call ran on.
\<close>

theorem Turn_drives_live_session:
  assumes "wf_db d" and "engine_keeps env" and "Turn env m req (d, []) = (res, (d', calls))"
  shows "wf_db d' \<and> length calls \<le> 2 \<and> list_all (call_ok env (Tr_ThreadKey req)) calls \<and>
    (res = Inr () \<longrightarrow> (\<exists>sp d0. (last calls = StartCall sp d0 \<or> last calls = ResumeCall sp d0) \<and> calls \<noteq> [] \<and>
       ran_active (Tr_ThreadKey req) (Sp_SessionID sp) (Sp_Cwd sp) d'))"
  using Turn_ok [OF assms(1,2), of req "[]" m] unfolding assms(3) turn_ok_def by auto

definition ex_turn_env :: turn_env where
  "ex_turn_env = \<lparr>te_clock = (\<lambda>_. 1000 * second), te_fs = ex_fs, te_rand = Some (replicate 16 0), te_fails = (\<lambda>_. False),
     te_dead = (\<lambda>_. False), te_start = (\<lambda>_ d. (None, d)), te_resume = (\<lambda>_ d. (Some EngResumeFailed, d))\<rparr>"

definition ex_req :: TurnRequest where
  "ex_req = \<lparr>Tr_ThreadKey = ''discord:dm:7'', Tr_TrustFloor = ''full'', Tr_Cwd = ''/w'', Tr_Kind = ''user'', Tr_Prompt = ''hi''\<rparr>"

definition ex_manager :: Manager where
  "ex_manager = NewManager \<lparr>cfg_ActivationWindow = 0, cfg_IdleTTL = 0, cfg_TurnCap = 0\<rparr>"

lemma ex_engine_keeps: "engine_keeps ex_turn_env"
  by (simp add: engine_keeps_def ex_turn_env_def)

theorem Turn_drives_live_session_witness:
  "\<exists>res d' calls. Turn ex_turn_env ex_manager ex_req (ex_turn_db, []) = (res, (d', calls)) \<and> wf_db d' \<and>
     length calls \<le> 2 \<and> list_all (call_ok ex_turn_env ''discord:dm:7'') calls"
proof -
  obtain res d' calls where r: "Turn ex_turn_env ex_manager ex_req (ex_turn_db, []) = (res, (d', calls))" by (metis prod.collapse)
  from Turn_drives_live_session [OF wf_ex_turn_db ex_engine_keeps r] r show ?thesis by (auto simp: ex_req_def)
qed

text \<open>
  \<open>newSessionID\<close> formats 16 random bytes as a version-4 UUID: 36 characters, dashes at the four
  standard places, version digit 4 and a variant digit from 8, 9, a, b; and it loses none of the
  122 free bits: two draws get the same identity only if they agree on all of them.
\<close>

lemma newSessionID_v4:
  assumes "length b = 16" and "length c = 16"
  shows "\<exists>s t. newSessionID (Some b) = Some s \<and> newSessionID (Some c) = Some t \<and> length s = 36 \<and>
    s ! 8 = CHR ''-'' \<and> s ! 13 = CHR ''-'' \<and> s ! 18 = CHR ''-'' \<and> s ! 23 = CHR ''-'' \<and>
    s ! 14 = CHR ''4'' \<and> s ! 19 \<in> set ''89ab'' \<and>
    (s = t \<longrightarrow> b[6 := b ! 6 AND 0x0f, 8 := b ! 8 AND 0x3f] = c[6 := c ! 6 AND 0x0f, 8 := c ! 8 AND 0x3f])"
proof -
  obtain b0 b1 b2 b3 b4 b5 b6 b7 b8 b9 b10 b11 b12 b13 b14 b15 where
    b: "b = [b0, b1, b2, b3, b4, b5, b6, b7, b8, b9, b10, b11, b12, b13, b14, b15]" using assms(1) by (rule list16)
  obtain c0 c1 c2 c3 c4 c5 c6 c7 c8 c9 c10 c11 c12 c13 c14 c15 where
    c: "c = [c0, c1, c2, c3, c4, c5, c6, c7, c8, c9, c10, c11, c12, c13, c14, c15]" using assms(2) by (rule list16)
  define v6 where "v6 = (b6 AND 0x0f) OR 0x40" 
  define v8 where "v8 = (b8 AND 0x3f) OR 0x80" 
  define w6 where "w6 = (c6 AND 0x0f) OR 0x40" 
  define w8 where "w8 = (c8 AND 0x3f) OR 0x80" 
  have sb: "newSessionID (Some b) = Some (hex_byte b0 @ hex_byte b1 @ hex_byte b2 @ hex_byte b3 @ ''-'' @ hex_byte b4 @ hex_byte b5 @ ''-'' @
    hex_byte v6 @ hex_byte b7 @ ''-'' @ hex_byte v8 @ hex_byte b9 @ ''-'' @
    hex_byte b10 @ hex_byte b11 @ hex_byte b12 @ hex_byte b13 @ hex_byte b14 @ hex_byte b15)"
    by (simp add: newSessionID_def b hex_bytes_def v6_def v8_def)
  have sc: "newSessionID (Some c) = Some (hex_byte c0 @ hex_byte c1 @ hex_byte c2 @ hex_byte c3 @ ''-'' @ hex_byte c4 @ hex_byte c5 @ ''-'' @
    hex_byte w6 @ hex_byte c7 @ ''-'' @ hex_byte w8 @ hex_byte c9 @ ''-'' @
    hex_byte c10 @ hex_byte c11 @ hex_byte c12 @ hex_byte c13 @ hex_byte c14 @ hex_byte c15)"
    by (simp add: newSessionID_def c hex_bytes_def w6_def w8_def)
  have shape: "s ! 14 = hex_digit (unat v6 div 16)" "s ! 19 = hex_digit (unat v8 div 16)" "length s = 36"
    "s ! 8 = CHR ''-''" "s ! 13 = CHR ''-''" "s ! 18 = CHR ''-''" "s ! 23 = CHR ''-''"
    if "Some s = newSessionID (Some b)" for s
    using that unfolding sb by (simp_all add: hex_byte_def)
  have nib: "hex_digit (unat v6 div 16) = CHR ''4''" "hex_digit (unat v8 div 16) \<in> set ''89ab''"
    using version_nibble [of b6] variant_nibble [of b8] by (auto simp: v6_def v8_def hex_digit_def)
  have same: "b[6 := b ! 6 AND 0x0f, 8 := b ! 8 AND 0x3f] = c[6 := c ! 6 AND 0x0f, 8 := c ! 8 AND 0x3f]"
    if "newSessionID (Some b) = newSessionID (Some c)"
  proof -
    from that have eqs: "b0 = c0" "b1 = c1" "b2 = c2" "b3 = c3" "b4 = c4" "b5 = c5" "b7 = c7" "b9 = c9" "b10 = c10" "b11 = c11"
      "b12 = c12" "b13 = c13" "b14 = c14" "b15 = c15" and v: "v6 = w6" "v8 = w8"
      unfolding sb sc by simp_all
    have "b6 AND 0x0f = c6 AND 0x0f" "b8 AND 0x3f = c8 AND 0x3f"
      by (rule masked_eq(1) [OF v(1) [unfolded v6_def w6_def]], rule masked_eq(2) [OF v(2) [unfolded v8_def w8_def]])
    with eqs show ?thesis by (simp add: b c)
  qed
  obtain s t where st: "newSessionID (Some b) = Some s" "newSessionID (Some c) = Some t" using sb sc by blast
  note sh = shape [OF st(1) [symmetric]]
  show ?thesis
  proof (intro exI conjI impI)
    show "s ! 14 = CHR ''4''" "s ! 19 \<in> set ''89ab''" unfolding sh(1,2) by (rule nib)+
    show "b[6 := b ! 6 AND 0x0f, 8 := b ! 8 AND 0x3f] = c[6 := c ! 6 AND 0x0f, 8 := c ! 8 AND 0x3f]" if "s = t"
      by (rule same) (simp only: st that)
  qed (fact st sh)+
qed

lemma newSessionID_v4_example:
  "length (replicate 16 0 :: 8 word list) = 16 \<and> length (replicate 16 1 :: 8 word list) = 16 \<and>
   (\<exists>s. newSessionID (Some (replicate 16 0)) = Some s \<and> length s = 36 \<and> s ! 14 = CHR ''4'')"
  using newSessionID_v4 [of "replicate 16 0" "replicate 16 1"] by (auto simp: length_replicate)

text \<open>
  The activation deadline a minted session carries is the activation window rounded up to a whole
  second: it never falls before the window's end, is less than a second after it, and for every window
  a manager can have lies strictly after the recorded creation second.
\<close>

lemma mint_deadline_covers_window:
  assumes "mint env (NewManager cfg) t fl cwd origin = Inr ses"
  shows "te_clock env AtMint + m_window (NewManager cfg) \<le> S_ActivationDeadline ses * second \<and>
    S_ActivationDeadline ses * second < te_clock env AtMint + m_window (NewManager cfg) + second \<and>
    S_CreatedAt ses < S_ActivationDeadline ses"
proof -
  from assms obtain c: "S_CreatedAt ses = Unix (te_clock env AtMint)" and
    d: "S_ActivationDeadline ses = (let e = te_clock env AtMint + m_window (NewManager cfg) in if Unix e * second < e then Unix e + 1 else Unix e)"
    by (rule mint_InrE)
  have w: "second \<le> m_window (NewManager cfg)"
    by (simp add: NewManager_def defaultActivationWindow_def second_def)
  note b = ceil_second [of "te_clock env AtMint + m_window (NewManager cfg)"]
  have "Unix (te_clock env AtMint) * second < S_ActivationDeadline ses * second"
    using b(1) Unix_bounds(1) [of "te_clock env AtMint"] w by (simp add: d Let_def second_def)
  then have "S_CreatedAt ses < S_ActivationDeadline ses" by (simp add: c second_def)
  with b show ?thesis by (simp add: d Let_def)
qed

lemma mint_deadline_covers_window_example:
  "\<exists>ses. mint ex_turn_env ex_manager ''t'' ''owner'' ''/w'' [] = Inr ses \<and> S_CreatedAt ses < S_ActivationDeadline ses"
proof -
  obtain ses where m: "mint ex_turn_env ex_manager ''t'' ''owner'' ''/w'' [] = Inr ses"
    by (simp add: mint_def ex_turn_env_def newSessionID_def Let_def)
  from mint_deadline_covers_window [OF this [unfolded ex_manager_def]] m show ?thesis by blast
qed

text \<open>
  C24: rotation by idleness is never early and never more than two seconds late, for every idle limit:
  stored times are whole seconds, so with the last turn at a true instant \<open>touched\<close>, the cause
  \<open>idle_ttl\<close> is given only when strictly more than the limit has really elapsed, and always once the
  limit plus two seconds has.  The bounds are those under which the durations fit 64 bits.
\<close>

theorem rotation_never_early:
  assumes "L_Turns lv < m_turnCap m" and "(if L_LastSeen lv = 0 then L_CreatedAt lv else L_LastSeen lv) = Unix touched"
    and "touched \<le> te_clock env AtRotation" and "te_clock env AtRotation - touched + second < 2 ^ 63"
    and "0 \<le> m_idleTTL m" and "m_idleTTL m + second < 2 ^ 63"
  shows "(rotationCause env m lv = ''idle_ttl'' \<longrightarrow> m_idleTTL m < te_clock env AtRotation - touched) \<and>
    (m_idleTTL m + 2 * second \<le> te_clock env AtRotation - touched \<longrightarrow> rotationCause env m lv = ''idle_ttl'')"
proof -
  let ?now = "te_clock env AtRotation"
  have span: "(Unix ?now - Unix touched) * second < ?now - touched + second"
    "?now - touched - second < (Unix ?now - Unix touched) * second"
    using Unix_bounds [of ?now] Unix_bounds [of touched] by (simp_all add: algebra_simps)
  have w: "wrap64 ((Unix ?now - Unix touched) * second) = (Unix ?now - Unix touched) * second"
    using span assms(3,4) by (simp add: wrap64_def second_def)
  have ttl: "wrap64 (m_idleTTL m + second) = m_idleTTL m + second"
    using assms(5,6) by (simp add: wrap64_def second_def)
  have "rotationCause env m lv = (if (Unix ?now - Unix touched) * second \<ge> m_idleTTL m + second then ''idle_ttl'' else [])"
    using assms(1,2) by (simp add: rotationCause_def Let_def w ttl)
  with span show ?thesis by auto
qed

definition ex_live :: LiveSession where
  "ex_live = \<lparr>L_ThreadKey = ''t'', L_SessionID = ''s1'', L_Status = Active, L_Cwd = ''/w'', L_Origin = [],
     L_TrustFloor = ''owner'', L_CreatedAt = 1, L_ActivationDeadline = 2, L_LastSeen = 990, L_Turns = 3\<rparr>"

theorem rotation_never_early_witness:
  "rotationCause ex_turn_env \<lparr>m_window = second, m_idleTTL = 8 * second, m_turnCap = 50\<rparr> ex_live = ''idle_ttl'' \<and>
   8 * second < 1000 * second - (990 * second + 1)"
  using rotation_never_early [of ex_live "\<lparr>m_window = second, m_idleTTL = 8 * second, m_turnCap = 50\<rparr>" "990 * second" ex_turn_env]
  by (simp add: ex_live_def ex_turn_env_def Unix_def second_def)

text \<open>
  An idle limit within a second of the largest duration wraps around: a session touched in this very
  second is reported idle at once.
\<close>

lemma rotation_overflow:
  "rotationCause ex_turn_env \<lparr>m_window = second, m_idleTTL = 2 ^ 63 - 1, m_turnCap = 50\<rparr> (ex_live\<lparr>L_LastSeen := 1000\<rparr>) = ''idle_ttl''"
  by (simp add: rotationCause_def ex_turn_env_def ex_live_def Unix_def second_def wrap64_def)

end
