(* ===== verification/Runes.thy ===== *)
theory Runes
  imports Prelude
begin

text \<open>
  Go strings are bytes; \<open>[]rune(s)\<close> decodes them as UTF-8 and \<open>string(rs)\<close> encodes them
  again.  A byte that does not start a well-formed sequence decodes, alone, to U+FFFD.  The message
  splitter of the Discord adapter (\<open>src/internal/adapter/discord/relay.go\<close>,
  \<open>chunkRunes\<close>) works on these runes.
\<close>

section \<open>Decoding\<close>

abbreviation byte :: "char \<Rightarrow> nat" where "byte c \<equiv> of_char c"

definition cont :: "char \<Rightarrow> bool" where "cont c \<longleftrightarrow> 128 \<le> byte c \<and> byte c < 192"

text \<open>The range the second byte must be in, by the first: no overlong forms, no surrogates,
  nothing beyond U+10FFFF.\<close>

definition second_ok :: "nat \<Rightarrow> char \<Rightarrow> bool" where
  "second_ok a c \<longleftrightarrow>
     (if a = 0xE0 then 0xA0 \<le> byte c \<and> byte c < 0xC0
      else if a = 0xED then 0x80 \<le> byte c \<and> byte c < 0xA0
      else if a = 0xF0 then 0x90 \<le> byte c \<and> byte c < 0xC0
      else if a = 0xF4 then 0x80 \<le> byte c \<and> byte c < 0x90
      else cont c)"

definition RuneError :: nat where "RuneError = 0xFFFD"

text \<open>The first rune, its width in bytes and whether it was well formed.\<close>

definition decode_rune :: "char \<Rightarrow> string \<Rightarrow> nat \<times> nat \<times> bool" where
  "decode_rune c0 s =
     (let a = byte c0 in
      if a < 0x80 then (a, 1, True)
      else if 0xC2 \<le> a \<and> a < 0xE0 then
        (case s of
           c1 # _ \<Rightarrow> if cont c1 then ((a - 0xC0) * 64 + (byte c1 - 0x80), 2, True) else (RuneError, 1, False)
         | _ \<Rightarrow> (RuneError, 1, False))
      else if 0xE0 \<le> a \<and> a < 0xF0 then
        (case s of
           c1 # c2 # _ \<Rightarrow>
             if second_ok a c1 \<and> cont c2
             then ((a - 0xE0) * 4096 + (byte c1 - 0x80) * 64 + (byte c2 - 0x80), 3, True) else (RuneError, 1, False)
         | _ \<Rightarrow> (RuneError, 1, False))
      else if 0xF0 \<le> a \<and> a < 0xF5 then
        (case s of
           c1 # c2 # c3 # _ \<Rightarrow>
             if second_ok a c1 \<and> cont c2 \<and> cont c3
             then ((a - 0xF0) * 262144 + (byte c1 - 0x80) * 4096 + (byte c2 - 0x80) * 64 + (byte c3 - 0x80), 4, True)
             else (RuneError, 1, False)
         | _ \<Rightarrow> (RuneError, 1, False))
      else (RuneError, 1, False))"

lemma decode_width: "decode_rune c s = (r, n, ok) \<Longrightarrow> 1 \<le> n \<and> n \<le> Suc (length s)"
  by (auto simp: decode_rune_def Let_def split: if_splits list.splits)

fun runes :: "string \<Rightarrow> nat list" where
  "runes [] = []"
| "runes (c # s) = (case decode_rune c s of (r, n, _) \<Rightarrow> r # runes (drop (n - 1) s))"

text \<open>Every rune of the text is well formed.\<close>

fun valid_utf8 :: "string \<Rightarrow> bool" where
  "valid_utf8 [] = True"
| "valid_utf8 (c # s) = (case decode_rune c s of (_, n, ok) \<Rightarrow> ok \<and> valid_utf8 (drop (n - 1) s))"

section \<open>Encoding\<close>

definition encode_rune :: "nat \<Rightarrow> string" where
  "encode_rune r =
     (if r < 0x80 then [char_of r]
      else if r < 0x800 then [char_of (0xC0 + r div 64), char_of (0x80 + r mod 64)]
      else if 0x10FFFF < r \<or> (0xD800 \<le> r \<and> r < 0xE000) then [CHR 0xEF, CHR 0xBF, CHR 0xBD]
      else if r < 0x10000 then
        [char_of (0xE0 + r div 4096), char_of (0x80 + r div 64 mod 64), char_of (0x80 + r mod 64)]
      else
        [char_of (0xF0 + r div 262144), char_of (0x80 + r div 4096 mod 64), char_of (0x80 + r div 64 mod 64),
         char_of (0x80 + r mod 64)])"

definition of_runes :: "nat list \<Rightarrow> string" where
  "of_runes rs = concat (map encode_rune rs)"

section \<open>Splitting\<close>

definition messageCap :: nat where "messageCap = 2000"

function chunk_loop :: "nat list \<Rightarrow> string list" where
  "chunk_loop rs =
     (if rs = [] then []
      else let n = min (length rs) messageCap in of_runes (take n rs) # chunk_loop (drop n rs))"
  by pat_completeness auto
termination by (relation "measure length") (auto simp: messageCap_def)

declare chunk_loop.simps [simp del]

lemma chunk_loop_Nil [simp]: "chunk_loop [] = []"
  by (simp add: chunk_loop.simps)

definition chunkRunes :: "string \<Rightarrow> string list" where
  "chunkRunes text = (if text = [] then [] else chunk_loop (runes text))"

definition ChunkMessage :: "string \<Rightarrow> string list" where
  "ChunkMessage text = chunkRunes text"

section \<open>Round trips\<close>

text \<open>Unicode scalar values.\<close>

definition scalar :: "nat \<Rightarrow> bool" where
  "scalar r \<longleftrightarrow> r \<le> 0x10FFFF \<and> \<not> (0xD800 \<le> r \<and> r < 0xE000)"

lemma byte_char_of [simp]: "n < 256 \<Longrightarrow> byte (char_of n) = n"
  by simp

lemma char_of_byte: "n = byte c \<Longrightarrow> char_of n = c"
  by simp

lemma digits64: "(z :: nat) < 64 \<Longrightarrow> (q * 64 + z) mod 64 = z" "z < 64 \<Longrightarrow> (q * 64 + z) div 64 = q"
  by auto

lemma div64: "(r :: nat) div 4096 = r div 64 div 64" "r div 262144 = r div 64 div 64 div 64"
  by (simp_all add: div_mult2_eq [symmetric])

text \<open>The three wider forms by their six-bit digits.\<close>

definition digits3 :: "nat \<Rightarrow> nat \<Rightarrow> nat \<Rightarrow> bool" where
  "digits3 x y z \<longleftrightarrow> x < 16 \<and> y < 64 \<and> z < 64 \<and> (x = 0 \<longrightarrow> 32 \<le> y) \<and> (x = 13 \<longrightarrow> y < 32)"

definition digits4 :: "nat \<Rightarrow> nat \<Rightarrow> nat \<Rightarrow> nat \<Rightarrow> bool" where
  "digits4 x y z w \<longleftrightarrow> x < 5 \<and> y < 64 \<and> z < 64 \<and> w < 64 \<and> (x = 0 \<longrightarrow> 16 \<le> y) \<and> (x = 4 \<longrightarrow> y < 16)"

lemma encode2:
  assumes "2 \<le> x" "x < 32" "z < 64"
  shows "encode_rune (x * 64 + z) = [char_of (192 + x), char_of (128 + z)] \<and> scalar (x * 64 + z)"
proof -
  have "128 \<le> x * 64 + z" "x * 64 + z < 2048" using assms by auto
  then show ?thesis using assms(3) by (simp add: encode_rune_def scalar_def digits64)
qed

lemma digits3_bounds:
  assumes "digits3 x y z"
  shows "2048 \<le> (x * 64 + y) * 64 + z" "(x * 64 + y) * 64 + z < 65536"
    "\<not> (55296 \<le> (x * 64 + y) * 64 + z \<and> (x * 64 + y) * 64 + z < 57344)"
proof -
  have b: "x < 16" "y < 64" "z < 64" "x = 0 \<longrightarrow> 32 \<le> y" "x = 13 \<longrightarrow> y < 32" using assms by (simp_all add: digits3_def)
  show "2048 \<le> (x * 64 + y) * 64 + z" "(x * 64 + y) * 64 + z < 65536" using b by auto
  consider "x \<le> 12" | "x = 13" | "14 \<le> x" by linarith
  then show "\<not> (55296 \<le> (x * 64 + y) * 64 + z \<and> (x * 64 + y) * 64 + z < 57344)" using b(2,3,5) by cases auto
qed

lemma encode3:
  assumes "digits3 x y z"
  shows "encode_rune ((x * 64 + y) * 64 + z) = [char_of (224 + x), char_of (128 + y), char_of (128 + z)] \<and>
    scalar ((x * 64 + y) * 64 + z)"
proof -
  define r where "r = (x * 64 + y) * 64 + z"
  have d: "r mod 64 = z" "r div 64 mod 64 = y" "r div 4096 = x"
    using assms by (simp_all only: r_def div64 digits64 digits3_def)
  have "2048 \<le> r" "r < 65536" "\<not> (55296 \<le> r \<and> r < 57344)" using digits3_bounds [OF assms] by (simp_all add: r_def)
  then show ?thesis unfolding r_def [symmetric] by (auto simp: encode_rune_def scalar_def d)
qed

lemma encode4:
  assumes "digits4 x y z w"
  shows "encode_rune (((x * 64 + y) * 64 + z) * 64 + w) =
      [char_of (240 + x), char_of (128 + y), char_of (128 + z), char_of (128 + w)] \<and>
    scalar (((x * 64 + y) * 64 + z) * 64 + w) \<and> 65536 \<le> ((x * 64 + y) * 64 + z) * 64 + w"
proof -
  define r where "r = ((x * 64 + y) * 64 + z) * 64 + w"
  have d: "r mod 64 = w" "r div 64 mod 64 = z" "r div 4096 mod 64 = y" "r div 262144 = x"
    using assms by (simp_all only: r_def div64 digits64 digits4_def)
  have "65536 \<le> r" "r \<le> 1114111" using assms by (auto simp: r_def digits4_def)
  then show ?thesis unfolding r_def [symmetric] by (auto simp: encode_rune_def scalar_def d)
qed

lemma encode_decode:
  assumes "decode_rune c s = (r, n, True)"
  shows "encode_rune r = take n (c # s) \<and> scalar r"
proof -
  consider (one) "byte c < 128" "r = byte c" "n = 1"
    | (two) c1 s' where "s = c1 # s'" "194 \<le> byte c" "byte c < 224" "cont c1" "r = (byte c - 192) * 64 + (byte c1 - 128)" "n = 2"
    | (three) c1 c2 s' where "s = c1 # c2 # s'" "224 \<le> byte c" "byte c < 240" "second_ok (byte c) c1" "cont c2"
        "r = (byte c - 224) * 4096 + (byte c1 - 128) * 64 + (byte c2 - 128)" "n = 3"
    | (four) c1 c2 c3 s' where "s = c1 # c2 # c3 # s'" "240 \<le> byte c" "byte c < 245" "second_ok (byte c) c1" "cont c2" "cont c3"
        "r = (byte c - 240) * 262144 + (byte c1 - 128) * 4096 + (byte c2 - 128) * 64 + (byte c3 - 128)" "n = 4"
    using assms by (auto simp: decode_rune_def Let_def split: if_splits list.splits)
  then show ?thesis
  proof cases
    case one
    then show ?thesis by (simp add: encode_rune_def scalar_def)
  next
    case two
    define x y where "x = byte c - 192" and "y = byte c1 - 128"
    then have b: "byte c = 192 + x" "byte c1 = 128 + y" "2 \<le> x" "x < 32" "y < 64"
      using two(2-4) by (auto simp: cont_def)
    have "r = x * 64 + y" using two(5) b by simp
    then show ?thesis using encode2 [OF b(3-5)] two(1,6) b(1,2) by (simp add: char_of_byte)
  next
    case three
    define x y z where "x = byte c - 224" and "y = byte c1 - 128" and "z = byte c2 - 128"
    then have b: "byte c = 224 + x" "byte c1 = 128 + y" "byte c2 = 128 + z" and dg: "digits3 x y z"
      using three(2-5) by (auto simp: cont_def second_ok_def digits3_def split: if_splits)
    have "r = (x * 64 + y) * 64 + z" using three(6) b by simp
    then show ?thesis using encode3 [OF dg] three(1,7) b by (simp add: char_of_byte)
  next
    case four
    define x y z w where "x = byte c - 240" and "y = byte c1 - 128" and "z = byte c2 - 128" and "w = byte c3 - 128"
    then have b: "byte c = 240 + x" "byte c1 = 128 + y" "byte c2 = 128 + z" "byte c3 = 128 + w" and dg: "digits4 x y z w"
      using four(2-6) by (auto simp: cont_def second_ok_def digits4_def split: if_splits)
    have "r = ((x * 64 + y) * 64 + z) * 64 + w" using four(7) b by simp
    then show ?thesis using encode4 [OF dg] four(1,8) b by (simp add: char_of_byte)
  qed
qed

lemma scalar_cases:
  assumes "scalar r"
  obtains "r < 128" | x z where "r = x * 64 + z" "2 \<le> x" "x < 32" "z < 64"
    | x y z where "r = (x * 64 + y) * 64 + z" "digits3 x y z"
    | x y z w where "r = ((x * 64 + y) * 64 + z) * 64 + w" "digits4 x y z w"
proof -
  define w z y x where "w = r mod 64" and "z = r div 64 mod 64" and "y = r div 64 div 64 mod 64" and "x = r div 64 div 64 div 64"
  have r: "r = ((x * 64 + y) * 64 + z) * 64 + w" by (simp add: x_def y_def z_def w_def)
  have small: "y < 64" "z < 64" "w < 64" by (simp_all add: y_def z_def w_def)
  consider "r < 128" | "128 \<le> r" "r < 2048" | "2048 \<le> r" "r < 65536" | "65536 \<le> r" "r \<le> 1114111"
    using assms unfolding scalar_def by linarith
  then show thesis
  proof cases
    case 2
    then have "x = 0" "y = 0" using r by auto
    with 2 r small show thesis by (intro that(2) [of z w]) auto
  next
    case 3
    then have x: "x = 0" using r by auto
    have "digits3 y z w" using 3 r small x assms by (auto simp: digits3_def scalar_def)
    with r x show thesis by (intro that(3) [of y z w]) auto
  next
    case 4
    then have "digits4 x y z w" using r small by (auto simp: digits4_def)
    with r show thesis by (rule that(4))
  qed (rule that(1))
qed

lemma decode_encode:
  assumes "scalar r"
  shows "\<exists>c s. encode_rune r = c # s \<and> decode_rune c (s @ t) = (r, length (encode_rune r), True)"
  using assms
proof (cases rule: scalar_cases)
  case 1
  then show ?thesis by (simp add: encode_rune_def decode_rune_def)
next
  case (2 x z)
  then show ?thesis using encode2 [of x z] by (simp add: decode_rune_def Let_def cont_def)
next
  case (3 x y z)
  then show ?thesis using encode3 [OF 3(2)] by (auto simp: decode_rune_def Let_def cont_def second_ok_def digits3_def)
next
  case (4 x y z w)
  then show ?thesis using encode4 [OF 4(2)] by (auto simp: decode_rune_def Let_def cont_def second_ok_def digits4_def)
qed

lemma of_runes_Cons [simp]: "of_runes (r # rs) = encode_rune r @ of_runes rs" "of_runes [] = []"
  by (simp_all add: of_runes_def)

lemma of_runes_append [simp]: "of_runes (xs @ ys) = of_runes xs @ of_runes ys"
  by (simp add: of_runes_def)

text \<open>Well-formed text survives the conversion to runes and back.\<close>

lemma of_runes_runes: "valid_utf8 s \<Longrightarrow> of_runes (runes s) = s"
proof (induction s rule: runes.induct)
  case (2 c s)
  obtain r n ok where d: "decode_rune c s = (r, n, ok)" by (metis prod_cases3)
  with 2 have "encode_rune r = take n (c # s)" "of_runes (runes (drop (n - 1) s)) = drop (n - 1) s"
    using encode_decode [of c s r n] by auto
  moreover have "1 \<le> n" using decode_width [OF d] by simp
  ultimately show ?case using d by (cases n) simp_all
qed simp

text \<open>Decoding yields scalar values only, on any bytes.\<close>

lemma runes_scalar: "list_all scalar (runes s)"
proof (induction s rule: runes.induct)
  case (2 c s)
  obtain r n ok where d: "decode_rune c s = (r, n, ok)" by (metis prod_cases3)
  have "scalar r"
  proof (cases ok)
    case True
    with encode_decode [of c s r n] d show ?thesis by simp
  next
    case False
    with d have "r = RuneError" by (auto simp: decode_rune_def Let_def split: if_splits list.splits)
    then show ?thesis by (simp add: scalar_def RuneError_def)
  qed
  with 2 d show ?case by simp
qed simp

lemma runes_of_runes: "list_all scalar rs \<Longrightarrow> runes (of_runes rs) = rs \<and> valid_utf8 (of_runes rs)"
proof (induction rs)
  case (Cons r rs)
  obtain c s where e: "encode_rune r = c # s" "decode_rune c (s @ of_runes rs) = (r, length (encode_rune r), True)"
    using decode_encode [of r "of_runes rs"] Cons.prems by auto
  then show ?case using Cons by simp
qed simp

section \<open>Lemmas on splitting\<close>

lemma scalars_parts: "list_all scalar rs \<Longrightarrow> list_all scalar (take n rs) \<and> list_all scalar (drop n rs)"
  by (metis append_take_drop_id list_all_append)

lemma of_runes_empty [simp]: "of_runes rs = [] \<longleftrightarrow> rs = []"
  by (cases rs) (auto simp: encode_rune_def)

lemma concat_chunk_loop: "concat (chunk_loop rs) = of_runes rs"
proof (induction rs rule: chunk_loop.induct)
  case (1 rs)
  show ?case
  proof (cases "rs = []")
    case False
    let ?n = "min (length rs) messageCap"
    have "concat (chunk_loop rs) = of_runes (take ?n rs) @ of_runes (drop ?n rs)"
      using 1 [OF False refl] False by (subst chunk_loop.simps) (simp add: Let_def)
    then show ?thesis by (simp add: of_runes_append [symmetric] del: of_runes_append)
  qed simp
qed

text \<open>Every piece but the last is full; no piece is empty or over the cap.\<close>

lemma chunk_loop_sizes:
  "list_all scalar rs \<Longrightarrow>
   map (length \<circ> runes) (chunk_loop rs) = replicate ((length rs - 1) div messageCap) messageCap @
     (if rs = [] then [] else [(length rs - 1) mod messageCap + 1])"
proof (induction rs rule: chunk_loop.induct)
  case (1 rs)
  show ?case
  proof (cases "rs = []")
    case True
    then show ?thesis by simp
  next
    case False
    let ?n = "min (length rs) messageCap"
    have cap: "0 < messageCap" by (simp add: messageCap_def)
    have step: "chunk_loop rs = of_runes (take ?n rs) # chunk_loop (drop ?n rs)"
      using False by (subst chunk_loop.simps) (simp add: Let_def)
    have first: "length (runes (of_runes (take ?n rs))) = ?n"
      using runes_of_runes [of "take ?n rs"] scalars_parts [OF "1.prems"] by simp
    have tail: "list_all scalar (drop ?n rs)" using scalars_parts [OF "1.prems"] by blast
    show ?thesis
    proof (cases "length rs \<le> messageCap")
      case True
      then have "(length rs - 1) div messageCap = 0" "(length rs - 1) mod messageCap + 1 = length rs"
        using False cap by (simp_all add: Suc_leI)
      with True step first False show ?thesis by simp
    next
      case more: False
      define k where "k = length rs - messageCap"
      then have k: "length rs = messageCap + k" "0 < k" using more by auto
      have "length rs - 1 = messageCap + (k - 1)" using k by simp
      then have "(length rs - 1) div messageCap = Suc ((k - 1) div messageCap)" "(length rs - 1) mod messageCap = (k - 1) mod messageCap"
        using cap div_add_self1 [of messageCap "k - 1"] by simp_all
      with "1.IH" [OF False refl tail] step first False k show ?thesis by simp
    qed
  qed
qed

lemma chunk_loop_pieces:
  "list_all scalar rs \<Longrightarrow> x \<in> set (chunk_loop rs) \<Longrightarrow> valid_utf8 x \<and> x \<noteq> []"
proof (induction rs rule: chunk_loop.induct)
  case (1 rs)
  show ?case
  proof (cases "rs = []")
    case False
    let ?n = "min (length rs) messageCap"
    have step: "chunk_loop rs = of_runes (take ?n rs) # chunk_loop (drop ?n rs)"
      using False by (subst chunk_loop.simps) (simp add: Let_def)
    have parts: "list_all scalar (take ?n rs)" "list_all scalar (drop ?n rs)" using scalars_parts [OF "1.prems"(1)] by blast+
    have "take ?n rs \<noteq> []" using False by (simp add: messageCap_def)
    then have "valid_utf8 (of_runes (take ?n rs)) \<and> of_runes (take ?n rs) \<noteq> []"
      using runes_of_runes [OF parts(1)] by simp
    then show ?thesis using "1.IH" [OF False refl parts(2)] "1.prems"(2) unfolding step by (metis set_ConsD)
  qed (use "1.prems" in simp)
qed

section \<open>Properties\<close>

text \<open>
  C14: splitting a reply loses nothing and respects the platform's limit: the pieces of a well-formed
  text joined again are the text, each piece is itself well formed, never empty, and at most 2000
  characters long (characters, not bytes), and every piece but the last is full.
\<close>

theorem ChunkMessage_round_trip:
  assumes "valid_utf8 text"
  shows "concat (ChunkMessage text) = text \<and>
    (\<forall>x \<in> set (ChunkMessage text). valid_utf8 x \<and> x \<noteq> [] \<and> length (runes x) \<le> 2000) \<and>
    (\<forall>x \<in> set (butlast (ChunkMessage text)). length (runes x) = 2000)"
proof (cases "text = []")
  case False
  note sc = runes_scalar [of "text"]
  have eq: "ChunkMessage text = chunk_loop (runes text)" using False by (simp add: ChunkMessage_def chunkRunes_def)
  have ne: "runes text \<noteq> []" using False by (cases "text") (simp_all split: prod.splits)
  have sz: "map (length \<circ> runes) (chunk_loop (runes text)) = replicate ((length (runes text) - 1) div messageCap) messageCap @
      [(length (runes text) - 1) mod messageCap + 1]" using chunk_loop_sizes [OF sc] ne by simp
  have "length (runes x) \<in> set (map (length \<circ> runes) (chunk_loop (runes text)))" if "x \<in> set (chunk_loop (runes text))" for x
    using that by auto
  then have cap: "length (runes x) \<le> 2000" if "x \<in> set (chunk_loop (runes text))" for x
    unfolding sz using that ne mod_less_divisor [of messageCap "length (runes text) - 1"] by (fastforce simp: messageCap_def)
  have "map (length \<circ> runes) (butlast (chunk_loop (runes text))) = replicate ((length (runes text) - 1) div messageCap) messageCap"
    unfolding map_butlast sz using ne by simp
  then have full: "length (runes x) = 2000" if "x \<in> set (butlast (chunk_loop (runes text)))" for x
    using that by (metis comp_apply image_eqI in_set_replicate list.set_map messageCap_def)
  show ?thesis
    unfolding eq using concat_chunk_loop [of "runes text"] of_runes_runes [OF assms] chunk_loop_pieces [OF sc] cap full by auto
qed (simp add: ChunkMessage_def chunkRunes_def)

theorem ChunkMessage_round_trip_witness:
  "valid_utf8 [CHR 0xE2, CHR 0x80, CHR 0x94, CHR ''a''] \<and>
   concat (ChunkMessage [CHR 0xE2, CHR 0x80, CHR 0x94, CHR ''a'']) = [CHR 0xE2, CHR 0x80, CHR 0x94, CHR ''a'']"
proof -
  have "valid_utf8 [CHR 0xE2, CHR 0x80, CHR 0x94, CHR ''a'']" by (simp add: decode_rune_def second_ok_def cont_def)
  with ChunkMessage_round_trip show ?thesis by blast
qed

end
