(* ===== verification/Discord.thy ===== *)
theory Discord
  imports Runes
begin

text \<open>
  The Discord adapter's message logic: \<open>src/internal/adapter/discord/normalize.go\<close>,
  \<open>send.go\<close> and \<open>relay.go\<close>, and the normalized event of
  \<open>src/internal/event/event.go\<close>.  The platform's REST calls are the record \<open>platform\<close>:
  each answer may depend on how many calls were made before it.  The state is the relay, the
  adapter's cache of direct-message channels and the list of platform calls made.
\<close>

section \<open>Normalized events\<close>

record Attachment =
  At_URL :: string
  At_Filename :: string
  At_ContentType :: string
  At_Size :: int

record event_Event =
  E_Channel :: string
  E_ThreadKey :: string
  E_DedupKey :: string
  E_Sender :: string
  E_OwnerID :: "string option"
  E_Trust :: string
  E_Kind :: string
  E_Occurrence :: "string option"
  E_Text :: string
  E_Attachments :: "Attachment list option"
  E_ReplyTo :: "string option"

text \<open>A slice that was never appended to is nil, \<open>None\<close> here; the wire form has an array all the same.  The struct
  encoder of \<open>encoding/json\<close> is the parameter.\<close>

definition append_attachments :: "Attachment list \<Rightarrow> Attachment list option" where
  "append_attachments atts = (if atts = [] then None else Some atts)"

definition MarshalJSON :: "(event_Event \<Rightarrow> string option) \<Rightarrow> event_Event \<Rightarrow> string option" where
  "MarshalJSON json_Marshal e =
     json_Marshal (case E_Attachments e of None \<Rightarrow> e\<lparr>E_Attachments := Some []\<rparr> | Some _ \<Rightarrow> e)"

record MessageCreate =
  mc_Author :: "string option"
  mc_ID :: string
  mc_GuildID :: string
  mc_ChannelID :: string
  mc_Content :: string
  mc_MessageReference :: "string option"
  mc_Attachments :: "Attachment option list"

datatype normalize_error = NilMessage | NoAuthor | BlankMessageID | BlankChannelID

definition fetchable :: "Attachment option \<Rightarrow> Attachment list" where
  "fetchable att = (case att of None \<Rightarrow> [] | Some a \<Rightarrow> if At_URL a = [] then [] else [a])"

definition msg_key :: "string \<Rightarrow> string" where
  "msg_key i = ''discord:msg:'' @ i"

definition Normalize :: "MessageCreate option \<Rightarrow> normalize_error + event_Event" where
  "Normalize m =
     (case m of
        None \<Rightarrow> Inl NilMessage
      | Some m \<Rightarrow>
          (case mc_Author m of
             None \<Rightarrow> Inl NoAuthor
           | Some author \<Rightarrow>
               if author = [] then Inl NoAuthor
               else if mc_ID m = [] then Inl BlankMessageID
               else if mc_GuildID m \<noteq> [] \<and> mc_ChannelID m = [] then Inl BlankChannelID
               else Inr \<lparr>E_Channel = ''discord'',
                    E_ThreadKey = (if mc_GuildID m \<noteq> [] then ''discord:thread:'' @ mc_ChannelID m else ''discord:dm:'' @ author),
                    E_DedupKey = msg_key (mc_ID m), E_Sender = author, E_OwnerID = None, E_Trust = ''untrusted'',
                    E_Kind = ''message'', E_Occurrence = None, E_Text = mc_Content m,
                    E_Attachments = append_attachments (concat (map fetchable (mc_Attachments m))),
                    E_ReplyTo = (case mc_MessageReference m of None \<Rightarrow> None
                                 | Some r \<Rightarrow> if r = [] then None else Some (msg_key r))\<rparr>))"

section \<open>The platform\<close>

datatype platform_call =
    CreateDM string
  | SendMsg string string "string option"
  | EditMsg string string string bool
  | DeleteMsg string string
  | Journal nat bool

record platform =
  pf_dead :: bool
  pf_create :: "nat \<Rightarrow> string \<Rightarrow> string option"
  pf_send :: "nat \<Rightarrow> string \<Rightarrow> string \<Rightarrow> string option"
  pf_edit :: "nat \<Rightarrow> string \<Rightarrow> string \<Rightarrow> string \<Rightarrow> bool"
  pf_now :: int
  pf_stamp :: int

record adapter =
  a_dmChannels :: "string \<rightharpoonup> string"
  a_calls :: "platform_call list"

definition CutPrefix :: "string \<Rightarrow> string \<Rightarrow> string option" where
  "CutPrefix p s = (if has_prefix p s then Some (drop (length p) s) else None)"

definition log_call :: "platform_call \<Rightarrow> adapter \<Rightarrow> adapter" where
  "log_call c a = a\<lparr>a_calls := a_calls a @ [c]\<rparr>"

text \<open>The number of a call: what its answer may depend on.\<close>

definition call_no :: "adapter \<Rightarrow> nat" where "call_no a = length (a_calls a)"

definition resolve_dm :: "platform \<Rightarrow> string \<Rightarrow> adapter \<Rightarrow> string option \<times> adapter" where
  "resolve_dm pf userID a =
     (case a_dmChannels a userID of
        Some ch \<Rightarrow> (Some ch, a)
      | None \<Rightarrow>
          let a1 = log_call (CreateDM userID) a in
          (case pf_create pf (call_no a) userID of
             None \<Rightarrow> (None, a1)
           | Some ch \<Rightarrow>
               if ch = [] then (None, a1) else (Some ch, a1\<lparr>a_dmChannels := (a_dmChannels a1)(userID \<mapsto> ch)\<rparr>)))"

definition resolve_user :: "platform \<Rightarrow> string \<Rightarrow> adapter \<Rightarrow> string option \<times> adapter" where
  "resolve_user pf threadKey a =
     (case CutPrefix ''discord:dm:'' threadKey of
        None \<Rightarrow> (None, a)
      | Some userID \<Rightarrow> if userID = [] then (None, a) else resolve_dm pf userID a)"

definition resolveSendChannel :: "platform \<Rightarrow> string \<Rightarrow> adapter \<Rightarrow> string option \<times> adapter" where
  "resolveSendChannel pf threadKey a =
     (case CutPrefix ''discord:thread:'' threadKey of
        Some threadID \<Rightarrow> if threadID \<noteq> [] then (Some threadID, a) else resolve_user pf threadKey a
      | None \<Rightarrow> resolve_user pf threadKey a)"

definition invalidateDMChannel :: "string \<Rightarrow> adapter \<Rightarrow> adapter" where
  "invalidateDMChannel threadKey a =
     (case CutPrefix ''discord:dm:'' threadKey of
        None \<Rightarrow> a
      | Some userID \<Rightarrow> a\<lparr>a_dmChannels := (a_dmChannels a)(userID := None)\<rparr>)"

definition sendMessage :: "platform \<Rightarrow> string \<Rightarrow> string \<Rightarrow> adapter \<Rightarrow> string option \<times> adapter" where
  "sendMessage pf ch content a =
     (let r = pf_send pf (call_no a) ch content in (r, log_call (SendMsg ch content r) a))"

definition editMessage :: "platform \<Rightarrow> string \<Rightarrow> string \<Rightarrow> string \<Rightarrow> adapter \<Rightarrow> bool \<times> adapter" where
  "editMessage pf ch msg content a =
     (let r = pf_edit pf (call_no a) ch msg content in (r, log_call (EditMsg ch msg content r) a))"

definition Send :: "platform \<Rightarrow> string \<Rightarrow> string \<Rightarrow> adapter \<Rightarrow> string option \<times> adapter" where
  "Send pf threadKey text a =
     (if pf_dead pf then (None, a)
      else (case resolveSendChannel pf threadKey a of
          (None, a1) \<Rightarrow> (None, a1)
        | (Some ch, a1) \<Rightarrow>
            (case sendMessage pf ch text a1 of
               (None, a2) \<Rightarrow> (None, invalidateDMChannel threadKey a2)
             | (Some mid, a2) \<Rightarrow> if mid = [] then (None, a2) else (Some (msg_key mid), a2))))"

section \<open>The relay\<close>

text \<open>\<open>r_typing\<close> is whether the keepalive goroutine runs; its refresh calls are cosmetic and not
  listed.  Instants are nanoseconds; \<open>r_lastEdit = None\<close> is the zero time.\<close>

record Relay =
  r_threadKey :: string
  r_buf :: string
  r_channelID :: string
  r_partialID :: string
  r_posted :: bool
  r_partialAtCap :: bool
  r_lastEdit :: "int option"
  r_done :: bool
  r_typing :: bool

definition editIntervalDefault :: int where "editIntervalDefault = 1500 * 1000000"
definition partialMinDefault :: nat where "partialMinDefault = 200"

definition NewRelay :: "string \<Rightarrow> Relay" where
  "NewRelay threadKey = \<lparr>r_threadKey = threadKey, r_buf = [], r_channelID = [], r_partialID = [], r_posted = False,
     r_partialAtCap = False, r_lastEdit = None, r_done = False, r_typing = False\<rparr>"

definition throttled :: "platform \<Rightarrow> Relay \<Rightarrow> bool" where
  "throttled pf r = (case r_lastEdit r of None \<Rightarrow> False | Some t \<Rightarrow> pf_now pf - t < editIntervalDefault)"

definition stamp_edit :: "platform \<Rightarrow> Relay \<Rightarrow> Relay" where
  "stamp_edit pf r = r\<lparr>r_lastEdit := Some (pf_stamp pf)\<rparr>"

definition resolveChannelLocked :: "platform \<Rightarrow> Relay \<times> adapter \<Rightarrow> bool \<times> Relay \<times> adapter" where
  "resolveChannelLocked pf st =
     (case st of (r, a) \<Rightarrow>
        if r_channelID r \<noteq> [] then (True, r, a)
        else (case resolveSendChannel pf (r_threadKey r) a of
            (None, a1) \<Rightarrow> (False, r, a1)
          | (Some ch, a1) \<Rightarrow> (True, r\<lparr>r_channelID := ch\<rparr>, a1)))"

definition invalidateChannelLocked :: "Relay \<times> adapter \<Rightarrow> Relay \<times> adapter" where
  "invalidateChannelLocked st =
     (case st of (r, a) \<Rightarrow>
        (if has_prefix ''discord:dm:'' (r_threadKey r)
         then r\<lparr>r_channelID := [], r_partialID := [], r_typing := False\<rparr> else r,
         invalidateDMChannel (r_threadKey r) a))"

definition partialContentLocked :: "Relay \<Rightarrow> string \<times> Relay" where
  "partialContentLocked r =
     (let rs = runes (r_buf r) in
      if length rs < messageCap then (of_runes rs, r)
      else (of_runes (take messageCap rs), r\<lparr>r_partialAtCap := True\<rparr>))"

definition ensureTypingLocked :: "platform \<Rightarrow> Relay \<times> adapter \<Rightarrow> Relay \<times> adapter" where
  "ensureTypingLocked pf st =
     (case st of (r, a) \<Rightarrow>
        if r_typing r then (r, a)
        else if throttled pf r then (r, a)
        else (case resolveChannelLocked pf (r, a) of
            (False, r1, a1) \<Rightarrow> (stamp_edit pf r1, a1)
          | (True, r1, a1) \<Rightarrow> (r1\<lparr>r_typing := True\<rparr>, a1)))"

text \<open>The first partial message of a turn.\<close>

definition create_partial :: "platform \<Rightarrow> Relay \<times> adapter \<Rightarrow> Relay \<times> adapter" where
  "create_partial pf st =
     (case resolveChannelLocked pf st of
        (False, r1, a1) \<Rightarrow> (stamp_edit pf r1, a1)
      | (True, r1, a1) \<Rightarrow>
          (case partialContentLocked r1 of (content, r2) \<Rightarrow>
             (case sendMessage pf (r_channelID r2) content a1 of
                (None, a2) \<Rightarrow> (case invalidateChannelLocked (r2, a2) of (r3, a3) \<Rightarrow> (stamp_edit pf r3, a3))
              | (Some mid, a2) \<Rightarrow>
                  if mid = [] then (case invalidateChannelLocked (r2, a2) of (r3, a3) \<Rightarrow> (stamp_edit pf r3, a3))
                  else ((stamp_edit pf r2)\<lparr>r_partialID := mid, r_posted := True, r_typing := False\<rparr>, a2))))"

definition Push :: "platform \<Rightarrow> string \<Rightarrow> Relay \<times> adapter \<Rightarrow> Relay \<times> adapter" where
  "Push pf delta st =
     (case st of (r, a) \<Rightarrow>
        if r_done r \<or> pf_dead pf then (r, a)
        else
          let r1 = r\<lparr>r_buf := r_buf r @ delta\<rparr> in
          if r_partialID r1 = [] then
            (if length (runes (r_buf r1)) < partialMinDefault then ensureTypingLocked pf (r1, a)
             else if throttled pf r1 then (r1, a)
             else create_partial pf (r1, a))
          else if r_partialAtCap r1 \<or> throttled pf r1 then (r1, a)
          else
            (case partialContentLocked r1 of (content, r2) \<Rightarrow>
               (case editMessage pf (r_channelID r2) (r_partialID r2) content a of
                  (True, a2) \<Rightarrow> (stamp_edit pf r2, a2)
                | (False, a2) \<Rightarrow> (case invalidateChannelLocked (r2, a2) of (r3, a3) \<Rightarrow> (stamp_edit pf r3, a3)))))"

definition Cancel :: "Relay \<times> adapter \<Rightarrow> Relay \<times> adapter" where
  "Cancel st = (case st of (r, a) \<Rightarrow> (r\<lparr>r_done := True, r_typing := False\<rparr>, a))"

definition Retract :: "Relay \<times> adapter \<Rightarrow> Relay \<times> adapter" where
  "Retract st =
     (case st of (r, a) \<Rightarrow>
        let r1 = r\<lparr>r_done := True, r_typing := False\<rparr> in
        if r_partialID r1 = [] \<or> r_channelID r1 = [] then (r1, a)
        else (r1\<lparr>r_partialID := []\<rparr>, log_call (DeleteMsg (r_channelID r1) (r_partialID r1)) a))"

definition Posted :: "Relay \<Rightarrow> bool" where "Posted r = r_posted r"

section \<open>The final delivery\<close>

text \<open>\<open>beforeSend\<close> is the caller's attempt journal, a callback on the caller's own state.\<close>

definition journal :: "(nat \<Rightarrow> 's \<Rightarrow> bool \<times> 's) option \<Rightarrow> nat \<Rightarrow> adapter \<Rightarrow> 's \<Rightarrow> bool \<times> adapter \<times> 's" where
  "journal cb i a s =
     (case cb of
        None \<Rightarrow> (True, a, s)
      | Some f \<Rightarrow> (case f i s of (ok, s') \<Rightarrow> (ok, log_call (Journal i ok) a, s')))"

fun send_loop ::
  "platform \<Rightarrow> (nat \<Rightarrow> 's \<Rightarrow> bool \<times> 's) option \<Rightarrow> nat \<Rightarrow> string list \<Rightarrow> string list \<Rightarrow> Relay \<Rightarrow> adapter \<Rightarrow> 's
   \<Rightarrow> (string list \<times> bool) \<times> Relay \<times> adapter \<times> 's" where
  "send_loop pf cb i [] acks r a s = ((acks, True), r, a, s)"
| "send_loop pf cb i (c # cs) acks r a s =
     (case journal cb i a s of
        (False, a1, s1) \<Rightarrow> ((acks, False), r, a1, s1)
      | (True, a1, s1) \<Rightarrow>
          (case sendMessage pf (r_channelID r) c a1 of
             (None, a2) \<Rightarrow> (case invalidateChannelLocked (r, a2) of (r3, a3) \<Rightarrow> ((acks, False), r3, a3, s1))
           | (Some mid, a2) \<Rightarrow>
               if mid = [] then ((acks, False), r, a2, s1)
               else send_loop pf cb (Suc i) cs (acks @ [msg_key mid]) r a2 s1))"

text \<open>The part of \<open>finish\<close> after the channel is resolved: the partial message becomes the first
  piece when it can still be edited, everything else is sent afresh.\<close>

definition finish_chunks ::
  "platform \<Rightarrow> (nat \<Rightarrow> 's \<Rightarrow> bool \<times> 's) option \<Rightarrow> string list \<Rightarrow> Relay \<Rightarrow> adapter \<Rightarrow> 's
   \<Rightarrow> (string list \<times> bool) \<times> Relay \<times> adapter \<times> 's" where
  "finish_chunks pf cb chunks r a s =
     (if r_partialID r \<noteq> [] \<and> chunks \<noteq> [] then
        (case journal cb 0 a s of
           (False, a3, s3) \<Rightarrow> (([], False), r, a3, s3)
         | (True, a3, s3) \<Rightarrow>
             (case editMessage pf (r_channelID r) (r_partialID r) (hd chunks) a3 of
                (True, a4) \<Rightarrow> send_loop pf cb 1 (tl chunks) [msg_key (r_partialID r)] r a4 s3
              | (False, a4) \<Rightarrow>
                  (case resolveChannelLocked pf (invalidateChannelLocked (r, a4)) of
                     (False, r5, a5) \<Rightarrow> (([], False), r5, a5, s3)
                   | (True, r5, a5) \<Rightarrow> send_loop pf cb 0 chunks [] r5 a5 s3)))
      else send_loop pf cb 0 chunks [] r a s)"

definition finish ::
  "platform \<Rightarrow> (nat \<Rightarrow> 's \<Rightarrow> bool \<times> 's) option \<Rightarrow> Relay \<Rightarrow> adapter \<Rightarrow> 's \<Rightarrow> (string list \<times> bool) \<times> Relay \<times> adapter \<times> 's" where
  "finish pf cb r a s =
     (if r_done r then (([], False), r, a, s)
      else
        let r1 = r\<lparr>r_done := True, r_typing := False\<rparr> in
        if pf_dead pf then (([], False), r1, a, s)
        else if r_buf r1 = [] \<and> r_partialID r1 = [] then (([], True), r1, a, s)
        else (case resolveChannelLocked pf (r1, a) of
            (False, r2, a2) \<Rightarrow> (([], False), r2, a2, s)
          | (True, r2, a2) \<Rightarrow> finish_chunks pf cb (chunkRunes (r_buf r2)) r2 a2 s))"

definition FinishJournaled ::
  "platform \<Rightarrow> (nat \<Rightarrow> 's \<Rightarrow> bool \<times> 's) option \<Rightarrow> Relay \<Rightarrow> adapter \<Rightarrow> 's \<Rightarrow> (string list \<times> bool) \<times> Relay \<times> adapter \<times> 's" where
  "FinishJournaled pf cb r a s = (if cb = None then (([], False), r, a, s) else finish pf cb r a s)"

definition Finish :: "platform \<Rightarrow> Relay \<Rightarrow> adapter \<Rightarrow> (string list \<times> bool) \<times> Relay \<times> adapter" where
  "Finish pf r a = (case finish pf None r a () of (out, r', a', _) \<Rightarrow> (out, r', a'))"

section \<open>Lemmas on the final delivery\<close>

text \<open>What a list of calls put on the platform with an honest message identity, in order.\<close>

fun landed :: "platform_call list \<Rightarrow> (string \<times> string) list" where
  "landed [] = []"
| "landed (SendMsg ch c (Some mid) # cs) = (if mid = [] then landed cs else (c, msg_key mid) # landed cs)"
| "landed (EditMsg ch m c True # cs) = (c, msg_key m) # landed cs"
| "landed (_ # cs) = landed cs"

lemma landed_append [simp]: "landed (xs @ ys) = landed xs @ landed ys"
  by (induction xs rule: landed.induct) auto

text \<open>Every final send or edit directly follows a successful journal entry for the piece it carries.\<close>

fun journaled :: "string list \<Rightarrow> platform_call list \<Rightarrow> bool" where
  "journaled chunks [] = True"
| "journaled chunks (Journal i True # SendMsg ch c m # cs) = (i < length chunks \<and> chunks ! i = c \<and> journaled chunks cs)"
| "journaled chunks (Journal i True # EditMsg ch m c b # cs) = (i < length chunks \<and> chunks ! i = c \<and> journaled chunks cs)"
| "journaled chunks (Journal i False # cs) = journaled chunks cs"
| "journaled chunks (CreateDM u # cs) = journaled chunks cs"
| "journaled chunks _ = False"

lemma log_call_calls [simp]: "a_calls (log_call c a) = a_calls a @ [c]"
  by (simp add: log_call_def)

lemma invalidate_calls [simp]: "a_calls (invalidateDMChannel k a) = a_calls a"
  by (simp add: invalidateDMChannel_def split: option.splits)

text \<open>Channel resolution makes at most channel-creation calls.\<close>

definition quiet :: "platform_call list \<Rightarrow> bool" where
  "quiet n \<longleftrightarrow> (\<forall>c \<in> set n. \<exists>u. c = CreateDM u)"

lemma quiet_Nil [simp]: "quiet []" by (simp add: quiet_def)

lemma quiet_landed: "quiet n \<Longrightarrow> landed n = []"
  by (induction n rule: landed.induct) (auto simp: quiet_def)

lemma quiet_journaled: "quiet n \<Longrightarrow> journaled chunks (n @ cs) = journaled chunks cs"
  by (induction n) (auto simp: quiet_def)

lemma resolveSend_calls:
  assumes "resolveSendChannel pf k a = (res, a')"
  shows "\<exists>n. a_calls a' = a_calls a @ n \<and> quiet n"
proof -
  have dm: "\<exists>n. a_calls a' = a_calls a @ n \<and> quiet n" if "resolve_dm pf u a = (res, a')" for u
    using that by (auto simp: resolve_dm_def Let_def quiet_def split: option.splits if_splits)
  then have "\<exists>n. a_calls a' = a_calls a @ n \<and> quiet n" if "resolve_user pf k a = (res, a')"
    using that by (auto simp: resolve_user_def split: option.splits if_splits)
  with assms show ?thesis by (auto simp: resolveSendChannel_def split: option.splits if_splits)
qed

lemma resolveChannel_calls:
  assumes "resolveChannelLocked pf (r, a) = (ok, r', a')"
  shows "(\<exists>n. a_calls a' = a_calls a @ n \<and> quiet n) \<and> r_buf r' = r_buf r \<and> r_posted r' = r_posted r \<and>
    r_partialID r' = r_partialID r \<and> r_done r' = r_done r \<and> r_threadKey r' = r_threadKey r"
proof -
  obtain res a1 where s: "resolveSendChannel pf (r_threadKey r) a = (res, a1)" by fastforce
  from resolveSend_calls [OF this] s assms show ?thesis
    by (auto simp: resolveChannelLocked_def split: if_splits option.splits)
qed

lemma invalidateChannel_calls:
  "invalidateChannelLocked (r, a) = (r', a') \<Longrightarrow> a_calls a' = a_calls a \<and> r_buf r' = r_buf r \<and> r_posted r' = r_posted r \<and>
     r_done r' = r_done r \<and> r_threadKey r' = r_threadKey r"
  by (auto simp: invalidateChannelLocked_def split: if_splits)

lemma journal_calls:
  "journal (Some f) i a s = (ok, a1, s1) \<Longrightarrow> a_calls a1 = a_calls a @ [Journal i ok]"
  by (auto simp: journal_def split: prod.splits)

lemma send_loop_delivers:
  assumes "send_loop pf (Some f) i cs acks r a s = ((acks', ok), r', a', s')" and "cs = drop i chunks"
  shows "\<exists>n new. a_calls a' = a_calls a @ n \<and> acks' = acks @ new \<and> length new \<le> length cs \<and>
    landed n = zip cs new \<and> (ok \<longrightarrow> length new = length cs) \<and> journaled chunks n \<and> r_buf r' = r_buf r \<and> r_posted r' = r_posted r"
  using assms
proof (induction cs arbitrary: i acks a s)
  case Nil
  then show ?case by (intro exI [of _ "[]"]) simp
next
  case (Cons c cs)
  have c: "i < length chunks" "chunks ! i = c" "cs = drop (Suc i) chunks"
    using Cons.prems(2) by (metis drop_eq_Nil leI list.distinct(1), metis nth_via_drop, metis drop_Suc list.sel(3) tl_drop)
  obtain b a1 s1 where j: "journal (Some f) i a s = (b, a1, s1)" by (metis prod_cases3)
  note j1 = journal_calls [OF j]
  show ?case
  proof (cases b)
    case False
    with Cons.prems(1) j j1 show ?thesis by (intro exI [of _ "[Journal i False]"] exI [of _ "[]"]) auto
  next
    case True
    define ans where "ans = pf_send pf (call_no a1) (r_channelID r) c"
    define a2 where "a2 = log_call (SendMsg (r_channelID r) c ans) a1"
    have snd: "sendMessage pf (r_channelID r) c a1 = (ans, a2)" by (simp add: sendMessage_def ans_def a2_def Let_def)
    have calls: "a_calls a2 = a_calls a @ [Journal i True, SendMsg (r_channelID r) c ans]" using j1 True by (simp add: a2_def)
    show ?thesis
    proof (cases "ans = None \<or> ans = Some []")
      case fail: True
      obtain r3 a3 where inv: "invalidateChannelLocked (r, a2) = (r3, a3)" by fastforce
      from invalidateChannel_calls [OF inv] calls Cons.prems(1) j True snd inv fail c(1,2) show ?thesis
        by (intro exI [of _ "[Journal i True, SendMsg (r_channelID r) c ans]"] exI [of _ "[]"]) auto
    next
      case False
      then obtain mid where mid: "ans = Some mid" "mid \<noteq> []" by auto
      have "send_loop pf (Some f) (Suc i) cs (acks @ [msg_key mid]) r a2 s1 = ((acks', ok), r', a', s')"
        using Cons.prems(1) j True snd mid by simp
      from Cons.IH [OF this c(3)] obtain n new where ih: "a_calls a' = a_calls a2 @ n" "acks' = (acks @ [msg_key mid]) @ new"
        "length new \<le> length cs" "landed n = zip cs new" "ok \<longrightarrow> length new = length cs" "journaled chunks n"
        "r_buf r' = r_buf r" "r_posted r' = r_posted r" by blast
      show ?thesis
        by (intro exI [of _ "[Journal i True, SendMsg (r_channelID r) c ans] @ n"] exI [of _ "msg_key mid # new"])
          (use ih calls mid c in auto)
    qed
  qed
qed

lemma finish_chunks_delivers:
  assumes "finish_chunks pf (Some f) chunks r a s = ((acks, ok), r', a', s')"
  shows "\<exists>n. a_calls a' = a_calls a @ n \<and> length acks \<le> length chunks \<and> landed n = zip chunks acks \<and> journaled chunks n \<and>
    (ok \<longrightarrow> length acks = length chunks) \<and> r_posted r' = r_posted r"
proof (cases "r_partialID r \<noteq> [] \<and> chunks \<noteq> []")
  case False
  with assms have "send_loop pf (Some f) 0 chunks [] r a s = ((acks, ok), r', a', s')" by (auto simp: finish_chunks_def)
  from send_loop_delivers [OF this, of chunks] show ?thesis by auto
next
  case True
  then have c0: "0 < length chunks" "chunks = hd chunks # tl chunks" "chunks ! 0 = hd chunks" by (simp, simp, simp add: hd_conv_nth)
  obtain b a3 s3 where j: "journal (Some f) 0 a s = (b, a3, s3)" by (metis prod_cases3)
  note j1 = journal_calls [OF j]
  define e where "e = pf_edit pf (call_no a3) (r_channelID r) (r_partialID r) (hd chunks)"
  define a4 where "a4 = log_call (EditMsg (r_channelID r) (r_partialID r) (hd chunks) e) a3"
  let ?n = "[Journal 0 True, EditMsg (r_channelID r) (r_partialID r) (hd chunks) e]"
  have ed: "editMessage pf (r_channelID r) (r_partialID r) (hd chunks) a3 = (e, a4)"
    by (simp add: editMessage_def e_def a4_def Let_def)
  consider (stop) "\<not> b" | (edited) "b" "e" | (again) "b" "\<not> e" by blast
  then show ?thesis
  proof cases
    case stop
    with assms j j1 True show ?thesis by (auto simp: finish_chunks_def)
  next
    case edited
    have calls: "a_calls a4 = a_calls a @ ?n" using j1 edited by (simp add: a4_def)
    have "send_loop pf (Some f) 1 (tl chunks) [msg_key (r_partialID r)] r a4 s3 = ((acks, ok), r', a', s')"
      using assms True j ed edited by (simp add: finish_chunks_def)
    from send_loop_delivers [OF this, of chunks] obtain n new where sl: "a_calls a' = a_calls a4 @ n"
      "acks = msg_key (r_partialID r) # new" "length new \<le> length (tl chunks)" "landed n = zip (tl chunks) new"
      "ok \<longrightarrow> length new = length (tl chunks)" "journaled chunks n" "r_posted r' = r_posted r" by (auto simp: drop_Suc)
    obtain c cs where ch: "chunks = c # cs" using True by (cases chunks) auto
    have "landed (?n @ n) = zip chunks acks" using sl(2,4) edited by (simp add: ch)
    moreover have "journaled chunks (?n @ n)" using sl(6) c0(1,3) by simp
    moreover have "length acks \<le> length chunks" "ok \<longrightarrow> length acks = length chunks" using sl(2,3,5) by (simp_all add: ch)
    moreover have "a_calls a' = a_calls a @ (?n @ n)" using sl(1) calls by simp
    ultimately show ?thesis using sl(7) by blast
  next
    case again
    have calls: "a_calls a4 = a_calls a @ ?n" using j1 again by (simp add: a4_def)
    obtain r3 a5 where inv: "invalidateChannelLocked (r, a4) = (r3, a5)" by fastforce
    obtain b2 r5 a6 where rs2: "resolveChannelLocked pf (r3, a5) = (b2, r5, a6)" by (metis prod_cases3)
    from resolveChannel_calls [OF rs2] invalidateChannel_calls [OF inv] obtain n2 where
      n2: "a_calls a6 = a_calls a4 @ n2" "quiet n2" "r_posted r5 = r_posted r" by auto
    have pre: "landed (?n @ n2) = []" "\<And>cs. journaled chunks ((?n @ n2) @ cs) = journaled chunks cs"
      using quiet_landed [OF n2(2)] again quiet_journaled [OF n2(2)] c0 by simp_all
    show ?thesis
    proof (cases b2)
      case False
      with assms True j ed again inv rs2 calls n2 pre(1) pre(2) [of "[]"] show ?thesis
        by (intro exI [of _ "?n @ n2"]) (auto simp: finish_chunks_def)
    next
      case b2: True
      have "send_loop pf (Some f) 0 chunks [] r5 a6 s3 = ((acks, ok), r', a', s')"
        using assms True j ed again inv rs2 b2 by (simp add: finish_chunks_def)
      from send_loop_delivers [OF this, of chunks] obtain n where sl: "a_calls a' = a_calls a6 @ n" "length acks \<le> length chunks"
        "landed n = zip chunks acks" "ok \<longrightarrow> length acks = length chunks" "journaled chunks n" "r_posted r' = r_posted r5" by auto
      have "landed ((?n @ n2) @ n) = zip chunks acks" using pre(1) sl(3) unfolding landed_append [of "?n @ n2"] by simp
      moreover have "journaled chunks ((?n @ n2) @ n)" using pre(2) sl(5) by blast
      moreover have "a_calls a' = a_calls a @ ((?n @ n2) @ n)" using sl(1) n2(1) calls by simp
      ultimately show ?thesis using sl(2,4,6) n2(3) by metis
    qed
  qed
qed

lemma finish_delivers:
  assumes "finish pf (Some f) r a s = ((acks, ok), r', a', s')"
  shows "\<exists>n. a_calls a' = a_calls a @ n \<and> length acks \<le> length (ChunkMessage (r_buf r)) \<and>
    landed n = zip (ChunkMessage (r_buf r)) acks \<and> journaled (ChunkMessage (r_buf r)) n \<and>
    (ok \<longrightarrow> length acks = length (ChunkMessage (r_buf r))) \<and> r_posted r' = r_posted r"
proof -
  let ?r1 = "r\<lparr>r_done := True, r_typing := False\<rparr>"
  have nil: "ChunkMessage [] = []" by (simp add: ChunkMessage_def chunkRunes_def)
  consider (refused) "r_done r \<or> pf_dead pf" | (empty) "\<not> r_done r" "\<not> pf_dead pf" "r_buf r = []" "r_partialID r = []"
    | (go) "\<not> r_done r" "\<not> pf_dead pf" "\<not> (r_buf r = [] \<and> r_partialID r = [])" by blast
  then show ?thesis
  proof cases
    case refused
    with assms show ?thesis by (auto simp: finish_def Let_def split: if_splits)
  next
    case empty
    with assms show ?thesis by (auto simp: finish_def Let_def nil)
  next
    case go
    obtain okr r2 a2 where rs: "resolveChannelLocked pf (?r1, a) = (okr, r2, a2)" by (metis prod_cases3)
    from resolveChannel_calls [OF rs] obtain n1 where n1: "a_calls a2 = a_calls a @ n1" "quiet n1"
      and r2: "r_buf r2 = r_buf r" "r_posted r2 = r_posted r" by auto
    note ql = quiet_landed [OF n1(2)] and qj = quiet_journaled [OF n1(2), of "ChunkMessage (r_buf r)"]
    have run: "finish pf (Some f) r a s = (if \<not> okr then (([], False), r2, a2, s) else finish_chunks pf (Some f) (ChunkMessage (r_buf r)) r2 a2 s)"
      using go rs by (auto simp: finish_def Let_def ChunkMessage_def r2)
    show ?thesis
    proof (cases okr)
      case False
      with assms n1 ql qj [of "[]"] r2 show ?thesis unfolding run by auto
    next
      case True
      with assms have "finish_chunks pf (Some f) (ChunkMessage (r_buf r)) r2 a2 s = ((acks, ok), r', a', s')" unfolding run by simp
      from finish_chunks_delivers [OF this] obtain n where "a_calls a' = a_calls a2 @ n" "length acks \<le> length (ChunkMessage (r_buf r))"
        "landed n = zip (ChunkMessage (r_buf r)) acks" "journaled (ChunkMessage (r_buf r)) n"
        "ok \<longrightarrow> length acks = length (ChunkMessage (r_buf r))" "r_posted r' = r_posted r2" by blast
      with n1 ql qj [of n] r2 show ?thesis by (intro exI [of _ "n1 @ n"]) auto
    qed
  qed
qed

text \<open>What the journal callback keeps, the final delivery keeps.\<close>

lemma send_loop_keeps:
  assumes "\<And>i s. P s \<Longrightarrow> P (snd (f i s))"
  shows "send_loop pf (Some f) i cs acks r a s = (out, r', a', s') \<Longrightarrow> P s \<Longrightarrow> P s'"
proof (induction cs arbitrary: i acks a s)
  case (Cons c cs)
  obtain b s1 where f: "f i s = (b, s1)" by fastforce
  have "P s1" using assms [OF Cons.prems(2), of i] f by simp
  with Cons f show ?case
    by (auto simp: journal_def split: bool.splits prod.splits option.splits if_splits)
qed simp

lemma finish_keeps:
  assumes keep: "\<And>i s. P s \<Longrightarrow> P (snd (f i s))" and "finish pf (Some f) r a s = (out, r', a', s')" and "P s"
  shows "P s'"
proof -
  have chunks: "P t'" if "finish_chunks pf (Some f) cs x b t = (o', x', b', t')" "P t" for cs x b t o' x' b' t'
  proof -
    obtain k t1 where f: "f 0 t = (k, t1)" by fastforce
    have "P t1" using keep [OF that(2), of 0] f by simp
    with that f show ?thesis
      by (auto simp: finish_chunks_def journal_def intro: send_loop_keeps [of P f, OF keep] split: if_splits bool.splits prod.splits)
  qed
  from assms(2,3) show ?thesis
    by (auto simp: finish_def Let_def intro: chunks split: if_splits bool.splits prod.splits)
qed

lemma finish_dead: "pf_dead pf \<Longrightarrow> finish pf cb r a s = (([], False), (if r_done r then r else r\<lparr>r_done := True, r_typing := False\<rparr>), a, s)"
  by (simp add: finish_def Let_def)

section \<open>Lemmas on the stream of partials\<close>

datatype relay_op = RPush platform string | RCancel | RRetract

fun relay_step :: "relay_op \<Rightarrow> Relay \<times> adapter \<Rightarrow> Relay \<times> adapter" where
  "relay_step (RPush pf delta) st = Push pf delta st"
| "relay_step RCancel st = Cancel st"
| "relay_step RRetract st = Retract st"

text \<open>A message the platform accepted under an identity, and the texts shown.\<close>

definition visible :: "platform_call list \<Rightarrow> bool" where
  "visible n = list_ex (\<lambda>x. case x of SendMsg _ _ (Some mid) \<Rightarrow> mid \<noteq> [] | _ \<Rightarrow> False) n"

definition within_cap :: "platform_call list \<Rightarrow> bool" where
  "within_cap n = list_all (\<lambda>x. case x of SendMsg _ c _ \<Rightarrow> length (runes c) \<le> messageCap
      | EditMsg _ _ c _ \<Rightarrow> length (runes c) \<le> messageCap | _ \<Rightarrow> True) n"

lemma visible_simps [simp]: "\<not> visible []" "visible (xs @ ys) \<longleftrightarrow> visible xs \<or> visible ys"
  "visible [SendMsg ch c m] \<longleftrightarrow> (\<exists>mid. m = Some mid \<and> mid \<noteq> [])" "\<not> visible [EditMsg ch b c e]" "\<not> visible [DeleteMsg ch b]"
  by (auto simp: visible_def split: option.splits)

lemma within_cap_simps [simp]: "within_cap []" "within_cap (xs @ ys) \<longleftrightarrow> within_cap xs \<and> within_cap ys"
  "within_cap [SendMsg ch c m] \<longleftrightarrow> length (runes c) \<le> messageCap" "within_cap [EditMsg ch b c e] \<longleftrightarrow> length (runes c) \<le> messageCap"
  "within_cap [DeleteMsg ch b]"
  by (simp_all add: within_cap_def)

definition relay_ok :: "Relay \<times> adapter \<Rightarrow> Relay \<times> adapter \<Rightarrow> bool" where
  "relay_ok st st' \<longleftrightarrow> (\<exists>n. a_calls (snd st') = a_calls (snd st) @ n \<and> within_cap n \<and>
     (r_posted (fst st') \<longleftrightarrow> r_posted (fst st) \<or> visible n))"

lemma quiet_ok: "quiet n \<Longrightarrow> within_cap n \<and> \<not> visible n"
  by (fastforce simp: quiet_def within_cap_def visible_def list_all_iff list_ex_iff split: platform_call.splits)

lemma partial_within: "partialContentLocked r = (content, r') \<Longrightarrow> length (runes content) \<le> messageCap"
proof -
  have "list_all scalar (runes (r_buf r))" by (rule runes_scalar)
  moreover assume "partialContentLocked r = (content, r')"
  ultimately show ?thesis
    using scalars_parts [of "runes (r_buf r)" messageCap] runes_of_runes
    by (auto simp: partialContentLocked_def Let_def split: if_splits)
qed

lemma partial_posted: "partialContentLocked r = (content, r') \<Longrightarrow> r_posted r' = r_posted r \<and> r_threadKey r' = r_threadKey r"
  by (auto simp: partialContentLocked_def Let_def split: if_splits)

lemma relay_okI:
  "a_calls a' = a_calls a @ n \<Longrightarrow> within_cap n \<Longrightarrow> (r_posted r' \<longleftrightarrow> r_posted r \<or> visible n) \<Longrightarrow> relay_ok (r, a) (r', a')"
  by (auto simp: relay_ok_def)

lemma typing_ok: "relay_ok (r, a) (ensureTypingLocked pf (r, a))"
proof -
  obtain b r1 a1 where rs: "resolveChannelLocked pf (r, a) = (b, r1, a1)" by (metis prod_cases3)
  from resolveChannel_calls [OF rs] obtain n where n: "a_calls a1 = a_calls a @ n" "quiet n" "r_posted r1 = r_posted r" by blast
  have id: "relay_ok (r, a) (r, a)" by (rule relay_okI [of _ _ "[]"]) simp_all
  have "relay_ok (r, a) (stamp_edit pf r1, a1)" "relay_ok (r, a) (r1\<lparr>r_typing := True\<rparr>, a1)"
    using n quiet_ok [OF n(2)] by (auto intro!: relay_okI [of _ _ n] simp: stamp_edit_def)
  with id rs show ?thesis by (auto simp: ensureTypingLocked_def split: bool.splits)
qed

lemma create_ok: "relay_ok (r, a) (create_partial pf (r, a))"
proof -
  obtain b r1 a1 where rs: "resolveChannelLocked pf (r, a) = (b, r1, a1)" by (metis prod_cases3)
  from resolveChannel_calls [OF rs] obtain n where n: "a_calls a1 = a_calls a @ n" "quiet n" "r_posted r1 = r_posted r" by blast
  obtain content r2 where pc: "partialContentLocked r1 = (content, r2)" by fastforce
  define ans where "ans = pf_send pf (call_no a1) (r_channelID r2) content"
  define a2 where "a2 = log_call (SendMsg (r_channelID r2) content ans) a1"
  have snd: "sendMessage pf (r_channelID r2) content a1 = (ans, a2)" by (simp add: sendMessage_def ans_def a2_def Let_def)
  let ?n = "n @ [SendMsg (r_channelID r2) content ans]"
  have calls: "a_calls a2 = a_calls a @ ?n" using n by (simp add: a2_def)
  have cap: "within_cap ?n" using quiet_ok [OF n(2)] partial_within [OF pc] by simp
  have vis: "visible ?n \<longleftrightarrow> (\<exists>mid. ans = Some mid \<and> mid \<noteq> [])" using quiet_ok [OF n(2)] by simp
  obtain r3 a3 where inv: "invalidateChannelLocked (r2, a2) = (r3, a3)" by fastforce
  note inv1 = invalidateChannel_calls [OF inv] and pp = partial_posted [OF pc]
  have 1: "relay_ok (r, a) (stamp_edit pf r1, a1)"
    using n quiet_ok [OF n(2)] by (auto intro!: relay_okI [of _ _ n] simp: stamp_edit_def)
  have 2: "relay_ok (r, a) (stamp_edit pf r3, a3)" if "ans = None \<or> ans = Some []"
    by (rule relay_okI [OF _ cap]) (use calls inv1 pp n(3) vis that in \<open>auto simp: stamp_edit_def\<close>)
  have 3: "relay_ok (r, a) ((stamp_edit pf r2)\<lparr>r_partialID := mid, r_posted := True, r_typing := False\<rparr>, a2)" if "ans = Some mid" "mid \<noteq> []" for mid
    by (rule relay_okI [OF calls cap]) (use vis that in auto)
  show ?thesis using rs pc snd inv 1 2 3 by (auto simp: create_partial_def split: bool.splits option.splits)
qed

lemma relay_ok_refl: "relay_ok st st"
  unfolding relay_ok_def by (rule exI [of _ "[]"]) simp

lemma edit_ok:
  assumes "partialContentLocked r1 = (content, r2)" and "editMessage pf ch mid content a = (b, a2)"
    and "r_posted r1 = r_posted r"
  shows "relay_ok (r, a) (stamp_edit pf r2, a2)" "invalidateChannelLocked (r2, a2) = (r3, a3) \<Longrightarrow> relay_ok (r, a) (stamp_edit pf r3, a3)"
proof -
  have calls: "a_calls a2 = a_calls a @ [EditMsg ch mid content b]" using assms(2) by (auto simp: editMessage_def Let_def)
  have cap: "within_cap [EditMsg ch mid content b]" using partial_within [OF assms(1)] by simp
  have vis: "\<not> visible [EditMsg ch mid content b]" by simp
  show "relay_ok (r, a) (stamp_edit pf r2, a2)"
    by (rule relay_okI [OF calls cap]) (use partial_posted [OF assms(1)] assms(3) vis in \<open>auto simp: stamp_edit_def\<close>)
  assume inv: "invalidateChannelLocked (r2, a2) = (r3, a3)"
  show "relay_ok (r, a) (stamp_edit pf r3, a3)"
    by (rule relay_okI [OF _ cap]) (use invalidateChannel_calls [OF inv] calls partial_posted [OF assms(1)] assms(3) vis in \<open>auto simp: stamp_edit_def\<close>)
qed

lemma Push_ok: "relay_ok (r, a) (Push pf delta (r, a))"
proof -
  let ?r1 = "r\<lparr>r_buf := r_buf r @ delta\<rparr>"
  have lift: "relay_ok (r, a) st" if "relay_ok (?r1, a) st" for st using that by (simp add: relay_ok_def)
  obtain content r2 where pc: "partialContentLocked ?r1 = (content, r2)" by fastforce
  obtain b a2 where ed: "editMessage pf (r_channelID r2) (r_partialID r2) content a = (b, a2)" by fastforce
  obtain r3 a3 where inv: "invalidateChannelLocked (r2, a2) = (r3, a3)" by fastforce
  from edit_ok [OF pc ed, of r] edit_ok(2) [OF pc ed _ inv, of r] lift [OF typing_ok] lift [OF create_ok] lift [OF relay_ok_refl]
    relay_ok_refl pc ed inv
  show ?thesis by (auto simp: Push_def Let_def split: bool.splits)
qed

lemma relay_step_ok: "relay_ok st (relay_step op st)"
proof (cases op)
  case (RPush pf delta)
  with Push_ok show ?thesis by (cases st) simp
next
  case RCancel
  then show ?thesis by (cases st) (auto simp: Cancel_def intro: relay_okI [of _ _ "[]"])
next
  case RRetract
  then show ?thesis
    by (cases st) (auto simp: Retract_def Let_def intro: relay_okI [of _ _ "[]"] relay_okI [of _ _ "[DeleteMsg ch m]" for ch m])
qed

lemma relay_ok_trans: "relay_ok st st' \<Longrightarrow> relay_ok st' st'' \<Longrightarrow> relay_ok st st''"
  unfolding relay_ok_def
proof (elim exE conjE)
  fix n m
  assume "a_calls (snd st') = a_calls (snd st) @ n" "within_cap n" "r_posted (fst st') = (r_posted (fst st) \<or> visible n)"
    "a_calls (snd st'') = a_calls (snd st') @ m" "within_cap m" "r_posted (fst st'') = (r_posted (fst st') \<or> visible m)"
  then show "\<exists>n. a_calls (snd st'') = a_calls (snd st) @ n \<and> within_cap n \<and> r_posted (fst st'') = (r_posted (fst st) \<or> visible n)"
    by (intro exI [of _ "n @ m"]) auto
qed

lemma relay_run_ok: "relay_ok st (fold relay_step ops st)"
proof (induction ops arbitrary: st)
  case (Cons op ops)
  have "relay_ok (relay_step op st) (fold relay_step ops (relay_step op st))" by (rule Cons.IH)
  with relay_ok_trans [OF relay_step_ok] show ?case by simp
qed (simp add: relay_ok_refl)

section \<open>Lemmas on identities\<close>

lemma CutPrefix_append [simp]: "CutPrefix p (p @ s) = Some s"
  by (simp add: CutPrefix_def)

lemma resolve_thread_key: "ch \<noteq> [] \<Longrightarrow> resolveSendChannel pf (''discord:thread:'' @ ch) a = (Some ch, a)"
  unfolding resolveSendChannel_def by (simp only: CutPrefix_append option.case if_True simp_thms)

lemma resolve_dm_key: "u \<noteq> [] \<Longrightarrow> resolveSendChannel pf (''discord:dm:'' @ u) a = resolve_dm pf u a"
proof -
  have "CutPrefix ''discord:thread:'' (''discord:dm:'' @ u) = None" by (simp add: CutPrefix_def has_prefix_def)
  moreover assume "u \<noteq> []"
  ultimately show ?thesis
    unfolding resolveSendChannel_def resolve_user_def by (simp only: CutPrefix_append option.case if_False simp_thms)
qed

section \<open>Properties\<close>

text \<open>
  C13: the final delivery of a turn reports exactly what landed.  Whatever the platform answers, the
  acks returned are those of the first pieces of the reply, in order and one for one: the pieces put on
  the platform under a message identity are a prefix of \<open>ChunkMessage\<close> of the streamed text, each
  edit or send directly follows the successful journal entry for its piece, and success means that
  every piece landed.
\<close>

theorem FinishJournaled_reports_landed:
  assumes "FinishJournaled pf (Some f) r a s = ((acks, ok), r', a', s')"
  shows "\<exists>n. a_calls a' = a_calls a @ n \<and> length acks \<le> length (ChunkMessage (r_buf r)) \<and>
    landed n = zip (ChunkMessage (r_buf r)) acks \<and> journaled (ChunkMessage (r_buf r)) n \<and>
    (ok \<longrightarrow> length acks = length (ChunkMessage (r_buf r)))"
  using finish_delivers [of pf f r a s acks ok r' a' s'] assms by (auto simp: FinishJournaled_def)

definition ex_platform :: platform where
  "ex_platform = \<lparr>pf_dead = False, pf_create = (\<lambda>_ _. Some ''c1''), pf_send = (\<lambda>_ _ _. Some ''m9''), pf_edit = (\<lambda>_ _ _ _. False),
     pf_now = 0, pf_stamp = 0\<rparr>"

definition ex_adapter :: adapter where
  "ex_adapter = \<lparr>a_dmChannels = (\<lambda>_. None), a_calls = []\<rparr>"

definition ex_relay :: Relay where
  "ex_relay = (NewRelay ''discord:dm:7'')\<lparr>r_buf := ''hi'', r_channelID := ''c0'', r_partialID := ''m1'', r_posted := True\<rparr>"

theorem FinishJournaled_reports_landed_witness:
  "\<exists>acks ok r' a' s'. FinishJournaled ex_platform (Some (\<lambda>i s. (True, Suc s))) ex_relay ex_adapter (0 :: nat) = ((acks, ok), r', a', s') \<and>
     length acks \<le> length (ChunkMessage ''hi'')"
proof -
  obtain acks ok r' a' s' where r: "FinishJournaled ex_platform (Some (\<lambda>i s. (True, Suc s))) ex_relay ex_adapter (0 :: nat) = ((acks, ok), r', a', s')"
    by (metis prod.collapse)
  from FinishJournaled_reports_landed [OF this] r show ?thesis by (auto simp: ex_relay_def NewRelay_def)
qed

text \<open>
  The evidence a failed turn is judged by is true.  Over any sequence of pushes, cancellations and
  retractions of a fresh relay, \<open>Posted\<close> holds exactly when the platform accepted some message of
  it under an identity, and no text sent or edited ever exceeds the platform's limit; a relay that is
  finished or cancelled makes no further call from a push or a final delivery.
\<close>

lemma Posted_is_evidence:
  "\<exists>n. a_calls (snd (fold relay_step ops (NewRelay k, a))) = a_calls a @ n \<and> within_cap n \<and>
     (Posted (fst (fold relay_step ops (NewRelay k, a))) = visible n) \<and>
     Push pf delta (r\<lparr>r_done := True\<rparr>, b) = (r\<lparr>r_done := True\<rparr>, b) \<and>
     finish pf cb (r\<lparr>r_done := True\<rparr>) b s = (([], False), r\<lparr>r_done := True\<rparr>, b, s)"
  using relay_run_ok [of "(NewRelay k, a)" ops]
  by (auto simp: relay_ok_def Posted_def NewRelay_def Push_def finish_def)

text \<open>
  A reply goes back where the message came from.  For every message \<open>Normalize\<close> accepts, the
  thread key of the event resolves to the guild thread of the message, or to the direct-message channel
  of its author and of nobody else; the event is stamped untrusted and carries no owner; and two
  accepted messages with different ids have different dedup keys.
\<close>

lemma Normalize_round_trip:
  assumes "Normalize (Some m) = Inr ev" and "Normalize (Some m2) = Inr ev2"
  shows "resolveSendChannel pf (E_ThreadKey ev) a =
      (if mc_GuildID m \<noteq> [] then (Some (mc_ChannelID m), a) else resolve_dm pf (the (mc_Author m)) a) \<and>
    mc_Author m = Some (E_Sender ev) \<and> E_Trust ev = ''untrusted'' \<and> E_OwnerID ev = None \<and>
    (E_DedupKey ev = E_DedupKey ev2 \<longleftrightarrow> mc_ID m = mc_ID m2)"
  using assms
  by (auto simp: Normalize_def msg_key_def resolve_thread_key [simplified] resolve_dm_key [simplified] split: option.splits if_splits)

definition ex_message :: MessageCreate where
  "ex_message = \<lparr>mc_Author = Some ''7'', mc_ID = ''100'', mc_GuildID = [], mc_ChannelID = ''c0'', mc_Content = ''hi'',
     mc_MessageReference = Some ''99'', mc_Attachments = [None]\<rparr>"

lemma Normalize_round_trip_example:
  "\<exists>ev. Normalize (Some ex_message) = Inr ev \<and> resolveSendChannel ex_platform (E_ThreadKey ev) ex_adapter = resolve_dm ex_platform ''7'' ex_adapter"
proof -
  obtain ev where ev: "Normalize (Some ex_message) = Inr ev" by (simp add: Normalize_def ex_message_def)
  from Normalize_round_trip [OF ev ev, of ex_platform ex_adapter] ev show ?thesis by (simp add: ex_message_def)
qed

end
