(* ===== verification/Turn_Path.thy ===== *)
theory Turn_Path
  imports Store_Machine Recovery Discord Session_Manager
begin

text \<open>
  The router's handler: \<open>src/internal/cli/turn.go\<close>.  One queued event in, one engine turn out,
  every exit a durable event state.  What the handler meets is the record \<open>turn_deps\<close>: the store
  calls that fail, the target gate, the decoder of the payload (package encoding/json), the session
  manager's turn with the text it streamed, whether the context died, the platform during the stream
  and at the final delivery, and the recovery environment.  The handler runs its own statements in
  order; what other goroutines commit in between is the subject of \<open>Store_Machine\<close>.
\<close>

section \<open>Environment and result\<close>

datatype handler_call = HSkip | HDead | HHistory | HBacklog | HCompose | HOwed | HComplete | HStamp nat | HAck nat

record turn_deps =
  td_fails :: "handler_call \<Rightarrow> bool"
  td_relay :: bool
  td_gate_fails :: bool
  td_mint :: bool
  td_unmarshal :: "string \<Rightarrow> string option"
  td_runner :: "TurnRequest \<Rightarrow> db \<Rightarrow> turn_error option \<times> string list \<times> db"
  td_cancelled :: bool
  td_stream :: "nat \<Rightarrow> platform"
  td_final :: platform
  td_surface :: "surface_call \<Rightarrow> bool"
  td_rec :: rec_env
  td_cwd :: string
  td_now :: int

record turn_result =
  tu_db :: db
  tu_relay :: "Relay option"
  tu_adapter :: adapter
  tu_requests :: "TurnRequest list"
  tu_fenced :: "string list"
  tu_timer :: "(int \<times> QueuedEvent) option"
  tu_notify :: bool

definition plain_result :: "db \<Rightarrow> Relay option \<Rightarrow> adapter \<Rightarrow> turn_result" where
  "plain_result d r a = \<lparr>tu_db = d, tu_relay = r, tu_adapter = a, tu_requests = [], tu_fenced = [], tu_timer = None, tu_notify = False\<rparr>"

definition rec_landing :: "rec_result \<Rightarrow> Relay option \<Rightarrow> adapter \<Rightarrow> turn_result" where
  "rec_landing rr r a = \<lparr>tu_db = rr_db rr, tu_relay = r, tu_adapter = a, tu_requests = [], tu_fenced = [],
     tu_timer = rr_timer rr, tu_notify = rr_notify rr\<rparr>"

definition call :: "turn_deps \<Rightarrow> handler_call \<Rightarrow> 'a res \<Rightarrow> 'a res" where
  "call env c r = (if td_fails env c then Inl ErrDriver else r)"

definition cancel_relay :: "Relay option \<Rightarrow> adapter \<Rightarrow> Relay option \<times> adapter" where
  "cancel_relay r a = (case r of None \<Rightarrow> (None, a) | Some x \<Rightarrow> (case Cancel (x, a) of (x', a') \<Rightarrow> (Some x', a')))"

definition retract_relay :: "Relay option \<Rightarrow> adapter \<Rightarrow> Relay option \<times> adapter" where
  "retract_relay r a = (case r of None \<Rightarrow> (None, a) | Some x \<Rightarrow> (case Retract (x, a) of (x', a') \<Rightarrow> (Some x', a')))"

section \<open>The success leg\<close>

definition reply_key :: "QueuedEvent \<Rightarrow> nat \<Rightarrow> string" where
  "reply_key ev i = ''reply:'' @ Q_DedupKey ev @ '':'' @ dec_int (int i)"

definition reply_rows :: "QueuedEvent \<Rightarrow> string list \<Rightarrow> Delivery list" where
  "reply_rows ev chunks =
     map (\<lambda>i. \<lparr>D_DeliveryKey = reply_key ev i, D_EventID = Q_ID ev, D_Target = Q_ThreadKey ev, D_Payload = chunks ! i\<rparr>)
       [0..<length chunks]"

text \<open>The attempt journal handed to the relay.\<close>

definition stamp_attempt :: "turn_deps \<Rightarrow> int list \<Rightarrow> nat \<Rightarrow> db \<Rightarrow> bool \<times> db" where
  "stamp_attempt env ids i d =
     (if i \<ge> length ids then (False, d)
      else (case call env (HStamp i) (MarkDeliveryAttempt (ids ! i) (td_now env) d) of
          Inl _ \<Rightarrow> (False, d)
        | Inr d' \<Rightarrow> (True, d')))"

text \<open>The loop over the acks: a failed ack write is logged and the loop goes on.\<close>

fun ack_loop :: "turn_deps \<Rightarrow> int list \<Rightarrow> nat \<Rightarrow> nat \<Rightarrow> db \<Rightarrow> db" where
  "ack_loop env ids i 0 d = d"
| "ack_loop env ids i (Suc n) d =
     (if i \<ge> length ids then d
      else (case call env (HAck i) (AckDelivery (ids ! i) (td_now env) d) of
          Inl _ \<Rightarrow> ack_loop env ids (Suc i) n d
        | Inr d' \<Rightarrow> ack_loop env ids (Suc i) n d'))"

definition finish_direct :: "turn_deps \<Rightarrow> int list \<Rightarrow> Relay \<Rightarrow> adapter \<Rightarrow> db \<Rightarrow> turn_result" where
  "finish_direct env ids r a d =
     (case FinishJournaled (td_final env) (Some (stamp_attempt env ids)) r a d of
        ((acks, ok), r1, a1, d1) \<Rightarrow>
          let d2 = ack_loop env ids 0 (length acks) d1 in
          if \<not> ok \<or> length acks < length ids then
            (case (if acks = [] then Retract (r1, a1) else (r1, a1)) of
               (r2, a2) \<Rightarrow> (plain_result d2 (Some r2) a2)\<lparr>tu_notify := True\<rparr>)
          else plain_result d2 (Some r1) a1)"

definition finishTurn :: "turn_deps \<Rightarrow> QueuedEvent \<Rightarrow> string \<Rightarrow> Relay option \<Rightarrow> adapter \<Rightarrow> db \<Rightarrow> turn_result" where
  "finishTurn env ev text relay a d =
     (if text = [] then
        (case cancel_relay relay a of (r', a') \<Rightarrow>
           (case call env HComplete (MarkEventCompleted (Q_ID ev) (td_now env) d) of
              Inl _ \<Rightarrow> plain_result d r' a'
            | Inr d' \<Rightarrow> plain_result d' r' a'))
      else
        let chunks = ChunkMessage text; rows = reply_rows ev chunks in
        (case call env HCompose (InsertDeliveries rows d) of
           Inl _ \<Rightarrow> (case cancel_relay relay a of (r', a') \<Rightarrow> rec_landing (ParkAmbiguous (td_rec env) ev d) r' a')
         | Inr ((ids, composed), d1) \<Rightarrow>
             let direct = (relay \<noteq> None \<and> composed \<and> \<not> td_fails env HOwed \<and>
                           OwedDeliveriesBefore (Q_ThreadKey ev) (ids ! 0) d1 = 0) in
             (case call env HComplete (if composed then MarkEventCompleted (Q_ID ev) (td_now env) d1
                                       else MarkEventCompletedReconciled (Q_ID ev) (td_now env) d1) of
                Inl _ \<Rightarrow>
                  (case retract_relay relay a of (r', a') \<Rightarrow>
                     (plain_result d1 r' a')\<lparr>tu_fenced := map D_DeliveryKey rows\<rparr>)
              | Inr d2 \<Rightarrow>
                  if \<not> direct then
                    (case retract_relay relay a of (r', a') \<Rightarrow> (plain_result d2 r' a')\<lparr>tu_notify := True\<rparr>)
                  else finish_direct env ids (the relay) a d2)))"

section \<open>The handler\<close>

definition deadLetterMalformed :: "turn_deps \<Rightarrow> QueuedEvent \<Rightarrow> adapter \<Rightarrow> db \<Rightarrow> turn_result" where
  "deadLetterMalformed env ev a d =
     (case call env HDead (DeadLetterEvent (Q_ID ev) ''malformed'' (td_now env) d) of
        Inl _ \<Rightarrow> plain_result d None a
      | Inr d1 \<Rightarrow>
          (case SurfaceDeadLetterCoordinated (td_surface env) ev d1 of
             Inl _ \<Rightarrow> plain_result d1 None a
           | Inr d2 \<Rightarrow> (plain_result d2 None a)\<lparr>tu_notify := True\<rparr>))"

text \<open>The eligibility checks before the engine runs: whether a live relay is minted.\<close>

definition mint_relay :: "turn_deps \<Rightarrow> QueuedEvent \<Rightarrow> db \<Rightarrow> Relay option" where
  "mint_relay env ev d =
     (if \<not> td_relay env then None
      else if td_gate_fails env then None
      else if td_fails env HHistory then None
      else if EventHasDeliveries (Q_ID ev) d then None
      else if td_fails env HBacklog then None
      else if HasOwedDeliveries (Q_ThreadKey ev) d then None
      else if td_mint env then Some (NewRelay (Q_ThreadKey ev)) else None)"

text \<open>The output sink: the reply so far, and what is pushed to the relay for each delta.\<close>

definition newlines :: string where "newlines = [CHR 0x0A, CHR 0x0A]"

fun sink :: "string \<Rightarrow> string list \<Rightarrow> string \<times> string list" where
  "sink reply [] = (reply, [])"
| "sink reply (x # xs) =
     (if reply = [] then (case sink x xs of (t, ps) \<Rightarrow> (t, x # ps))
      else (case sink (reply @ newlines @ x) xs of (t, ps) \<Rightarrow> (t, newlines # x # ps)))"

fun push_all :: "(nat \<Rightarrow> platform) \<Rightarrow> nat \<Rightarrow> string list \<Rightarrow> Relay \<times> adapter \<Rightarrow> Relay \<times> adapter" where
  "push_all pf i [] st = st"
| "push_all pf i (x # xs) st = push_all pf (Suc i) xs (Push (pf i) x st)"

definition stream_relay :: "turn_deps \<Rightarrow> string list \<Rightarrow> Relay option \<Rightarrow> adapter \<Rightarrow> Relay option \<times> adapter" where
  "stream_relay env pushes r a =
     (case r of None \<Rightarrow> (None, a) | Some x \<Rightarrow> (case push_all (td_stream env) 0 pushes (x, a) of (x', a') \<Rightarrow> (Some x', a')))"

definition turn_request :: "turn_deps \<Rightarrow> QueuedEvent \<Rightarrow> string \<Rightarrow> TurnRequest" where
  "turn_request env ev text =
     \<lparr>Tr_ThreadKey = Q_ThreadKey ev, Tr_TrustFloor = Floor [Q_Trust ev], Tr_Cwd = td_cwd env, Tr_Kind = Q_Kind ev, Tr_Prompt = text\<rparr>"

text \<open>The end of a turn whose engine failed: the relay is over, a shutdown leaves the event to the next boot, a
  visible partial reply forbids a retry.\<close>

definition turn_failed :: "turn_deps \<Rightarrow> QueuedEvent \<Rightarrow> Relay option \<Rightarrow> adapter \<Rightarrow> db \<Rightarrow> turn_result" where
  "turn_failed env ev relay a d =
     (case cancel_relay relay a of (r', a') \<Rightarrow>
        if td_cancelled env then plain_result d r' a'
        else if (case r' of None \<Rightarrow> False | Some x \<Rightarrow> Posted x) then rec_landing (ParkAmbiguous (td_rec env) ev d) r' a'
        else rec_landing (HandleEngineFailure (td_rec env) ev d) r' a')"

definition productionTurn :: "turn_deps \<Rightarrow> QueuedEvent \<Rightarrow> adapter \<Rightarrow> db \<Rightarrow> turn_result" where
  "productionTurn env ev a d =
     (if Q_Trust ev \<noteq> ''owner'' then
        (case call env HSkip (SkipEvent (Q_ID ev) (td_now env) d) of
           Inl _ \<Rightarrow> plain_result d None a
         | Inr d' \<Rightarrow> plain_result d' None a)
      else (case td_unmarshal env (Q_Payload ev) of
          None \<Rightarrow> deadLetterMalformed env ev a d
        | Some text \<Rightarrow>
            let req = turn_request env ev text in
            (case td_runner env req d of (err, deltas, d1) \<Rightarrow>
              (case sink [] deltas of (reply, pushes) \<Rightarrow>
                (case stream_relay env pushes (mint_relay env ev d) a of (relay, a1) \<Rightarrow>
                   (case err of
                      None \<Rightarrow> (finishTurn env ev reply relay a1 d1)\<lparr>tu_requests := [req]\<rparr>
                    | Some _ \<Rightarrow> (turn_failed env ev relay a1 d1)\<lparr>tu_requests := [req]\<rparr>))))))"

section \<open>Lemmas on the stream\<close>

lemma sink_pushes: "sink reply xs = (t, ps) \<Longrightarrow> t = reply @ concat ps"
  by (induction reply xs arbitrary: t ps rule: sink.induct) (auto split: if_splits prod.splits)

lemma Push_buf:
  assumes "Push pf delta (r, a) = (r', a')" and "\<not> r_done r"
  shows "\<not> r_done r' \<and> (pf_dead pf \<or> r_buf r' = r_buf r @ delta)"
proof (cases "pf_dead pf")
  case True
  with assms show ?thesis by (simp add: Push_def)
next
  case False
  let ?r1 = "r\<lparr>r_buf := r_buf r @ delta\<rparr>"
  define same where "same x \<longleftrightarrow> r_buf x = r_buf ?r1 \<and> r_done x = r_done r" for x :: Relay
  have res: "same x'" if "resolveChannelLocked pf (x, b) = (ok, x', b')" "same x" for x x' :: Relay and b b' ok
    using resolveChannel_calls [OF that(1)] that(2) by (simp add: same_def)
  have inv: "same x'" if "invalidateChannelLocked (x, b) = (x', b')" "same x" for x x' :: Relay and b b'
    using invalidateChannel_calls [OF that(1)] that(2) by (simp add: same_def)
  have par: "same x'" if "partialContentLocked x = (c, x')" "same x" for x x' :: Relay and c
    using that by (auto simp: partialContentLocked_def same_def Let_def split: if_splits)
  have st: "same (stamp_edit pf x) = same x" "same (x\<lparr>r_typing := b\<rparr>) = same x" "same (x\<lparr>r_partialID := m\<rparr>) = same x" "same (x\<lparr>r_posted := b\<rparr>) = same x" for x b m
    by (simp_all add: same_def stamp_edit_def)
  have s1: "same ?r1" by (simp add: same_def)
  have ty: "same (fst (ensureTypingLocked pf (?r1, a)))"
    using s1 by (auto simp: ensureTypingLocked_def st dest: res split: prod.splits bool.splits)
  have cr: "same (fst (create_partial pf (?r1, a)))"
    using s1 by (auto simp: create_partial_def st dest!: res par inv split: prod.splits bool.splits option.splits)
  have "same r'"
    using assms(1) False s1 ty cr assms(2)
    by (auto simp: Push_def Let_def st dest!: par inv split: prod.splits bool.splits if_splits)
  with assms(2) show ?thesis by (simp add: same_def)
qed

lemma push_all_buf:
  "push_all pf i xs (r, a) = (r', a') \<Longrightarrow> \<not> r_done r \<Longrightarrow> (\<exists>j. pf_dead (pf j)) \<or> (r_buf r' = r_buf r @ concat xs \<and> \<not> r_done r')"
proof (induction xs arbitrary: i r a)
  case (Cons x xs)
  obtain r1 a1 where p: "Push (pf i) x (r, a) = (r1, a1)" by fastforce
  from Push_buf [OF p Cons.prems(2)] Cons.IH [of "Suc i" r1 a1] Cons.prems(1) p show ?case by auto
qed simp

section \<open>Lemmas on the live delivery\<close>

text \<open>A row is the same up to its bookkeeping, and acked only if its id is among the given ones.\<close>

definition kept_unless :: "int set \<Rightarrow> delivery_row \<Rightarrow> delivery_row \<Rightarrow> bool" where
  "kept_unless A q q' \<longleftrightarrow> de_id q' = de_id q \<and> de_delivery_key q' = de_delivery_key q \<and> de_target q' = de_target q \<and>
     de_payload q' = de_payload q \<and> (de_id q \<notin> A \<longrightarrow> de_acked q' = de_acked q)"

lemma kept_refl: "list_all2 (kept_unless A) t t"
  by (simp add: list_all2_same kept_unless_def)

lemma kept_trans: "list_all2 (kept_unless A) t u \<Longrightarrow> list_all2 (kept_unless B) u v \<Longrightarrow> list_all2 (kept_unless (A \<union> B)) t v"
  by (rule list_all2_trans [of "kept_unless A" "kept_unless B"]) (auto simp: kept_unless_def)

lemma kept_mono: "list_all2 (kept_unless A) t u \<Longrightarrow> A \<subseteq> B \<Longrightarrow> list_all2 (kept_unless B) t u"
  by (erule list_all2_mono) (auto simp: kept_unless_def)

lemma del_rel_kept: "list_all2 (del_rel A) t u \<Longrightarrow> list_all2 (kept_unless A) t u"
  by (erule list_all2_mono) (auto simp: del_rel_def kept_unless_def split: if_splits)

lemma ack_kept:
  assumes "AckDelivery i now d = Inr d'" and "wf_db d"
  shows "list_all2 (kept_unless {i}) (deliveries d) (deliveries d')"
  using assms
proof (cases rule: AckDelivery_InrE)
  case (plain r)
  with ack_rel [OF assms] del_rel_kept show ?thesis by blast
next
  case (bound r ev)
  with ack_rel [OF assms] del_rel_kept show ?thesis by blast
qed (simp add: kept_refl)

lemma call_Inr: "call env c r = Inr x \<Longrightarrow> r = Inr x"
  by (simp add: call_def split: if_splits)

lemma call_ok [simp]: "\<not> td_fails env c \<Longrightarrow> call env c r = r"
  by (simp add: call_def)

definition store_keeps :: "db \<Rightarrow> int set \<Rightarrow> db \<Rightarrow> bool" where
  "store_keeps d A d' \<longleftrightarrow> store_run d d' \<and> list_all2 (kept_unless A) (deliveries d) (deliveries d')"

lemma ack_loop_keeps:
  "wf_db d \<Longrightarrow> store_keeps d (set (take n (drop i ids))) (ack_loop env ids i n d)"
proof (induction n arbitrary: i d)
  case 0
  then show ?case by (simp add: store_keeps_def kept_refl)
next
  case (Suc n)
  show ?case
  proof (cases "i \<ge> length ids")
    case True
    then show ?thesis by (simp add: store_keeps_def kept_refl)
  next
    case False
    then have ids: "set (take (Suc n) (drop i ids)) = {ids ! i} \<union> set (take n (drop (Suc i) ids))"
      by (simp add: Cons_nth_drop_Suc [symmetric])
    show ?thesis
    proof (cases "call env (HAck i) (AckDelivery (ids ! i) (td_now env) d)")
      case (Inl e)
      have "list_all2 (kept_unless ({ids ! i} \<union> set (take n (drop (Suc i) ids)))) (deliveries d) (deliveries (ack_loop env ids (Suc i) n d))"
        using Suc.IH [OF Suc.prems, of "Suc i"] by (auto simp: store_keeps_def intro: kept_mono)
      with Suc.IH [OF Suc.prems, of "Suc i"] Inl False ids show ?thesis by (simp add: store_keeps_def)
    next
      case (Inr d1)
      note a = call_Inr [OF Inr]
      have wf: "wf_db d1" by (rule AckDelivery_wf [OF a Suc.prems])
      have "list_all2 (kept_unless ({ids ! i} \<union> set (take n (drop (Suc i) ids)))) (deliveries d) (deliveries (ack_loop env ids (Suc i) n d1))"
        using Suc.IH [OF wf, of "Suc i"] unfolding store_keeps_def by (intro kept_trans [OF ack_kept [OF a Suc.prems]]) blast
      moreover have "store_run d (ack_loop env ids (Suc i) n d1)"
        using store_step.ack_delivery [OF a] Suc.IH [OF wf, of "Suc i"] by (auto simp: store_keeps_def intro: converse_rtranclp_into_rtranclp)
      ultimately show ?thesis using Inr False ids by (simp add: store_keeps_def)
    qed
  qed
qed

lemma stamp_attempt_keeps:
  assumes "store_keeps d {} d1"
  shows "store_keeps d {} (snd (stamp_attempt env ids i d1))"
proof (cases "i < length ids \<and> (\<exists>d2. call env (HStamp i) (MarkDeliveryAttempt (ids ! i) (td_now env) d1) = Inr d2)")
  case True
  then obtain d2 where c: "i < length ids" "call env (HStamp i) (MarkDeliveryAttempt (ids ! i) (td_now env) d1) = Inr d2" by blast
  note m = call_Inr [OF c(2)]
  have "list_all2 (kept_unless {}) (deliveries d) (deliveries d2)"
    using kept_trans [of "{}" _ _ "{}", OF _ del_rel_kept [OF stamp_rel(1) [OF m]]] assms by (simp add: store_keeps_def)
  moreover have "store_run d d2" using assms store_step.mark_attempt [OF m] by (auto simp: store_keeps_def intro: rtranclp.rtrancl_into_rtrancl)
  ultimately show ?thesis using c by (simp add: stamp_attempt_def store_keeps_def)
next
  case False
  then have "snd (stamp_attempt env ids i d1) = d1" by (auto simp: stamp_attempt_def split: sum.splits)
  with assms show ?thesis by simp
qed

lemma store_keeps_trans: "store_keeps d A d1 \<Longrightarrow> store_keeps d1 B d2 \<Longrightarrow> store_keeps d (A \<union> B) d2"
  by (auto simp: store_keeps_def intro: kept_trans rtranclp_trans)

lemma Retract_calls: "Retract (r, a) = (r', a') \<Longrightarrow> \<exists>n. a_calls a' = a_calls a @ n \<and> landed n = []"
  by (auto simp: Retract_def Let_def split: if_splits)

lemma relay_end_calls:
  "retract_relay r a = (r', a') \<Longrightarrow> \<exists>n. a_calls a' = a_calls a @ n \<and> landed n = []"
  "cancel_relay r a = (r', a') \<Longrightarrow> a' = a"
  by (auto simp: retract_relay_def cancel_relay_def Cancel_def dest: Retract_calls split: option.splits prod.splits)

lemma zip_prefix: "length ys \<le> length xs \<Longrightarrow> map fst (zip xs ys) = take (length ys) xs"
  by (simp add: map_fst_zip_take min_def)

lemma finish_direct_ok:
  assumes wf: "wf_db d" and buf: "r_buf r = text \<or> pf_dead (td_final env)"
  shows "\<exists>n k. a_calls (tu_adapter (finish_direct env ids r a d)) = a_calls a @ n \<and> k \<le> length (ChunkMessage text) \<and>
    map fst (landed n) = take k (ChunkMessage text) \<and> store_keeps d (set (take k ids)) (tu_db (finish_direct env ids r a d))"
proof -
  obtain acks ok r1 a1 d1 where f: "FinishJournaled (td_final env) (Some (stamp_attempt env ids)) r a d = ((acks, ok), r1, a1, d1)"
    by (metis prod.collapse)
  then have fin: "finish (td_final env) (Some (stamp_attempt env ids)) r a d = ((acks, ok), r1, a1, d1)" by (simp add: FinishJournaled_def)
  have k1: "store_keeps d {} d1"
    by (rule finish_keeps [where P = "store_keeps d {}", OF stamp_attempt_keeps fin]) (auto simp: store_keeps_def kept_refl)
  have wf1: "wf_db d1" using k1 run_wf wf by (auto simp: store_keeps_def)
  define d2 where "d2 = ack_loop env ids 0 (length acks) d1"
  have k2: "store_keeps d (set (take (length acks) ids)) d2"
    using store_keeps_trans [OF k1 ack_loop_keeps [OF wf1, of "length acks" 0 ids env]] by (simp add: d2_def)
  obtain n where n: "a_calls a1 = a_calls a @ n" "length acks \<le> length (ChunkMessage text)"
    "map fst (landed n) = take (length acks) (ChunkMessage text)"
  proof (cases "pf_dead (td_final env)")
    case True
    with fin have "acks = []" "a1 = a" by (simp_all add: finish_dead)
    then show thesis by (intro that [of "[]"]) simp_all
  next
    case False
    then have "r_buf r = text" using buf by simp
    with finish_delivers [OF fin] obtain n where "a_calls a1 = a_calls a @ n" "length acks \<le> length (ChunkMessage text)"
      "landed n = zip (ChunkMessage text) acks" by auto
    then show thesis by (intro that [of n]) (simp_all add: zip_prefix)
  qed
  obtain r2 a2 where rt: "Retract (r1, a1) = (r2, a2)" by fastforce
  from Retract_calls [OF this] obtain m where m: "a_calls a2 = a_calls a1 @ m" "landed m = []" by blast
  have "tu_db (finish_direct env ids r a d) = d2"
    and ad: "tu_adapter (finish_direct env ids r a d) = a1 \<or> tu_adapter (finish_direct env ids r a d) = a2"
    using f rt by (auto simp: finish_direct_def Let_def plain_result_def d2_def split: if_splits)
  with k2 n m show ?thesis
    by (elim disjE) (rule exI [of _ n], rule exI [of _ "length acks"], simp, rule exI [of _ "n @ m"], rule exI [of _ "length acks"], simp)
qed

text \<open>The rows of a composed reply, and what the rest of the handler leaves of them.\<close>

lemma reply_rows_nth:
  "i < length chunks \<Longrightarrow> map D_DeliveryKey (reply_rows ev chunks) ! i = reply_key ev i \<and>
    map D_Target (reply_rows ev chunks) ! i = Q_ThreadKey ev \<and> map D_Payload (reply_rows ev chunks) ! i = chunks ! i"
  by (simp add: reply_rows_def)

lemma length_reply_rows [simp]: "length (reply_rows ev chunks) = length chunks"
  by (simp add: reply_rows_def)

lemma composed_rows:
  assumes "InsertDeliveries (reply_rows ev chunks) d = Inr ((ids, True), d1)" and wf: "wf_db d" and "chunks \<noteq> []"
    and keep: "store_keeps d1 (set (take k ids)) d2"
  shows "(\<forall>i < length chunks. \<exists>row \<in> set (deliveries d2). de_delivery_key row = reply_key ev i \<and>
        de_target row = Q_ThreadKey ev \<and> de_payload row = chunks ! i \<and> (de_acked row \<noteq> None \<longrightarrow> i < k)) \<and>
    (OwedDeliveriesBefore (Q_ThreadKey ev) (ids ! 0) d1 = 0 \<longrightarrow> \<not> HasOwedDeliveries (Q_ThreadKey ev) d)"
proof -
  from assms(1) have b: "insert_batch (reply_rows ev chunks) d = Inr (Some (ids, d1))"
    by (auto simp: InsertDeliveries_def split: sum.splits option.splits)
  from insert_batch_rows [OF b] obtain new where new: "deliveries d1 = deliveries d @ new" "map de_id new = ids"
    "map de_delivery_key new = map D_DeliveryKey (reply_rows ev chunks)" "map de_payload new = map D_Payload (reply_rows ev chunks)"
    "map de_target new = map D_Target (reply_rows ev chunks)" "\<forall>r \<in> set new. delivery_fresh r" by blast
  have len: "length new = length chunks" using new(3) by (metis length_map length_reply_rows)
  have dist: "distinct ids"
    using wf_deliveries_keyed [OF insert_batch_wf [OF b wf]] new(1,2) by (auto simp: keyed_def sorted_wrt_append strict_sorted_iff)
  have rows: "\<exists>row \<in> set (deliveries d2). de_delivery_key row = reply_key ev i \<and>
        de_target row = Q_ThreadKey ev \<and> de_payload row = chunks ! i \<and> (de_acked row \<noteq> None \<longrightarrow> i < k)" if i: "i < length chunks" for i
  proof -
    let ?j = "length (deliveries d) + i"
    have j: "?j < length (deliveries d1)" "deliveries d1 ! ?j = new ! i" using i len new(1) by (simp_all add: nth_append)
    have rel: "kept_unless (set (take k ids)) (new ! i) (deliveries d2 ! ?j)" and mem: "deliveries d2 ! ?j \<in> set (deliveries d2)"
      using keep j unfolding store_keeps_def by (auto simp: list_all2_conv_all_nth)
    have flds: "de_delivery_key (new ! i) = reply_key ev i" "de_target (new ! i) = Q_ThreadKey ev" "de_payload (new ! i) = chunks ! i"
      "de_id (new ! i) = ids ! i"
      using reply_rows_nth [OF i, of ev] new(2-5) len i by (metis nth_map)+
    have fresh: "de_acked (new ! i) = None" using new(6) len i by (simp add: delivery_fresh_def)
    have "de_acked (deliveries d2 ! ?j) \<noteq> None \<longrightarrow> i < k"
    proof
      assume "de_acked (deliveries d2 ! ?j) \<noteq> None"
      with rel fresh flds(4) have "ids ! i \<in> set (take k ids)" by (auto simp: kept_unless_def)
      then obtain m where "m < k" "m < length ids" "ids ! m = ids ! i" by (auto simp: in_set_conv_nth)
      with dist i len new(2) show "i < k" by (metis length_map nth_eq_iff_index_eq)
    qed
    with rel flds mem show ?thesis by (auto simp: kept_unless_def)
  qed
  have "\<not> HasOwedDeliveries (Q_ThreadKey ev) d" if z: "OwedDeliveriesBefore (Q_ThreadKey ev) (ids ! 0) d1 = 0"
  proof
    assume "HasOwedDeliveries (Q_ThreadKey ev) d"
    then obtain q where q: "q \<in> set (deliveries d)" "de_target q = Q_ThreadKey ev" "owed q"
      by (auto simp: HasOwedDeliveries_def sql_exists_iff)
    have "ids ! 0 \<in> set ids" using assms(3) len new(2) by (metis length_greater_0_conv length_map nth_mem)
    then obtain x where x: "x \<in> set new" "de_id x = ids ! 0" using new(2) by auto
    have "de_id q < de_id x" using wf_deliveries_keyed [OF insert_batch_wf [OF b wf]] q(1) x(1) new(1)
      by (auto simp: keyed_def sorted_wrt_append)
    with z q x(2) new(1) show False by (auto simp: OwedDeliveriesBefore_def rows_affected_0)
  qed
  with rows show ?thesis by blast
qed

lemma ChunkMessage_nonempty: "text \<noteq> [] \<Longrightarrow> ChunkMessage text \<noteq> []"
proof -
  assume "text \<noteq> []"
  then have "runes text \<noteq> []" by (cases "text") (simp_all split: prod.splits)
  with \<open>text \<noteq> []\<close> show ?thesis by (simp add: ChunkMessage_def chunkRunes_def chunk_loop.simps [of "runes text"] Let_def)
qed

lemma complete_keeps:
  assumes "MarkEventCompleted i now d = Inr d'" shows "store_keeps d {} d'"
proof -
  have "deliveries d' = deliveries d" using assms by (rule mc.act_InrE) simp
  then show ?thesis using store_step.mark_completed [OF assms] by (auto simp: store_keeps_def kept_refl)
qed

definition live_ok :: "QueuedEvent \<Rightarrow> string list \<Rightarrow> db \<Rightarrow> db \<Rightarrow> platform_call list \<Rightarrow> bool" where
  "live_ok ev chunks d d' n \<longleftrightarrow>
     (\<exists>k \<le> length chunks. map fst (landed n) = take k chunks \<and>
        (0 < k \<longrightarrow> \<not> HasOwedDeliveries (Q_ThreadKey ev) d \<and>
          (\<forall>i < length chunks. \<exists>row \<in> set (deliveries d'). de_delivery_key row = reply_key ev i \<and>
             de_target row = Q_ThreadKey ev \<and> de_payload row = chunks ! i \<and> (de_acked row \<noteq> None \<longrightarrow> i < k))))"

lemma live_ok_quiet: "landed n = [] \<Longrightarrow> live_ok ev chunks d d' n"
  unfolding live_ok_def by (rule exI [of _ 0]) simp

lemma finishTurn_live:
  assumes wf: "wf_db d" and buf: "\<And>r. relay = Some r \<Longrightarrow> r_buf r = text \<or> pf_dead (td_final env)"
  shows "\<exists>n. a_calls (tu_adapter (finishTurn env ev text relay a d)) = a_calls a @ n \<and>
    live_ok ev (ChunkMessage text) d (tu_db (finishTurn env ev text relay a d)) n"
proof -
  let ?R = "finishTurn env ev text relay a d" and ?chunks = "ChunkMessage text"
  have silent: ?thesis if "tu_adapter ?R = a" using that live_ok_quiet [of "[]"] by simp
  have retracted: ?thesis if "retract_relay relay a = (r', tu_adapter ?R)" for r'
    using relay_end_calls(1) [OF that] live_ok_quiet by blast
  show ?thesis
  proof (cases "text = []")
    case True
    then show ?thesis
      by (intro silent) (auto simp: finishTurn_def plain_result_def dest!: relay_end_calls(2) split: prod.splits sum.splits)
  next
    case False
    show ?thesis
    proof (cases "call env HCompose (InsertDeliveries (reply_rows ev ?chunks) d)")
      case (Inl e)
      with False show ?thesis
        by (intro silent) (auto simp: finishTurn_def rec_landing_def dest!: relay_end_calls(2) split: prod.splits)
    next
      case (Inr p)
      obtain ids composed d1 where p: "p = ((ids, composed), d1)" by (metis prod_cases3 prod.collapse)
      define direct where "direct \<longleftrightarrow> relay \<noteq> None \<and> composed \<and> \<not> td_fails env HOwed \<and> OwedDeliveriesBefore (Q_ThreadKey ev) (ids ! 0) d1 = 0"
      let ?c = "call env HComplete (if composed then MarkEventCompleted (Q_ID ev) (td_now env) d1
                                    else MarkEventCompletedReconciled (Q_ID ev) (td_now env) d1)"
      obtain r' a' where rt: "retract_relay relay a = (r', a')" by fastforce
      have R: "?R = (case ?c of
            Inl _ \<Rightarrow> (plain_result d1 r' a')\<lparr>tu_fenced := map D_DeliveryKey (reply_rows ev ?chunks)\<rparr>
          | Inr d2 \<Rightarrow> if \<not> direct then (plain_result d2 r' a')\<lparr>tu_notify := True\<rparr> else finish_direct env ids (the relay) a d2)"
        using False Inr p rt by (simp add: finishTurn_def Let_def direct_def split: sum.split)
      show ?thesis
      proof (cases "\<exists>d2. ?c = Inr d2 \<and> direct")
        case False
        then have "tu_adapter ?R = a'" unfolding R by (auto simp: plain_result_def split: sum.splits)
        with rt retracted show ?thesis by simp
      next
        case True
        then obtain d2 where d2: "?c = Inr d2" and dir: "direct" by blast
        then obtain r where r: "relay = Some r" and comp: "composed" by (auto simp: direct_def)
        have mc: "MarkEventCompleted (Q_ID ev) (td_now env) d1 = Inr d2" using call_Inr [OF d2] comp by simp
        have ins: "InsertDeliveries (reply_rows ev ?chunks) d = Inr ((ids, True), d1)" using call_Inr [OF Inr] p comp by simp
        have wf1: "wf_db d1" using ins wf by (auto dest!: InsertDeliveries_InrD insert_batch_wf)
        have wf2: "wf_db d2" by (rule mc.act_wf [OF mc wf1])
        have Req: "?R = finish_direct env ids r a d2" unfolding R using d2 dir r by simp
        from finish_direct_ok [OF wf2 buf [OF r], of ids a] obtain n k where n: "a_calls (tu_adapter ?R) = a_calls a @ n"
          "k \<le> length ?chunks" "map fst (landed n) = take k ?chunks" "store_keeps d2 (set (take k ids)) (tu_db ?R)"
          unfolding Req by blast
        have keep: "store_keeps d1 (set (take k ids)) (tu_db ?R)" using store_keeps_trans [OF complete_keeps [OF mc] n(4)] by simp
        note cr = composed_rows [OF ins wf ChunkMessage_nonempty [OF \<open>text \<noteq> []\<close>] keep]
        have "\<not> HasOwedDeliveries (Q_ThreadKey ev) d" using conjunct2 [OF cr] dir by (simp add: direct_def)
        then have "live_ok ev ?chunks d (tu_db ?R) n"
          unfolding live_ok_def using n(2,3) conjunct1 [OF cr] by (intro exI [of _ k] conjI impI)
        with n(1) show ?thesis by blast
      qed
    qed
  qed
qed

section \<open>Lemmas on the landing\<close>

lemma status_ofI: "wf_db d \<Longrightarrow> e \<in> set (events d) \<Longrightarrow> status_of (ev_id e) d = Some (ev_status e)"
  by (simp add: status_of_def event_by_id_eq)

lemma status_ofD: "status_of i d = Some s \<Longrightarrow> \<exists>e \<in> set (events d). ev_id e = i \<and> ev_status e = s"
  by (auto simp: status_of_def dest: event_by_id_SomeD)

lemma run_completed:
  assumes "wf_db d" "store_run d d'" "status_of i d = Some Completed \<or> status_of i d = Some Replied"
  shows "status_of i d' = Some Completed \<or> status_of i d' = Some Replied"
proof -
  obtain e where e: "e \<in> set (events d)" "ev_id e = i" "ev_status e = Completed \<or> ev_status e = Replied"
    using assms(3) status_ofD by metis
  from eh.run_row [OF assms(2,1) e(1)] obtain e' where e': "e' \<in> set (events d')" "event_hist e e'" by blast
  then have "ev_status e' = Completed \<or> ev_status e' = Replied" "ev_id e' = i"
    using e(2,3) completed_edges [of "ev_status e'"] by (auto simp: event_hist_def edges_terminal)
  with status_ofI [OF run_wf [OF assms(2,1)] e'(1)] show ?thesis by auto
qed

lemma park_status:
  assumes "wf_db d" "status_of (Q_ID ev) d = Some Processing" "\<not> rv_park_fails env"
  shows "status_of (Q_ID ev) (rr_db (ParkAmbiguous env ev d)) = Some Interrupted"
proof -
  obtain e where "e \<in> set (events d)" "ev_id e = Q_ID ev" "ev_status e = Processing" using status_ofD [OF assms(2)] by blast
  with park_lands [OF assms(1), of e ev env] assms(3) show ?thesis by (simp add: ParkAmbiguous_def status_of_def)
qed

lemma complete_status:
  assumes "wf_db d" "status_of i d = Some Processing"
  shows "\<exists>d'. MarkEventCompleted i now d = Inr d' \<and> wf_db d' \<and> status_of i d' = Some Completed"
proof -
  obtain d' where d': "MarkEventCompleted i now d = Inr d'" using mc.act_iff status_ofD [OF assms(2)] by blast
  with mc.act_status [OF d' assms(1)] mc.act_wf [OF d' assms(1)] show ?thesis by (auto simp: status_of_def)
qed

lemma reconciled_status:
  assumes "wf_db d" "status_of i d = Some Processing"
  shows "\<exists>d'. MarkEventCompletedReconciled i now d = Inr d' \<and> (status_of i d' = Some Completed \<or> status_of i d' = Some Replied)"
proof -
  obtain e where e: "e \<in> set (events d)" "ev_id e = i" "ev_status e = Processing" using status_ofD [OF assms(2)] by blast
  then have "rows_affected (\<lambda>r. ev_id r = i \<and> ev_status r = Processing) (events d) \<noteq> 0" by (auto simp: rows_affected_0)
  then obtain d' where d': "MarkEventCompletedReconciled i now d = Inr d'"
    by (simp add: MarkEventCompletedReconciled_def exec_defs Let_def del: rows_affected_0)
  then obtain s where s: "s = Completed \<or> s = Replied" "d' = d\<lparr>events := sql_update (\<lambda>r. ev_id r = i \<and> ev_status r = Processing)
        (\<lambda>r. r\<lparr>ev_status := s, ev_updated := Some now\<rparr>) (events d)\<rparr>" by (rule Reconciled_InrE) blast
  have "event_by_id i d' = Some (e\<lparr>ev_status := s, ev_updated := Some now\<rparr>)"
    unfolding s(2) by (rule event_by_id_update [OF assms(1) e(1,2)]) (use e in auto)
  with d' s(1) show ?thesis by (auto simp: status_of_def)
qed

lemma finishTurn_status:
  assumes wf: "wf_db d" and st: "status_of (Q_ID ev) d = Some Processing" and ok: "\<And>c. \<not> td_fails env c" "\<not> rv_park_fails (td_rec env)"
  shows "status_of (Q_ID ev) (tu_db (finishTurn env ev text relay a d)) \<in> {Some Completed, Some Replied, Some Interrupted}"
proof -
  let ?R = "finishTurn env ev text relay a d" and ?rows = "reply_rows ev (ChunkMessage text)"
  show ?thesis
  proof (cases "text = []")
    case True
    with complete_status [OF wf st, of "td_now env"] ok show ?thesis
      by (auto simp: finishTurn_def plain_result_def split: prod.splits)
  next
    case False
    show ?thesis
    proof (cases "InsertDeliveries ?rows d")
      case (Inl e)
      with False ok park_status [OF wf st ok(2)] show ?thesis by (simp add: finishTurn_def Let_def rec_landing_def split: prod.splits)
    next
      case (Inr p)
      obtain ids composed d1 where p: "p = ((ids, composed), d1)" by (metis prod_cases3 prod.collapse)
      have wf1: "wf_db d1" and ev1: "events d1 = events d"
        using InsertDeliveries_InrD [of ?rows d "(ids, composed)" d1] Inr p wf insert_batch_wf insert_batch_rows by (simp, blast)+
      have st1: "status_of (Q_ID ev) d1 = Some Processing" using st ev1 by (simp add: status_of_def event_by_id_def)
      let ?c = "if composed then MarkEventCompleted (Q_ID ev) (td_now env) d1 else MarkEventCompletedReconciled (Q_ID ev) (td_now env) d1"
      obtain d2 where d2: "?c = Inr d2" "status_of (Q_ID ev) d2 = Some Completed \<or> status_of (Q_ID ev) d2 = Some Replied"
        using complete_status [OF wf1 st1, of "td_now env"] reconciled_status [OF wf1 st1, of "td_now env"] by (cases composed) auto
      have wf2: "wf_db d2" using d2(1) mc.act_wf Reconciled_wf wf1 by (cases composed) auto
      have fd: "store_run d2 (tu_db (finish_direct env ids r a d2))" for r
      proof -
        have "r_buf r = r_buf r \<or> pf_dead (td_final env)" by simp
        from finish_direct_ok [OF wf2 this] show ?thesis by (auto simp: store_keeps_def)
      qed
      have "tu_db ?R = d2 \<or> (\<exists>r. tu_db ?R = tu_db (finish_direct env ids r a d2))"
        using False Inr p d2(1) ok(1) by (auto simp: finishTurn_def Let_def plain_result_def split: prod.splits)
      then show ?thesis
      proof
        assume "\<exists>r. tu_db ?R = tu_db (finish_direct env ids r a d2)"
        then obtain r where r: "tu_db ?R = tu_db (finish_direct env ids r a d2)" by blast
        from run_completed [OF wf2 fd d2(2), of r] show ?thesis unfolding r by blast
      qed (use d2(2) in auto)
    qed
  qed
qed

lemma deadLetterMalformed_status:
  assumes "wf_db d" "status_of (Q_ID ev) d = Some Processing" "\<not> td_fails env HDead"
  shows "status_of (Q_ID ev) (tu_db (deadLetterMalformed env ev a d)) = Some Dead"
proof -
  obtain e where e: "e \<in> set (events d)" "ev_id e = Q_ID ev" "ev_status e = Processing" using status_ofD [OF assms(2)] by blast
  let ?P = "\<lambda>r. ev_id r = Q_ID ev \<and> ev_status r \<in> {Processing, Interrupted}"
  have "rows_affected ?P (events d) \<noteq> 0" using e by (auto simp: rows_affected_0)
  then obtain d1 where d1: "DeadLetterEvent (Q_ID ev) ''malformed'' (td_now env) d = Inr d1"
    by (simp add: DeadLetterEvent_def dead_reasons_def exec_defs del: rows_affected_0)
  then have ev1: "events d1 = sql_update ?P (\<lambda>r. r\<lparr>ev_status := Dead, ev_updated := Some (td_now env)\<rparr>) (events d)"
    by (rule DeadLetter_InrE) simp
  have "event_by_id (Q_ID ev) (d\<lparr>events := sql_update ?P (\<lambda>r. r\<lparr>ev_status := Dead, ev_updated := Some (td_now env)\<rparr>) (events d)\<rparr>) =
      Some (e\<lparr>ev_status := Dead, ev_updated := Some (td_now env)\<rparr>)"
    by (rule event_by_id_update [OF assms(1) e(1,2)]) (use e in auto)
  then have st: "status_of (Q_ID ev) d1 = Some Dead" by (simp add: status_of_def event_by_id_def ev1)
  moreover have "status_of (Q_ID ev) d2 = status_of (Q_ID ev) d1" if "SurfaceDeadLetterCoordinated (td_surface env) ev d1 = Inr d2" for d2
    using surface_events(2) [OF that] by (simp add: status_of_def event_by_id_def)
  ultimately show ?thesis using d1 assms(3) by (auto simp: deadLetterMalformed_def plain_result_def split: sum.splits)
qed

text \<open>The engine, and whatever runs beside the handler, leaves a well-formed store with the event
  still in process: only the handler moves it on.\<close>

definition keeps_processing :: "int \<Rightarrow> (db \<Rightarrow> db) \<Rightarrow> bool" where
  "keeps_processing i g \<longleftrightarrow> (\<forall>d. wf_db d \<and> status_of i d = Some Processing \<longrightarrow> wf_db (g d) \<and> status_of i (g d) = Some Processing)"

lemma failure_status:
  assumes "wf_db d" "status_of (Q_ID ev) d = Some Processing" "keeps_processing (Q_ID ev) (rv_gap env)"
    "\<not> rv_journal_fails env" "\<not> rv_requeue_fails env" "\<not> rv_park_fails env"
  shows "status_of (Q_ID ev) (rr_db (HandleEngineFailure env ev d)) \<in> {Some Received, Some Interrupted, Some Dead}"
proof -
  have g: "wf_db (rv_gap env d)" "status_of (Q_ID ev) (rv_gap env d) = Some Processing"
    using assms(1-3) unfolding keeps_processing_def by blast+
  obtain e where e: "e \<in> set (events (rv_gap env d))" "ev_id e = Q_ID ev" "ev_status e = Processing" using status_ofD [OF g(2)] by blast
  from HandleEngineFailure_lands [OF g(1) e assms(4-6)] show ?thesis
    by (auto simp: status_of_def split: option.splits Outcome.splits)
qed

section \<open>Properties\<close>

text \<open>
  Only the owner reaches the engine.  An event stamped with any other trust is consumed without an
  engine turn, without a platform call, a retry timer, a notice or any other write: it is skipped, or,
  when that write fails, left exactly as it was.
\<close>

lemma sub_owner_never_runs:
  assumes "Q_Trust ev \<noteq> ''owner''"
  shows "tu_requests (productionTurn env ev a d) = [] \<and> tu_adapter (productionTurn env ev a d) = a \<and>
    tu_timer (productionTurn env ev a d) = None \<and> \<not> tu_notify (productionTurn env ev a d) \<and>
    (tu_db (productionTurn env ev a d) = d \<or> SkipEvent (Q_ID ev) (td_now env) d = Inr (tu_db (productionTurn env ev a d)))"
  using assms by (auto simp: productionTurn_def plain_result_def call_def split: sum.splits if_splits)

definition ex_deps :: turn_deps where
  "ex_deps = \<lparr>td_fails = (\<lambda>_. False), td_relay = True, td_gate_fails = False, td_mint = True,
     td_unmarshal = (\<lambda>p. if p = ''{}'' then Some ''hello'' else None), td_runner = (\<lambda>req d. (None, [''hi''], d)), td_cancelled = False,
     td_stream = (\<lambda>_. ex_platform), td_final = ex_platform, td_surface = (\<lambda>_. False), td_rec = ex_rec_env, td_cwd = ''/w'', td_now = 50\<rparr>"

lemma sub_owner_never_runs_example:
  "tu_requests (productionTurn ex_deps (ex_queued\<lparr>Q_Trust := ''known''\<rparr>) ex_adapter ex_turn_db) = []"
  using sub_owner_never_runs [of "ex_queued\<lparr>Q_Trust := ''known''\<rparr>" ex_deps ex_adapter ex_turn_db] by simp

text \<open>
  Every exit of the handler is a durable state of the event.  When the store's writes succeed, the
  context lives and nothing else moves the event, an event in process leaves the handler skipped (not
  from the owner), dead (undecodable payload), completed or replied, or interrupted when its reply
  could not be composed (a turn that ran), and received, interrupted or dead (a turn that failed): never
  still in process.
\<close>

lemma every_exit_durable:
  assumes "wf_db d" and "status_of (Q_ID ev) d = Some Processing"
    and "\<forall>c. \<not> td_fails env c" and "\<not> td_cancelled env"
    and "\<forall>req. keeps_processing (Q_ID ev) (\<lambda>d. snd (snd (td_runner env req d)))"
    and "keeps_processing (Q_ID ev) (rv_gap (td_rec env))"
    and "\<not> rv_journal_fails (td_rec env)" and "\<not> rv_requeue_fails (td_rec env)" and "\<not> rv_park_fails (td_rec env)"
  shows "status_of (Q_ID ev) (tu_db (productionTurn env ev a d)) \<in>
    (if Q_Trust ev \<noteq> ''owner'' then {Some Skipped}
     else case td_unmarshal env (Q_Payload ev) of
       None \<Rightarrow> {Some Dead}
     | Some p \<Rightarrow>
         if fst (td_runner env (turn_request env ev p) d) = None then {Some Completed, Some Replied, Some Interrupted}
         else {Some Received, Some Interrupted, Some Dead})"
proof (cases "Q_Trust ev = ''owner''")
  case False
  obtain d' where d': "SkipEvent (Q_ID ev) (td_now env) d = Inr d'" using sk.act_iff status_ofD [OF assms(2)] by blast
  with sk.act_status [OF d' assms(1)] False assms(3) show ?thesis by (auto simp: productionTurn_def plain_result_def status_of_def)
next
  case owner: True
  show ?thesis
  proof (cases "td_unmarshal env (Q_Payload ev)")
    case None
    with owner deadLetterMalformed_status [OF assms(1,2)] assms(3) show ?thesis by (simp add: productionTurn_def)
  next
    case (Some p)
    obtain err deltas d1 where run: "td_runner env (turn_request env ev p) d = (err, deltas, d1)" by (metis prod_cases3)
    have d1: "wf_db d1" "status_of (Q_ID ev) d1 = Some Processing"
      using assms(1,2) assms(5) [rule_format, of "turn_request env ev p"] run by (auto simp: keeps_processing_def)
    obtain reply pushes where s: "sink [] deltas = (reply, pushes)" by fastforce
    obtain relay a1 where r: "stream_relay env pushes (mint_relay env ev d) a = (relay, a1)" by fastforce
    obtain r' a' where cr: "cancel_relay relay a1 = (r', a')" by fastforce
    show ?thesis
    proof (cases err)
      case None
      with finishTurn_status [OF d1, of env reply relay a1] assms(3,9) owner Some run s r show ?thesis
        by (simp add: productionTurn_def turn_failed_def Let_def)
    next
      case e: (Some x)
      with park_status [OF d1 assms(9)] failure_status [OF d1 assms(6-9)] owner Some run s r cr assms(4) show ?thesis
        by (auto simp: productionTurn_def turn_failed_def Let_def rec_landing_def)
    qed
  qed
qed

lemma ex_status: "status_of (Q_ID ex_queued) ex_turn_db = Some Processing"
  by (simp add: status_of_def event_by_id_def ex_queued_def scanQueuedEvent_def ex_defs empty_db_def)

lemma ex_owner: "Q_Trust ex_queued = ''owner''" "Q_Payload ex_queued = ''{}''"
  by (simp_all add: ex_queued_def scanQueuedEvent_def ex_event_def)

lemma every_exit_durable_example:
  "status_of (Q_ID ex_queued) (tu_db (productionTurn ex_deps ex_queued ex_adapter ex_turn_db)) \<in> {Some Completed, Some Replied, Some Interrupted}"
  using every_exit_durable [OF wf_ex_turn_db ex_status, of ex_deps ex_adapter] ex_owner
  by (simp add: ex_deps_def keeps_processing_def ex_rec_env_def)

text \<open>
  C12: the live send and the outbox agree.  When a turn of the owner succeeds, what the relay finally puts
  on the platform is a prefix of the reply's pieces; if anything lands, the thread was owed nothing
  older, every piece has its own row in the outbox under its key, target and text, and only rows whose
  piece landed are acked.  (A push dropped by a dead context means a dead context at the end.)
\<close>

theorem live_reply_matches_outbox:
  assumes "Q_Trust ev = ''owner''" and "td_unmarshal env (Q_Payload ev) = Some p"
    and "td_runner env (turn_request env ev p) d = (None, deltas, d1)" and "wf_db d1"
    and "sink [] deltas = (reply, pushes)" and "stream_relay env pushes (mint_relay env ev d) a = (relay, a1)"
    and "(\<exists>j. pf_dead (td_stream env j)) \<longrightarrow> pf_dead (td_final env)"
  shows "\<exists>n. a_calls (tu_adapter (productionTurn env ev a d)) = a_calls a1 @ n \<and>
    live_ok ev (ChunkMessage reply) d1 (tu_db (productionTurn env ev a d)) n"
proof -
  have buf: "r_buf r = reply \<or> pf_dead (td_final env)" if rel: "relay = Some r" for r
  proof -
    obtain x where x: "mint_relay env ev d = Some x" "push_all (td_stream env) 0 pushes (x, a) = (r, a1)"
      using assms(6) rel by (auto simp: stream_relay_def split: option.splits prod.splits)
    then have "r_buf x = [] \<and> \<not> r_done x" by (auto simp: mint_relay_def NewRelay_def split: if_splits)
    with push_all_buf [OF x(2)] assms(7) sink_pushes [OF assms(5)] show ?thesis by auto
  qed
  have "productionTurn env ev a d = (finishTurn env ev reply relay a1 d1)\<lparr>tu_requests := [turn_request env ev p]\<rparr>"
    using assms(1-3,5,6) by (simp add: productionTurn_def turn_failed_def Let_def)
  with finishTurn_live [OF assms(4), of relay reply env ev a1] buf show ?thesis by simp
qed

theorem live_reply_matches_outbox_witness:
  "\<exists>n. live_ok ex_queued (ChunkMessage ''hi'') ex_turn_db (tu_db (productionTurn ex_deps ex_queued ex_adapter ex_turn_db)) n"
proof -
  obtain relay a1 where r: "stream_relay ex_deps [''hi''] (mint_relay ex_deps ex_queued ex_turn_db) ex_adapter = (relay, a1)" by fastforce
  have "td_unmarshal ex_deps (Q_Payload ex_queued) = Some ''hello''"
    "td_runner ex_deps (turn_request ex_deps ex_queued ''hello'') ex_turn_db = (None, [''hi''], ex_turn_db)"
    "sink [] [''hi''] = (''hi'', [''hi''])" "(\<exists>j. pf_dead (td_stream ex_deps j)) \<longrightarrow> pf_dead (td_final ex_deps)"
    using ex_owner by (simp_all add: ex_deps_def ex_platform_def)
  from live_reply_matches_outbox [OF ex_owner(1) this(1,2) wf_ex_turn_db this(3) r this(4)] show ?thesis by blast
qed

end
