(* ===== verification/Configuration.thy ===== *)
theory Configuration
  imports Store_Identities
begin

text \<open>
  The configuration: \<open>src/internal/config/config.go\<close>, and its one consumer that writes to the
  store, \<open>seedIdentities\<close> of \<open>src/internal/cli/daemon.go\<close>.  The TOML decoder is a parameter: a
  function from the value with the defaults filled in to the decoded value and the decoder's metadata
  (keys it did not know, paths that were present), or nothing when the text does not decode.  A Go map is
  the list of its entries; the errors of a validation are a list, empty when the value is accepted.
\<close>

section \<open>Data\<close>

record Models =
  M_Heartbeat :: string
  M_Message :: string
  M_Heavy :: string
  M_Critique :: string

record Channel =
  Ch_Auth :: string
  Ch_TokenFile :: string

record config_Identity =
  CI_Channel :: string
  CI_NativeID :: string
  CI_Trust :: string
  CI_OwnerID :: string
  CI_Label :: string

text \<open>Durations are nanoseconds.\<close>

record Sessions =
  Se_IdleTTL :: int
  Se_TurnCap :: int

record Engine =
  En_Bin :: string
  En_Version :: string
  En_MaxTurns :: int
  En_TurnTimeout :: int
  En_Hooks :: "string list"
  En_DailySpendAlarmUSD :: float64

record PolicyRow =
  Row_Owner :: string
  Row_Known :: string
  Row_Untrusted :: string

record Config =
  C_Models :: Models
  C_Channels :: "(string \<times> Channel) list"
  C_Identities :: "config_Identity list"
  C_Sessions :: Sessions
  C_Engine :: "Engine option"
  C_Matrix :: "(string \<times> PolicyRow) list"

record metadata =
  md_undecoded :: "string list"
  md_defined :: "string list \<Rightarrow> bool"

section \<open>The policy matrix\<close>

definition Action :: "PolicyRow \<Rightarrow> string \<Rightarrow> string" where
  "Action r column =
     (let a = (if column = ''owner'' then Row_Owner r else if column = ''known'' then Row_Known r
               else if column = ''untrusted'' then Row_Untrusted r else [])
      in if a = [] then ''deny'' else a)"

definition policy_row :: "string \<Rightarrow> string \<Rightarrow> string \<Rightarrow> PolicyRow" where
  "policy_row a b c = \<lparr>Row_Owner = a, Row_Known = b, Row_Untrusted = c\<rparr>"

definition defaultMatrix :: "(string \<times> PolicyRow) list" where
  "defaultMatrix =
     [(''read'', policy_row ''allow'' ''allow'' ''sandbox''),
      (''schedule'', policy_row ''allow'' ''gate'' ''deny''),
      (''web_fetch'', policy_row ''allow'' ''allow'' ''sandbox''),
      (''bash'', policy_row ''allow'' ''allow'' ''deny''),
      (''edit'', policy_row ''allow'' ''ask'' ''deny''),
      (''host_exec'', policy_row ''ask'' ''deny'' ''deny''),
      (''git_push'', policy_row ''ask'' ''deny'' ''deny''),
      (''send_same_thread'', policy_row ''allow'' ''allow'' ''deny''),
      (''send_other_surface'', policy_row ''ask'' ''deny'' ''deny''),
      (''memory_write'', policy_row ''allow'' ''gate'' ''gate''),
      (''codex'', policy_row ''allow'' ''ask'' ''deny''),
      (''task_graph_write'', policy_row ''allow'' ''gate'' ''deny'')]"

text \<open>Assignment to a key of a map.\<close>

fun map_put :: "string \<Rightarrow> 'v \<Rightarrow> (string \<times> 'v) list \<Rightarrow> (string \<times> 'v) list" where
  "map_put k v [] = [(k, v)]"
| "map_put k v ((k', v') # m) = (if k' = k then (k, v) # m else (k', v') # map_put k v m)"

definition mergeMatrix :: "(string \<times> PolicyRow) list \<Rightarrow> (string \<times> PolicyRow) list" where
  "mergeMatrix overrides = fold (\<lambda>(capability, row) m. map_put capability row m) overrides defaultMatrix"

section \<open>Channels\<close>

definition MaxTrust :: "Channel \<Rightarrow> string" where
  "MaxTrust ch = (if Ch_Auth ch = ''weak'' then ''known'' else ''owner'')"

definition MayApprove :: "Channel \<Rightarrow> bool" where
  "MayApprove ch \<longleftrightarrow> Ch_Auth ch = ''strong''"

definition ReadOnly :: "Channel \<Rightarrow> bool" where
  "ReadOnly ch \<longleftrightarrow> Ch_Auth ch = ''weak''"

section \<open>Validation\<close>

datatype config_error =
    Undecodable | UnknownKeys "string list" | EmptyAction string string | EmptyTokenFile string
  | MissingModel string | BadAuth string | NoGateway string | WeakToken string
  | ShortIdleTTL | BadTurnCap | EngineField string | BadHook nat | UnknownCapability string | BadAction string string
  | IdentityField nat string

definition validateModels :: "Config \<Rightarrow> config_error list" where
  "validateModels c =
     (if M_Message (C_Models c) = [] then [MissingModel ''message''] else []) @
     (if M_Heartbeat (C_Models c) = [] then [MissingModel ''heartbeat''] else [])"

definition gatewayChannels :: "string list" where "gatewayChannels = [''discord'']"

definition validateChannel :: "string \<times> Channel \<Rightarrow> config_error list" where
  "validateChannel e =
     (case e of (name, ch) \<Rightarrow>
        (if Ch_Auth ch \<noteq> ''strong'' \<and> Ch_Auth ch \<noteq> ''weak'' then [BadAuth name] else []) @
        (if Ch_TokenFile ch \<noteq> [] \<and> name \<notin> set gatewayChannels then [NoGateway name] else []) @
        (if Ch_Auth ch = ''weak'' \<and> Ch_TokenFile ch \<noteq> [] then [WeakToken name] else []))"

definition validateChannels :: "Config \<Rightarrow> config_error list" where
  "validateChannels c = concat (map validateChannel (C_Channels c))"

definition time_Second :: int where "time_Second = 1000000000"

definition validateSessions :: "Config \<Rightarrow> config_error list" where
  "validateSessions c =
     (if Se_IdleTTL (C_Sessions c) < time_Second then [ShortIdleTTL] else []) @
     (if Se_TurnCap (C_Sessions c) < 1 then [BadTurnCap] else [])"

definition negative_alarm :: "float64 \<Rightarrow> bool" where
  "negative_alarm x = (case x of NaN \<Rightarrow> True | Inf _ \<Rightarrow> True | Fin q \<Rightarrow> q < 0)"

fun validate_hooks :: "nat \<Rightarrow> string list \<Rightarrow> string list \<Rightarrow> config_error list" where
  "validate_hooks i seen [] = []"
| "validate_hooks i seen (h # hs) =
     (if h = [] then BadHook i # validate_hooks (Suc i) seen hs
      else (if h \<in> set seen then [BadHook i] else []) @ validate_hooks (Suc i) (h # seen) hs)"

definition validateEngine :: "Config \<Rightarrow> config_error list" where
  "validateEngine c =
     (case C_Engine c of
        None \<Rightarrow> []
      | Some e \<Rightarrow>
          (if En_Bin e = [] then [EngineField ''bin''] else if \<not> has_prefix ''/'' (En_Bin e) then [EngineField ''bin''] else []) @
          (if En_Version e = [] then [EngineField ''version''] else []) @
          (if En_MaxTurns e < 1 then [EngineField ''max_turns''] else []) @
          (if En_TurnTimeout e < time_Second then [EngineField ''turn_timeout''] else []) @
          (if negative_alarm (En_DailySpendAlarmUSD e) then [EngineField ''daily_spend_alarm_usd''] else []) @
          (if En_Hooks e = [] then [EngineField ''hooks''] else []) @
          validate_hooks 0 [] (En_Hooks e))"

definition actions :: "string list" where "actions = [''allow'', ''ask'', ''gate'', ''deny'', ''sandbox'']"

definition columns :: "string list" where "columns = [''owner'', ''known'', ''untrusted'']"

definition validatePolicy :: "Config \<Rightarrow> config_error list" where
  "validatePolicy c =
     concat (map (\<lambda>(capability, row).
       (if map_of defaultMatrix capability = None then [UnknownCapability capability] else []) @
       concat (map (\<lambda>column. if Action row column \<in> set actions then [] else [BadAction capability column]) columns)) (C_Matrix c))"

fun validate_ids :: "(string \<times> Channel) list \<Rightarrow> nat \<Rightarrow> (string \<times> string) list \<Rightarrow> config_Identity list \<Rightarrow> config_error list" where
  "validate_ids chs i seen [] = []"
| "validate_ids chs i seen (x # xs) =
     (if CI_NativeID x = [] then [IdentityField i ''native_id''] else []) @
     (if CI_Trust x \<noteq> ''owner'' \<and> CI_Trust x \<noteq> ''known'' then [IdentityField i ''trust''] else []) @
     (if CI_Trust x = ''owner'' \<and> CI_OwnerID x = [] then [IdentityField i ''owner_id''] else []) @
     (if CI_Trust x \<noteq> ''owner'' \<and> CI_OwnerID x \<noteq> [] then [IdentityField i ''owner_id''] else []) @
     (case map_of chs (CI_Channel x) of
        None \<Rightarrow> [IdentityField i ''channel'']
      | Some ch \<Rightarrow> if CI_Trust x = ''owner'' \<and> Ch_Auth ch = ''weak'' then [IdentityField i ''trust''] else []) @
     (if (CI_Channel x, CI_NativeID x) \<in> set seen then [IdentityField i ''duplicate''] else []) @
     validate_ids chs (Suc i) ((CI_Channel x, CI_NativeID x) # seen) xs"

definition validateIdentities :: "Config \<Rightarrow> config_error list" where
  "validateIdentities c = validate_ids (C_Channels c) 0 [] (C_Identities c)"

definition config_validate :: "Config \<Rightarrow> config_error list" where
  "config_validate c =
     validateModels c @ validateChannels c @ validateSessions c @ validateEngine c @ validatePolicy c @ validateIdentities c"

section \<open>Parsing\<close>

definition initial_config :: Config where
  "initial_config =
     \<lparr>C_Models = \<lparr>M_Heartbeat = [], M_Message = [], M_Heavy = [], M_Critique = []\<rparr>, C_Channels = [], C_Identities = [],
      C_Sessions = \<lparr>Se_IdleTTL = 4 * 3600 * time_Second, Se_TurnCap = 50\<rparr>, C_Engine = None, C_Matrix = []\<rparr>"

definition engine_defaults :: "metadata \<Rightarrow> Config \<Rightarrow> Config" where
  "engine_defaults md c =
     (case C_Engine c of
        None \<Rightarrow> c
      | Some e \<Rightarrow>
          let e1 = (if md_defined md [''engine'', ''max_turns''] then e else e\<lparr>En_MaxTurns := 25\<rparr>);
              e2 = (if md_defined md [''engine'', ''turn_timeout''] then e1 else e1\<lparr>En_TurnTimeout := 10 * 60 * time_Second\<rparr>)
          in c\<lparr>C_Engine := Some e2\<rparr>)"

definition empty_actions :: "metadata \<Rightarrow> Config \<Rightarrow> config_error list" where
  "empty_actions md c =
     concat (map (\<lambda>(capability, row).
       concat (map (\<lambda>(column, raw).
         if raw = [] \<and> md_defined md [''policy'', ''matrix'', capability, column] then [EmptyAction capability column] else [])
         [(''owner'', Row_Owner row), (''known'', Row_Known row), (''untrusted'', Row_Untrusted row)])) (C_Matrix c))"

definition empty_tokens :: "metadata \<Rightarrow> Config \<Rightarrow> config_error list" where
  "empty_tokens md c =
     concat (map (\<lambda>(name, ch). if Ch_TokenFile ch = [] \<and> md_defined md [''channels'', name, ''token_file'']
       then [EmptyTokenFile name] else []) (C_Channels c))"

definition Parse :: "(Config \<Rightarrow> (Config \<times> metadata) option) \<Rightarrow> config_error list + Config" where
  "Parse decode =
     (case decode initial_config of
        None \<Rightarrow> Inl [Undecodable]
      | Some (c0, md) \<Rightarrow>
          let c = engine_defaults md c0;
              errs = (if md_undecoded md \<noteq> [] then [UnknownKeys (md_undecoded md)] else []) @
                     empty_actions md c @ empty_tokens md c @ config_validate c
          in if errs \<noteq> [] then Inl errs else Inr (c\<lparr>C_Matrix := mergeMatrix (C_Matrix c)\<rparr>))"

section \<open>Seeding\<close>

definition seed_identity :: "config_Identity \<Rightarrow> Identity" where
  "seed_identity x =
     \<lparr>I_Channel = CI_Channel x, I_NativeID = CI_NativeID x, I_Trust = CI_Trust x, I_OwnerID = CI_OwnerID x, I_Label = CI_Label x\<rparr>"

definition seedIdentities :: "Config option \<Rightarrow> db \<Rightarrow> db res" where
  "seedIdentities cfg d =
     SeedIdentities (case cfg of None \<Rightarrow> [] | Some c \<Rightarrow> map seed_identity (C_Identities c)) d"

section \<open>Lemmas\<close>

lemma map_of_put: "map_of (map_put k v m) = (map_of m)(k \<mapsto> v)"
  by (induction m) auto

lemma map_of_merge: "map_of (mergeMatrix ovr) = map_of defaultMatrix ++ map_of (rev ovr)"
proof -
  have "map_of (fold (\<lambda>(k, v) m. map_put k v m) ovr m0) = map_of m0 ++ map_of (rev ovr)" for m0 :: "(string \<times> PolicyRow) list"
    by (induction ovr arbitrary: m0) (auto simp: map_of_put map_add_def fun_eq_iff split: option.splits)
  then show ?thesis by (simp add: mergeMatrix_def)
qed

lemma Parse_InrE:
  assumes "Parse decode = Inr c"
  obtains c0 md where "decode initial_config = Some (c0, md)" "config_validate (engine_defaults md c0) = []"
    "empty_actions md (engine_defaults md c0) = []" "md_undecoded md = []"
    "c = (engine_defaults md c0)\<lparr>C_Matrix := mergeMatrix (C_Matrix (engine_defaults md c0))\<rparr>"
  using assms by (auto simp: Parse_def Let_def split: option.splits if_splits)

lemma validate_ids_ok:
  "validate_ids chs i seen xs = [] \<Longrightarrow>
   (\<forall>x \<in> set xs. identity_check (identity_row_of (seed_identity x)) \<and> CI_NativeID x \<noteq> [] \<and>
      (\<exists>ch. map_of chs (CI_Channel x) = Some ch \<and> (CI_Trust x = ''owner'' \<longrightarrow> Ch_Auth ch \<noteq> ''weak''))) \<and>
   distinct (map (\<lambda>x. (CI_Channel x, CI_NativeID x)) xs) \<and>
   set (map (\<lambda>x. (CI_Channel x, CI_NativeID x)) xs) \<inter> set seen = {}"
proof (induction xs arbitrary: i seen)
  case (Cons x xs)
  from Cons.prems have ok: "CI_NativeID x \<noteq> []" "CI_Trust x = ''owner'' \<or> CI_Trust x = ''known''"
    "CI_Trust x = ''owner'' \<longleftrightarrow> CI_OwnerID x \<noteq> []" "(CI_Channel x, CI_NativeID x) \<notin> set seen"
    "validate_ids chs (Suc i) ((CI_Channel x, CI_NativeID x) # seen) xs = []"
    "\<exists>ch. map_of chs (CI_Channel x) = Some ch \<and> (CI_Trust x = ''owner'' \<longrightarrow> Ch_Auth ch \<noteq> ''weak'')"
    by (auto split: if_splits option.splits)
  have chk: "identity_check (identity_row_of (seed_identity x))"
    using ok(2,3) by (auto simp: identity_check_def identity_row_of_def seed_identity_def nullif_empty_def)
  from Cons.IH [OF ok(5)] ok chk show ?case by auto
qed simp

lemma engine_defaults_keeps [simp]:
  "C_Channels (engine_defaults md c) = C_Channels c" "C_Identities (engine_defaults md c) = C_Identities c"
  "C_Matrix (engine_defaults md c) = C_Matrix c" "C_Sessions (engine_defaults md c) = C_Sessions c"
  by (simp_all add: engine_defaults_def Let_def split: option.split)

lemma validate_parts:
  assumes "config_validate c = []"
  shows "validateChannels c = []" "validatePolicy c = []" "validateIdentities c = []"
  using assms by (simp_all add: config_validate_def)

lemma validated_auth:
  assumes "validateChannels c = []" and "map_of (C_Channels c) name = Some ch"
  shows "Ch_Auth ch = ''strong'' \<or> Ch_Auth ch = ''weak''"
proof -
  from assms(2) have "(name, ch) \<in> set (C_Channels c)" by (rule map_of_SomeD)
  with assms(1) have "validateChannel (name, ch) = []" by (auto simp: validateChannels_def)
  then show ?thesis by (simp add: validateChannel_def split: if_splits)
qed

lemma other_column: "column \<notin> set columns \<Longrightarrow> Action row column = ''deny''"
  by (simp add: Action_def columns_def)

lemma validated_action:
  assumes "validatePolicy c = []" and "(capability, row) \<in> set (C_Matrix c)"
  shows "map_of defaultMatrix capability \<noteq> None" "Action row column \<in> set actions"
proof -
  from assms have "map_of defaultMatrix capability \<noteq> None" "\<forall>column \<in> set columns. Action row column \<in> set actions"
    by (fastforce simp: validatePolicy_def split: if_splits)+
  then show "map_of defaultMatrix capability \<noteq> None" "Action row column \<in> set actions"
    by (auto simp: other_column actions_def)
qed

lemma default_action:
  assumes "map_of defaultMatrix capability = Some row"
  shows "Action row column \<in> set actions"
proof (cases "column \<in> set columns")
  case True
  have "\<forall>e \<in> set defaultMatrix. \<forall>column \<in> set columns. Action (snd e) column \<in> set actions" by code_simp
  with map_of_SomeD [OF assms] True show ?thesis by fastforce
qed (simp add: other_column actions_def)

lemma stamp_at_enrolment:
  assumes "Ch_Auth ch = ''strong'' \<or> Ch_Auth ch = ''weak''" and "l = ''owner'' \<or> l = ''known''"
    and "l = ''owner'' \<longrightarrow> Ch_Auth ch \<noteq> ''weak''"
  shows "Stamp (Ch_Auth ch) l = \<lparr>st_Trust = l, st_ReadOnly = ReadOnly ch, st_MayApprove = MayApprove ch\<rparr>"
    "rank l \<le> rank (MaxTrust ch)"
  using assms by (auto simp: Stamp_def ReadOnly_def MayApprove_def MaxTrust_def Min_level_def Trust.normalize_def rank_def level_defs)

lemma resolve_enrolled:
  assumes "r \<in> set rows" and "distinct (map identity_key rows)" and "identity_check r"
  shows "ResolveTrust False (id_channel r) (id_native_id r) (d\<lparr>identities := rows\<rparr>) = (id_trust r, None)"
proof -
  have "find (\<lambda>q. id_channel q = id_channel r \<and> id_native_id q = id_native_id r) rows = Some r"
    using assms(1,2) by (induction rows) (auto simp: identity_key_def)
  then show ?thesis using assms(3)
    by (auto simp: ResolveTrust_def identity_at_def identity_check_def Parse_level_def rank_def level_defs)
qed

section \<open>Properties\<close>

text \<open>
  An accepted configuration can always be seeded, and means what it says.  When the file parses,
  syncing the identities succeeds from any store and leaves exactly the configured rows; every enrolled
  sender then resolves, with the authentication grade of its configured channel, to exactly the enrolled
  trust, with the write and approval bits of that channel and within its ceiling; every other sender
  resolves to untrusted.
\<close>

lemma parsed_config_seeds:
  assumes "Parse decode = Inr c"
  shows "\<exists>d'. seedIdentities (Some c) d = Inr d' \<and>
    d' = d\<lparr>identities := map (identity_row_of \<circ> seed_identity) (C_Identities c)\<rparr> \<and>
    (\<forall>x \<in> set (C_Identities c). \<exists>ch. map_of (C_Channels c) (CI_Channel x) = Some ch \<and>
       ResolveStamped False (CI_Channel x) (CI_NativeID x) (Ch_Auth ch) d' =
         (\<lparr>st_Trust = CI_Trust x, st_ReadOnly = ReadOnly ch, st_MayApprove = MayApprove ch\<rparr>, None) \<and>
       rank (CI_Trust x) \<le> rank (MaxTrust ch)) \<and>
    (\<forall>channel nativeID. (channel, nativeID) \<notin> (\<lambda>x. (CI_Channel x, CI_NativeID x)) ` set (C_Identities c) \<longrightarrow>
       ResolveTrust False channel nativeID d' = (Untrusted, None))"
proof -
  from assms obtain c0 md where ok: "config_validate (engine_defaults md c0) = []"
    and c: "C_Channels c = C_Channels c0" "C_Identities c = C_Identities c0"
    by (rule Parse_InrE) simp
  have auth: "Ch_Auth ch = ''strong'' \<or> Ch_Auth ch = ''weak''" if "map_of (C_Channels c) name = Some ch" for name ch
    using validated_auth [OF validate_parts(1) [OF ok], of name ch] that by (simp add: c)
  have "validate_ids (C_Channels c) 0 [] (C_Identities c) = []"
    using validate_parts(3) [OF ok] by (simp add: validateIdentities_def c)
  from validate_ids_ok [OF this]
  have chk: "\<forall>x \<in> set (C_Identities c). identity_check (identity_row_of (seed_identity x))"
    and chan: "\<forall>x \<in> set (C_Identities c). \<exists>ch. map_of (C_Channels c) (CI_Channel x) = Some ch \<and>
      (CI_Trust x = ''owner'' \<longrightarrow> Ch_Auth ch \<noteq> ''weak'')"
    and dist: "distinct (map (\<lambda>x. (CI_Channel x, CI_NativeID x)) (C_Identities c))" by blast+
  define rows where "rows = map (identity_row_of \<circ> seed_identity) (C_Identities c)"
  have fields: "id_channel (identity_row_of (seed_identity x)) = CI_Channel x"
    "id_native_id (identity_row_of (seed_identity x)) = CI_NativeID x" "id_trust (identity_row_of (seed_identity x)) = CI_Trust x" for x
    by (simp_all add: identity_row_of_def seed_identity_def)
  then have keys: "map identity_key rows = map (\<lambda>x. (CI_Channel x, CI_NativeID x)) (C_Identities c)"
    by (simp add: rows_def identity_key_def)
  have dist': "distinct (map identity_key rows)" using dist by (simp only: keys)
  have "seed_loop (map seed_identity (C_Identities c)) [] = Inr rows"
    using seed_loop_ok [of "map seed_identity (C_Identities c)" "[]"] chk dist keys unfolding rows_def
    by (simp only: map_map append_Nil set_map ball_simps)
  then have seeded: "seedIdentities (Some c) d = Inr (d\<lparr>identities := rows\<rparr>)"
    by (simp add: seedIdentities_def SeedIdentities_def)
  have enrolled: "\<exists>ch. map_of (C_Channels c) (CI_Channel x) = Some ch \<and>
       ResolveStamped False (CI_Channel x) (CI_NativeID x) (Ch_Auth ch) (d\<lparr>identities := rows\<rparr>) =
         (\<lparr>st_Trust = CI_Trust x, st_ReadOnly = ReadOnly ch, st_MayApprove = MayApprove ch\<rparr>, None) \<and>
       rank (CI_Trust x) \<le> rank (MaxTrust ch)" if x: "x \<in> set (C_Identities c)" for x
  proof -
    from chan x obtain ch where ch: "map_of (C_Channels c) (CI_Channel x) = Some ch"
      "CI_Trust x = ''owner'' \<longrightarrow> Ch_Auth ch \<noteq> ''weak''" by blast
    from chk x have ck: "identity_check (identity_row_of (seed_identity x))" by blast
    then have lvl: "CI_Trust x = ''owner'' \<or> CI_Trust x = ''known''" by (auto simp: identity_check_def fields)
    have "ResolveTrust False (CI_Channel x) (CI_NativeID x) (d\<lparr>identities := rows\<rparr>) = (CI_Trust x, None)"
      using resolve_enrolled [OF _ dist' ck, of d] x by (simp add: fields rows_def)
    with stamp_at_enrolment [OF auth [OF ch(1)] lvl ch(2)] ch(1) show ?thesis by (simp add: ResolveStamped_def)
  qed
  have "ResolveTrust False channel nativeID (d\<lparr>identities := rows\<rparr>) = (Untrusted, None)"
    if "(channel, nativeID) \<notin> (\<lambda>x. (CI_Channel x, CI_NativeID x)) ` set (C_Identities c)" for channel nativeID
  proof -
    have "find (\<lambda>r. id_channel r = channel \<and> id_native_id r = nativeID) rows = None"
      using that by (auto simp: find_eq_None rows_def fields)
    then show ?thesis by (simp add: ResolveTrust_def identity_at_def)
  qed
  with seeded enrolled show ?thesis unfolding rows_def [symmetric] by blast
qed

text \<open>A small file: one strong and one weak channel, an owner and a known sender, one overridden row.\<close>

definition ex_config :: Config where
  "ex_config = initial_config
     \<lparr>C_Models := \<lparr>M_Heartbeat = ''h'', M_Message = ''m'', M_Heavy = [], M_Critique = []\<rparr>,
      C_Channels := [(''discord'', \<lparr>Ch_Auth = ''strong'', Ch_TokenFile = ''/t''\<rparr>), (''sms'', \<lparr>Ch_Auth = ''weak'', Ch_TokenFile = []\<rparr>)],
      C_Identities := [\<lparr>CI_Channel = ''discord'', CI_NativeID = ''7'', CI_Trust = ''owner'', CI_OwnerID = ''brian'', CI_Label = []\<rparr>,
         \<lparr>CI_Channel = ''sms'', CI_NativeID = ''9'', CI_Trust = ''known'', CI_OwnerID = [], CI_Label = []\<rparr>],
      C_Matrix := [(''bash'', policy_row ''ask'' [] [])]\<rparr>"

definition ex_decode :: "Config \<Rightarrow> (Config \<times> metadata) option" where
  "ex_decode c = Some (ex_config, \<lparr>md_undecoded = [], md_defined = (\<lambda>_. False)\<rparr>)"

lemma ex_parse: "Parse ex_decode = Inr (ex_config\<lparr>C_Matrix := mergeMatrix (C_Matrix ex_config)\<rparr>)"
  by (simp add: Parse_def ex_decode_def ex_config_def initial_config_def engine_defaults_def config_validate_def
      empty_actions_def empty_tokens_def validateModels_def validateChannels_def validateChannel_def gatewayChannels_def
      validateSessions_def time_Second_def validateEngine_def validatePolicy_def defaultMatrix_def policy_row_def
      columns_def Action_def actions_def validateIdentities_def Let_def)

lemma parsed_config_seeds_example:
  "\<exists>d'. seedIdentities (Some (ex_config\<lparr>C_Matrix := mergeMatrix (C_Matrix ex_config)\<rparr>)) empty_db = Inr d' \<and>
     ResolveTrust False ''slack'' ''u1'' d' = (Untrusted, None)"
  using parsed_config_seeds [OF ex_parse, of empty_db] by (auto simp: ex_config_def)

text \<open>
  C26: the effective policy is closed and denies by default.  After a successful parse the matrix has
  exactly the capabilities of the built-in table; reading any cell, of an unknown column too, gives one of
  the five actions; an override replaces its whole row, so a column it leaves out reads as deny and was
  really left out, and never falls back to the built-in cell; a row without an override is the built-in one.
\<close>

theorem effective_policy:
  assumes "Parse decode = Inr c" and "decode initial_config = Some (c0, md)"
  shows "dom (map_of (C_Matrix c)) = fst ` set defaultMatrix \<and>
    (\<forall>capability row column. map_of (C_Matrix c) capability = Some row \<longrightarrow> Action row column \<in> set actions) \<and>
    (\<forall>capability row. map_of (rev (C_Matrix c0)) capability = Some row \<longrightarrow> map_of (C_Matrix c) capability = Some row \<and>
       (Row_Owner row = [] \<longrightarrow> Action row ''owner'' = ''deny'' \<and> \<not> md_defined md [''policy'', ''matrix'', capability, ''owner'']) \<and>
       (Row_Known row = [] \<longrightarrow> Action row ''known'' = ''deny'' \<and> \<not> md_defined md [''policy'', ''matrix'', capability, ''known'']) \<and>
       (Row_Untrusted row = [] \<longrightarrow> Action row ''untrusted'' = ''deny'' \<and> \<not> md_defined md [''policy'', ''matrix'', capability, ''untrusted''])) \<and>
    (\<forall>capability. capability \<notin> fst ` set (C_Matrix c0) \<longrightarrow> map_of (C_Matrix c) capability = map_of defaultMatrix capability)"
proof -
  from assms have ok: "config_validate (engine_defaults md c0) = []"
    and ea: "empty_actions md (engine_defaults md c0) = []"
    and m: "map_of (C_Matrix c) = map_of defaultMatrix ++ map_of (rev (C_Matrix c0))"
    by (auto elim!: Parse_InrE simp: map_of_merge)
  have ovr: "map_of defaultMatrix capability \<noteq> None" "Action row column \<in> set actions"
    if "map_of (rev (C_Matrix c0)) capability = Some row" for capability row column
  proof -
    from map_of_SomeD [OF that] have "(capability, row) \<in> set (C_Matrix (engine_defaults md c0))" by simp
    from validated_action [OF validate_parts(2) [OF ok] this]
    show "map_of defaultMatrix capability \<noteq> None" "Action row column \<in> set actions" by blast+
  qed
  have "dom (map_of (rev (C_Matrix c0))) \<subseteq> dom (map_of defaultMatrix)" using ovr(1) by blast
  then have "dom (map_of (C_Matrix c)) = fst ` set defaultMatrix" by (auto simp: m dom_map_of_conv_image_fst)
  moreover have "Action row column \<in> set actions" if "map_of (C_Matrix c) capability = Some row" for capability row column
    using that ovr(2) default_action by (auto simp: m map_add_Some_iff)
  moreover have "\<not> md_defined md [''policy'', ''matrix'', capability, column]"
    if "map_of (rev (C_Matrix c0)) capability = Some row" "(column, []) \<in> set
      [(''owner'', Row_Owner row), (''known'', Row_Known row), (''untrusted'', Row_Untrusted row)]" for capability row column
    using map_of_SomeD [OF that(1)] that(2) ea by (fastforce simp: empty_actions_def split: if_splits)
  moreover have "map_of (C_Matrix c) capability = map_of defaultMatrix capability"
    if "capability \<notin> fst ` set (C_Matrix c0)" for capability
  proof -
    have "map_of (rev (C_Matrix c0)) capability = None" using that by (simp add: map_of_eq_None_iff)
    then show ?thesis by (simp add: m map_add_def)
  qed
  moreover have "map_of (C_Matrix c) capability = Some row" if "map_of (rev (C_Matrix c0)) capability = Some row" for capability row
    using that by (simp add: m)
  ultimately show ?thesis by (simp add: Action_def)
qed

theorem effective_policy_witness:
  "map_of (mergeMatrix (C_Matrix ex_config)) ''bash'' = Some (policy_row ''ask'' [] []) \<and>
   map_of (mergeMatrix (C_Matrix ex_config)) ''edit'' = map_of defaultMatrix ''edit''"
  using effective_policy [OF ex_parse, of ex_config "\<lparr>md_undecoded = [], md_defined = (\<lambda>_. False)\<rparr>"]
  by (auto simp: ex_decode_def ex_config_def)

end
