(* ===== verification/Ingest.thy ===== *)
theory Ingest
  imports Turn_Path Router Configuration
begin

text \<open>
  The write-on-receipt path: \<open>src/internal/cli/ingest.go\<close>.  An inbound Discord message is normalized,
  stamped from the identities table, encoded and handed to the router's \<open>Persist\<close>.  The JSON encoder
  is the parameter \<open>marshal\<close>, the decoder of the store's mirror check the parameter \<open>unmarshal\<close>;
  whether each of the two identity queries fails is an argument.  The properties follow a message from
  the gateway to the turn handler.
\<close>

section \<open>Stamping and receipt\<close>

definition stampEvent :: "bool \<Rightarrow> bool \<Rightarrow> string \<Rightarrow> db \<Rightarrow> event_Event \<Rightarrow> event_Event" where
  "stampEvent trust_fails owner_fails auth d ev =
     (case ResolveStamped trust_fails (E_Channel ev) (E_Sender ev) auth d of
        (stamped, _) \<Rightarrow>
          let ev1 = ev\<lparr>E_Trust := st_Trust stamped\<rparr> in
          if st_Trust stamped \<noteq> Owner then ev1
          else (case ResolveOwnerID owner_fails (E_Channel ev) (E_Sender ev) d of
                  (_, Some _) \<Rightarrow> ev1
                | ((ownerID, ok), None) \<Rightarrow> if ok then ev1\<lparr>E_OwnerID := Some ownerID\<rparr> else ev1))"

definition store_event :: "int \<Rightarrow> event_Event \<Rightarrow> string \<Rightarrow> Event" where
  "store_event now ev payload =
     \<lparr>Event_DedupKey = E_DedupKey ev, Event_ThreadKey = E_ThreadKey ev, Event_Kind = E_Kind ev, Event_Trust = E_Trust ev,
      Event_Payload = payload, Event_Received = now, Event_Correlation = []\<rparr>"

definition discordIngest ::
  "(event_Event \<Rightarrow> string option) \<Rightarrow> (string \<Rightarrow> mirror option) \<Rightarrow> bool \<Rightarrow> bool \<Rightarrow> string \<Rightarrow> int \<Rightarrow>
   MessageCreate option \<Rightarrow> db \<times> Queues \<Rightarrow> db \<times> Queues" where
  "discordIngest marshal unmarshal trust_fails owner_fails auth now m s =
     (case Normalize m of
        Inl _ \<Rightarrow> s
      | Inr ev0 \<Rightarrow>
          let ev = stampEvent trust_fails owner_fails auth (fst s) ev0 in
          (case MarshalJSON marshal ev of
             None \<Rightarrow> s
           | Some payload \<Rightarrow> snd (Persist unmarshal (store_event now ev payload) s)))"

text \<open>What encoding/json promises of one event: it encodes, and the mirrored fields decode to themselves.\<close>

definition json_faithful :: "(event_Event \<Rightarrow> string option) \<Rightarrow> (string \<Rightarrow> mirror option) \<Rightarrow> event_Event \<Rightarrow> bool" where
  "json_faithful marshal unmarshal ev \<longleftrightarrow>
     (case MarshalJSON marshal ev of
        None \<Rightarrow> False
      | Some p \<Rightarrow> unmarshal p = Some \<lparr>P_DedupKey = E_DedupKey ev, P_ThreadKey = E_ThreadKey ev, P_Kind = E_Kind ev, P_Trust = E_Trust ev\<rparr>)"

section \<open>Lemmas\<close>

lemma Normalize_fields:
  assumes "Normalize m = Inr ev"
  shows "E_Channel ev = ''discord''" "E_Kind ev = ''message''" "E_DedupKey ev \<noteq> []" "E_ThreadKey ev \<noteq> []" "E_OwnerID ev = None"
  using assms by (auto simp: Normalize_def msg_key_def split: option.splits if_splits)

lemma stampEvent_keeps [simp]:
  "E_Channel (stampEvent tf ow auth d ev) = E_Channel ev" "E_Kind (stampEvent tf ow auth d ev) = E_Kind ev"
  "E_DedupKey (stampEvent tf ow auth d ev) = E_DedupKey ev" "E_ThreadKey (stampEvent tf ow auth d ev) = E_ThreadKey ev"
  "E_Sender (stampEvent tf ow auth d ev) = E_Sender ev" "E_Text (stampEvent tf ow auth d ev) = E_Text ev"
  "E_Attachments (stampEvent tf ow auth d ev) = E_Attachments ev"
  "E_Trust (stampEvent tf ow auth d ev) = st_Trust (fst (ResolveStamped tf (E_Channel ev) (E_Sender ev) auth d))"
  by (auto simp: stampEvent_def Let_def split: prod.splits option.splits if_splits)

lemma wire_attachments:
  assumes "Normalize m = Inr ev0"
  obtains atts where "MarshalJSON marshal (stampEvent tf ow auth d ev0) = marshal ((stampEvent tf ow auth d ev0)\<lparr>E_Attachments := Some atts\<rparr>)"
    "append_attachments atts = E_Attachments ev0"
proof (cases "E_Attachments ev0")
  case None
  then show ?thesis using that [of "[]"] by (simp add: MarshalJSON_def append_attachments_def)
next
  case (Some atts)
  moreover from this assms have "atts \<noteq> []"
    by (auto simp: Normalize_def append_attachments_def split: option.splits if_splits)
  moreover have "E_Attachments x = Some atts \<Longrightarrow> x\<lparr>E_Attachments := Some atts\<rparr> = x" for x :: event_Event
    by (cases x) simp
  from this [of "stampEvent tf ow auth d ev0"] Some
  have "(stampEvent tf ow auth d ev0)\<lparr>E_Attachments := Some atts\<rparr> = stampEvent tf ow auth d ev0" by simp
  ultimately show ?thesis using that [of atts] by (simp only: MarshalJSON_def append_attachments_def stampEvent_keeps option.case if_False)
qed

lemma stamp_level: "st_Trust (fst (ResolveStamped tf channel nativeID auth d)) \<in> {''owner'', ''known'', ''untrusted''}"
  by (auto simp: ResolveStamped_def ResolveTrust_def Parse_level_def Stamp_def Min_level_def Trust.normalize_def rank_def level_defs
      split: prod.splits option.splits sum.splits if_splits)

lemma stamp_owner:
  assumes "st_Trust (fst (ResolveStamped tf channel nativeID auth d)) = ''owner''"
  shows "auth = ''strong'' \<and> \<not> tf \<and> (\<exists>r. identity_at channel nativeID d = Some r \<and> id_trust r = ''owner'' \<and> id_owner_id r \<noteq> None \<and> id_owner_id r \<noteq> Some [])"
  using assms
  by (auto simp: ResolveStamped_def ResolveTrust_def Parse_level_def Stamp_def Min_level_def Trust.normalize_def rank_def level_defs
      split: prod.splits option.splits sum.splits if_splits)

lemma stamped_owner_id:
  assumes "E_OwnerID (stampEvent tf ow auth d ev) = Some w" and "E_OwnerID ev = None"
  shows "E_Trust (stampEvent tf ow auth d ev) = ''owner''"
    "\<exists>r \<in> set (identities d). id_channel r = E_Channel ev \<and> id_native_id r = E_Sender ev \<and> id_trust r = ''owner'' \<and> id_owner_id r = Some w"
proof -
  from assms have o: "st_Trust (fst (ResolveStamped tf (E_Channel ev) (E_Sender ev) auth d)) = ''owner''"
    and "ResolveOwnerID ow (E_Channel ev) (E_Sender ev) d = ((w, True), None)"
    by (auto simp: stampEvent_def Let_def level_defs split: prod.splits option.splits if_splits)
  then have "find (\<lambda>r. id_channel r = E_Channel ev \<and> id_native_id r = E_Sender ev \<and> id_trust r = ''owner'') (identities d) \<noteq> None"
    "\<forall>r. find (\<lambda>r. id_channel r = E_Channel ev \<and> id_native_id r = E_Sender ev \<and> id_trust r = ''owner'') (identities d) = Some r \<longrightarrow> id_owner_id r = Some w"
    by (auto simp: ResolveOwnerID_def split: option.splits if_splits)
  then show "\<exists>r \<in> set (identities d). id_channel r = E_Channel ev \<and> id_native_id r = E_Sender ev \<and> id_trust r = ''owner'' \<and> id_owner_id r = Some w"
    by (auto dest: find_eq_Some)
  from o show "E_Trust (stampEvent tf ow auth d ev) = ''owner''" by simp
qed

text \<open>The row of a persisted event, and the event the router indexes for it.\<close>

lemma persisted_row:
  assumes "Persist unmarshal ev (d, q) = (res, d', q')"
  shows "(d', q') = (d, q) \<or> (d' = d\<lparr>events := events d @ [new_event_row ev d]\<rparr> \<and> q' = Enqueue (scanQueuedEvent (new_event_row ev d)) q)"
proof -
  have "queued_of (ev_id (new_event_row ev d)) ev = scanQueuedEvent (new_event_row ev d)"
    by (simp add: queued_of_def scanQueuedEvent_def new_event_row_def null_string_def nullif_empty_def)
  with assms show ?thesis by (auto simp: Persist_def InsertEvent_def Let_def split: option.splits if_splits)
qed

lemma discordIngest_cases:
  obtains (same) "discordIngest marshal unmarshal tf ow auth now m (d, q) = (d, q)"
  | (row) ev0 payload r where "Normalize m = Inr ev0" "MarshalJSON marshal (stampEvent tf ow auth d ev0) = Some payload"
    "r = new_event_row (store_event now (stampEvent tf ow auth d ev0) payload) d"
    "discordIngest marshal unmarshal tf ow auth now m (d, q) = (d\<lparr>events := events d @ [r]\<rparr>, Enqueue (scanQueuedEvent r) q)"
proof (cases "Normalize m")
  case (Inl e)
  then show ?thesis using same by (simp add: discordIngest_def)
next
  case (Inr ev0)
  show ?thesis
  proof (cases "MarshalJSON marshal (stampEvent tf ow auth d ev0)")
    case None
    with Inr show ?thesis using same by (simp add: discordIngest_def)
  next
    case (Some payload)
    obtain res d' q' where p: "Persist unmarshal (store_event now (stampEvent tf ow auth d ev0) payload) (d, q) = (res, d', q')"
      by (metis prod_cases3)
    with Inr Some have "discordIngest marshal unmarshal tf ow auth now m (d, q) = (d', q')" by (simp add: discordIngest_def)
    with persisted_row [OF p] Inr Some show ?thesis using same row by auto
  qed
qed

lemma ingested_trust:
  "ev_trust (new_event_row (store_event now ev payload) d) = E_Trust ev"
  by (simp add: new_event_row_def store_event_def)

lemma scanned_trust: "Q_Trust (scanQueuedEvent r) = ev_trust r"
  by (simp add: scanQueuedEvent_def)

lemma sub_owner_skips:
  assumes "Q_Trust ev \<noteq> ''owner''"
  shows "tu_requests (productionTurn env ev a d) = []" "tu_adapter (productionTurn env ev a d) = a"
  using assms by (auto simp: productionTurn_def plain_result_def split: sum.splits)

section \<open>Properties\<close>


definition ex_marshal :: "event_Event \<Rightarrow> string option" where
  "ex_marshal e = Some (E_DedupKey e)"

definition ex_unmarshal :: "string \<Rightarrow> mirror option" where
  "ex_unmarshal p = Some \<lparr>P_DedupKey = p, P_ThreadKey = ''discord:dm:7'', P_Kind = ''message'', P_Trust = ''owner''\<rparr>"


text \<open>
  C2: who is not configured as the owner never reaches the engine.  From any accepted configuration,
  once its identities are seeded and whatever else the store has gone through since, a Discord message
  whose sender the file does not enroll as owner, or that comes in on a channel graded weak, or whose
  lookup fails, is recorded at most at known trust; and neither the event indexed now nor the row read
  back after a restart makes the turn handler call the engine or the platform.
\<close>

theorem unenrolled_sender_never_runs:
  assumes "Parse decode = Inr c" and "seedIdentities (Some c) d0 = Inr d1" and "identities d = identities d1"
    and "Normalize m = Inr ev0"
    and "auth \<noteq> ''strong'' \<or> tf \<or>
      (\<forall>x \<in> set (C_Identities c). CI_Channel x = ''discord'' \<and> CI_NativeID x = E_Sender ev0 \<longrightarrow> CI_Trust x \<noteq> ''owner'')"
    and "discordIngest marshal unmarshal tf ow auth now m (d, q) = (d', q')"
  shows "(d', q') = (d, q) \<or>
    (\<exists>r. d' = d\<lparr>events := events d @ [r]\<rparr> \<and> q' = Enqueue (scanQueuedEvent r) q \<and> ev_trust r \<in> {''known'', ''untrusted''} \<and>
      (\<forall>env a d2. tu_requests (productionTurn env (scanQueuedEvent r) a d2) = [] \<and>
                  tu_adapter (productionTurn env (scanQueuedEvent r) a d2) = a))"
proof (cases rule: discordIngest_cases [of marshal unmarshal tf ow auth now m d q])
  case same
  with assms(6) show ?thesis by simp
next
  case (row ev1 payload r)
  with assms(4) have ev1: "ev1 = ev0" by simp
  have rows: "identities d1 = map (identity_row_of \<circ> seed_identity) (C_Identities c)"
    using assms(2) seed_loop_Inr by (fastforce simp: seedIdentities_def SeedIdentities_def split: sum.splits)
  have "st_Trust (fst (ResolveStamped tf ''discord'' (E_Sender ev0) auth d)) \<noteq> ''owner''"
  proof
    assume "st_Trust (fst (ResolveStamped tf ''discord'' (E_Sender ev0) auth d)) = ''owner''"
    from stamp_owner [OF this] obtain x where o: "auth = ''strong''" "\<not> tf"
      and x: "identity_at ''discord'' (E_Sender ev0) d = Some x" "id_trust x = ''owner''" by blast
    from x(1) have "x \<in> set (identities d1)" "id_channel x = ''discord''" "id_native_id x = E_Sender ev0"
      using assms(3) by (auto simp: identity_at_def dest: find_eq_Some)
    with x(2) obtain y where "y \<in> set (C_Identities c)" "CI_Channel y = ''discord''" "CI_NativeID y = E_Sender ev0" "CI_Trust y = ''owner''"
      by (auto simp: rows identity_row_of_def seed_identity_def)
    with o assms(5) show False by blast
  qed
  moreover have "ev_trust r = st_Trust (fst (ResolveStamped tf ''discord'' (E_Sender ev0) auth d))"
    using row(3) ev1 Normalize_fields(1) [OF assms(4)] by (simp add: ingested_trust)
  ultimately have "ev_trust r \<noteq> ''owner''" "ev_trust r \<in> {''known'', ''untrusted''}"
    using stamp_level [of tf "''discord''" "E_Sender ev0" auth d] by auto
  moreover from this(1) have "tu_requests (productionTurn env (scanQueuedEvent r) a d2) = []"
    "tu_adapter (productionTurn env (scanQueuedEvent r) a d2) = a" for env a d2
    by (simp_all add: sub_owner_skips scanned_trust)
  ultimately show ?thesis using row(4) assms(6) by auto
qed

theorem unenrolled_sender_never_runs_witness:
  "\<exists>d1 d' q'. seedIdentities (Some (ex_config\<lparr>C_Matrix := mergeMatrix (C_Matrix ex_config)\<rparr>)) empty_db = Inr d1 \<and>
     discordIngest ex_marshal ex_unmarshal False False ''strong'' 50 (Some (ex_message\<lparr>mc_Author := Some ''8''\<rparr>)) (d1, New) = (d', q') \<and>
     (d' = d1 \<or> (\<exists>r. d' = d1\<lparr>events := events d1 @ [r]\<rparr> \<and> ev_trust r \<in> {''known'', ''untrusted''}))"
proof -
  let ?c = "ex_config\<lparr>C_Matrix := mergeMatrix (C_Matrix ex_config)\<rparr>"
  let ?m = "Some (ex_message\<lparr>mc_Author := Some ''8''\<rparr>)"
  define d1 where "d1 = empty_db\<lparr>identities := map (identity_row_of \<circ> seed_identity) (C_Identities ?c)\<rparr>"
  have s: "seedIdentities (Some ?c) empty_db = Inr d1"
    by (simp add: d1_def seedIdentities_def SeedIdentities_def ex_config_def identity_row_of_def seed_identity_def identity_check_def
        nullif_empty_def identity_key_def sql_exists_def Let_def)
  obtain ev0 where n: "Normalize ?m = Inr ev0" and f: "E_Sender ev0 = ''8''"
    by (simp add: Normalize_def ex_message_def)
  have e: "\<forall>x \<in> set (C_Identities ?c). CI_Channel x = ''discord'' \<and> CI_NativeID x = E_Sender ev0 \<longrightarrow> CI_Trust x \<noteq> ''owner''"
    by (simp add: ex_config_def f)
  obtain d' q' where i: "discordIngest ex_marshal ex_unmarshal False False ''strong'' 50 ?m (d1, New) = (d', q')" by fastforce
  from unenrolled_sender_never_runs [OF ex_parse s refl n disjI2 [OF disjI2 [OF e]] i]
  have "d' = d1 \<or> (\<exists>r. d' = d1\<lparr>events := events d1 @ [r]\<rparr> \<and> ev_trust r \<in> {''known'', ''untrusted''})" by blast
  with s i show ?thesis by blast
qed

end
