(* ===== verification/Paths.thy ===== *)
theory Paths
  imports Prelude
begin

text \<open>
  The parts of Go's path/filepath (on Unix, where the volume name is empty) that the policy package
  uses: splitting, \<open>Clean\<close>, \<open>Join\<close>, \<open>Dir\<close>, \<open>Base\<close>, \<open>IsAbs\<close> and \<open>Rel\<close>, on byte
  strings.  The lemmas describe them on absolute clean paths through the list of their segments.
\<close>

section \<open>Segments\<close>

definition sep :: char where "sep = CHR ''/''"

fun split_on :: "string \<Rightarrow> string list" where
  "split_on [] = [[]]"
| "split_on (x # xs) =
     (if x = sep then [] # split_on xs
      else (case split_on xs of [] \<Rightarrow> [[x]] | y # ys \<Rightarrow> (x # y) # ys))"

fun join_with :: "string list \<Rightarrow> string" where
  "join_with [] = []"
| "join_with [x] = x"
| "join_with (x # y # ys) = x @ sep # join_with (y # ys)"

definition IsAbs :: "string \<Rightarrow> bool" where
  "IsAbs p \<longleftrightarrow> has_prefix ''/'' p"

section \<open>Clean\<close>

text \<open>The loop over the segments; \<open>acc\<close> is what has been written so far, last segment first.\<close>

fun clean_loop :: "bool \<Rightarrow> string list \<Rightarrow> string list \<Rightarrow> string list" where
  "clean_loop rooted acc [] = rev acc"
| "clean_loop rooted acc (s # ss) =
     (if s = [] \<or> s = ''.'' then clean_loop rooted acc ss
      else if s = ''..'' then
        (if acc \<noteq> [] \<and> hd acc \<noteq> ''..'' then clean_loop rooted (tl acc) ss
         else if rooted then clean_loop rooted acc ss
         else clean_loop rooted (''..'' # acc) ss)
      else clean_loop rooted (s # acc) ss)"

definition abs_path :: "string list \<Rightarrow> string" where
  "abs_path xs = sep # join_with xs"

definition Clean :: "string \<Rightarrow> string" where
  "Clean p =
     (if p = [] then ''.''
      else let segs = clean_loop (IsAbs p) [] (split_on p) in
        if IsAbs p then abs_path segs else if segs = [] then ''.'' else join_with segs)"

section \<open>Join, Dir, Base, Rel\<close>

definition Join_all :: "string list \<Rightarrow> string" where
  "Join_all elems = (case dropWhile (\<lambda>e. e = []) elems of [] \<Rightarrow> [] | es \<Rightarrow> Clean (join_with es))"

abbreviation Join :: "string \<Rightarrow> string \<Rightarrow> string" where
  "Join a b \<equiv> Join_all [a, b]"

definition Dir :: "string \<Rightarrow> string" where
  "Dir p = Clean (rev (dropWhile (\<lambda>c. c \<noteq> sep) (rev p)))"

text \<open>On a clean relative path, the only use.\<close>

definition Base :: "string \<Rightarrow> string" where
  "Base p = last (split_on p)"

text \<open>The elements the loop of \<open>Rel\<close> compares.\<close>

definition rel_elems :: "string \<Rightarrow> string list" where
  "rel_elems s = (if s = [] then [] else if s = ''/'' then [[]] else split_on s)"

fun strip_common :: "string list \<Rightarrow> string list \<Rightarrow> string list \<times> string list" where
  "strip_common (b # bs) (t # ts) = (if b = t then strip_common bs ts else (b # bs, t # ts))"
| "strip_common bs ts = (bs, ts)"

definition Rel :: "string \<Rightarrow> string \<Rightarrow> string option" where
  "Rel basepath targpath =
     (let base = Clean basepath; targ = Clean targpath in
      if targ = base then Some ''.''
      else
        let base' = (if base = ''.'' then [] else base) in
        if IsAbs base' \<noteq> IsAbs targ then None
        else (case strip_common (rel_elems base') (rel_elems targ) of
            (bs, ts) \<Rightarrow>
              if bs \<noteq> [] \<and> hd bs = ''..'' then None
              else Some (join_with (replicate (length bs) ''..'' @ ts))))"

section \<open>Lemmas\<close>

text \<open>The name of a directory entry.\<close>

definition good_name :: "string \<Rightarrow> bool" where
  "good_name s \<longleftrightarrow> s \<noteq> [] \<and> s \<noteq> ''.'' \<and> s \<noteq> ''..'' \<and> sep \<notin> set s"

definition clean_abs :: "string \<Rightarrow> bool" where
  "clean_abs p \<longleftrightarrow> (\<exists>xs. list_all good_name xs \<and> p = abs_path xs)"

lemma split_on_not_Nil [simp]: "split_on s \<noteq> []"
  by (induction s) (auto split: list.split)

lemma split_on_no_sep: "x \<in> set (split_on s) \<Longrightarrow> sep \<notin> set x"
  by (induction s arbitrary: x) (auto split: list.splits if_splits)

lemma split_on_plain: "sep \<notin> set s \<Longrightarrow> split_on s = [s]"
  by (induction s) auto

lemma split_on_append: "sep \<notin> set s \<Longrightarrow> split_on (s @ sep # t) = s # split_on t"
  by (induction s) auto

lemma split_join: "xs \<noteq> [] \<Longrightarrow> list_all (\<lambda>x. sep \<notin> set x) xs \<Longrightarrow> split_on (join_with xs) = xs"
  by (induction xs rule: join_with.induct) (simp_all add: split_on_append split_on_plain)

lemma good_no_sep: "list_all good_name xs \<Longrightarrow> list_all (\<lambda>x. sep \<notin> set x) xs"
  by (auto simp: list_all_iff good_name_def)

lemma split_abs_path:
  "list_all good_name xs \<Longrightarrow> split_on (abs_path xs) = [] # (if xs = [] then [[]] else xs)"
  by (auto simp: abs_path_def split_join good_no_sep)

lemma clean_loop_good: "list_all good_name xs \<Longrightarrow> clean_loop r acc (xs @ ys) = clean_loop r (rev xs @ acc) ys"
  by (induction xs arbitrary: acc) (auto simp: good_name_def)

lemma clean_loop_good' [simp]: "list_all good_name xs \<Longrightarrow> clean_loop r acc xs = rev acc @ xs"
  using clean_loop_good [of xs r acc "[]"] by simp

lemma clean_loop_names:
  "list_all (\<lambda>x. sep \<notin> set x) ss \<Longrightarrow> list_all good_name acc \<Longrightarrow> list_all good_name (clean_loop True acc ss)"
proof (induction ss arbitrary: acc)
  case (Cons s ss)
  have tl: "list_all good_name (tl acc)" using Cons.prems(2) by (cases acc) auto
  have s: "list_all good_name (s # acc)" if "s \<noteq> []" "s \<noteq> ''.''" "s \<noteq> ''..''"
    using that Cons.prems by (simp add: good_name_def [of s])
  have ss: "list_all (\<lambda>x. sep \<notin> set x) ss" using Cons.prems(1) by simp
  show ?case using Cons.IH [OF ss tl] Cons.IH [OF ss s] Cons.IH [OF ss Cons.prems(2)] by simp
qed simp

lemma IsAbs_abs_path [simp]: "IsAbs (abs_path xs)" "IsAbs (sep # s)" "\<not> IsAbs []"
  by (simp_all add: IsAbs_def has_prefix_def abs_path_def sep_def)

lemma abs_path_not_Nil [simp]: "abs_path xs \<noteq> []" "[] \<noteq> abs_path xs"
  by (simp_all add: abs_path_def)

lemma Clean_abs: "IsAbs p \<Longrightarrow> clean_abs (Clean p)"
proof -
  assume "IsAbs p"
  moreover have "list_all good_name (clean_loop True [] (split_on p))"
    by (rule clean_loop_names) (auto simp: list_all_iff split_on_no_sep)
  ultimately show ?thesis by (auto simp: Clean_def clean_abs_def Let_def)
qed

lemma Clean_abs_path [simp]: "list_all good_name xs \<Longrightarrow> Clean (abs_path xs) = abs_path xs"
  by (simp add: Clean_def Let_def split_abs_path)

lemma join_with_append: "xs \<noteq> [] \<Longrightarrow> ys \<noteq> [] \<Longrightarrow> join_with (xs @ ys) = join_with xs @ sep # join_with ys"
proof (induction xs rule: join_with.induct)
  case (2 x)
  then show ?case by (cases ys) auto
qed auto

lemma split_on_sep_join:
  "list_all (\<lambda>x. sep \<notin> set x) xs \<Longrightarrow> split_on (join_with xs @ sep # s) = (if xs = [] then [[]] else xs) @ split_on s"
  by (induction xs rule: join_with.induct) (auto simp: split_on_append)

lemma Join_abs_path:
  assumes "list_all good_name xs"
  shows "Join (abs_path xs) s = abs_path (clean_loop True (rev xs) (split_on s))"
proof -
  have "split_on (abs_path xs @ sep # s) = [] # (if xs = [] then [[]] else xs) @ split_on s"
    using split_on_sep_join [OF good_no_sep [OF assms], of s] by (simp add: abs_path_def)
  moreover have "IsAbs (abs_path xs @ sep # s)" by (simp add: abs_path_def)
  ultimately show ?thesis using assms by (auto simp: Join_all_def Clean_def Let_def clean_loop_good)
qed

lemma Join_names:
  assumes "list_all good_name xs" and "list_all good_name ys"
  shows "Join (abs_path xs) (join_with ys) = abs_path (xs @ ys)"
proof (cases "ys = []")
  case True
  then show ?thesis using assms(1) by (simp add: Join_abs_path)
next
  case False
  then show ?thesis using assms by (simp add: Join_abs_path split_join good_no_sep)
qed

lemma Join_name:
  assumes "list_all good_name xs" and "good_name n"
  shows "Join (abs_path xs) n = abs_path (xs @ [n])"
  using Join_names [OF assms(1), of "[n]"] assms(2) by simp

lemma Join_dot: "list_all good_name xs \<Longrightarrow> Join (abs_path xs) ''.'' = abs_path xs"
  by (simp add: Join_abs_path sep_def)

lemma Join_clean_abs:
  assumes "clean_abs p"
  shows "clean_abs (Join p s)"
proof -
  from assms obtain xs where xs: "list_all good_name xs" "p = abs_path xs" by (auto simp: clean_abs_def)
  have "list_all good_name (clean_loop True (rev xs) (split_on s))"
    by (rule clean_loop_names) (use xs(1) in \<open>auto simp: list_all_iff split_on_no_sep\<close>)
  then show ?thesis unfolding xs(2) Join_abs_path [OF xs(1)] clean_abs_def by blast
qed

text \<open>Relative paths built from names.\<close>

lemma join_with_no_dots:
  assumes "list_all good_name xs" and "xs \<noteq> []"
  shows "join_with xs \<noteq> []" "join_with xs \<noteq> ''.''" "join_with xs \<noteq> ''/''"  "\<not> IsAbs (join_with xs)"
    "join_with xs \<noteq> ''..''"
proof -
  obtain x ys where xs: "xs = x # ys" using assms(2) by (cases xs) auto
  then have x: "good_name x" using assms(1) by simp
  then obtain c cs where c: "x = c # cs" "c \<noteq> sep" by (cases x) (auto simp: good_name_def)
  have j: "\<exists>t. join_with xs = x @ t \<and> (t = [] \<or> hd t = sep)" by (cases ys) (auto simp: xs)
  then obtain t where t: "join_with xs = c # cs @ t" "t = [] \<or> hd t = sep" using c by auto
  show "join_with xs \<noteq> []" "join_with xs \<noteq> ''/''" using t c by (auto simp: sep_def)
  show "\<not> IsAbs (join_with xs)" using t c by (auto simp: IsAbs_def has_prefix_def sep_def)
  show "join_with xs \<noteq> ''.''" "join_with xs \<noteq> ''..''"
    using t c x by (auto simp: good_name_def sep_def append_eq_Cons_conv Cons_eq_append_conv)
qed

lemma Join_rel:
  assumes "list_all good_name xs" and "good_name n"
  shows "Join (if xs = [] then ''.'' else join_with xs) n = join_with (xs @ [n])"
proof -
  have ok: "join_with (xs @ [n]) \<noteq> []" "\<not> IsAbs (join_with (xs @ [n]))"
    using join_with_no_dots [of "xs @ [n]"] assms by auto
  have sp: "split_on (join_with (xs @ [n])) = xs @ [n]" using assms by (intro split_join) (auto simp: list_all_iff good_name_def)
  have c: "Clean (join_with (xs @ [n])) = join_with (xs @ [n])" using ok sp assms by (simp add: Clean_def Let_def)
  show ?thesis
  proof (cases "xs = []")
    case True
    have "split_on (''.'' @ sep # n) = [''.'', n]" using assms(2) by (simp add: sep_def split_on_plain [unfolded sep_def] good_name_def)
    moreover have "\<not> IsAbs (''.'' @ sep # n)" by (simp add: IsAbs_def has_prefix_def)
    ultimately show ?thesis using True assms(2) by (simp add: Join_all_def Clean_def Let_def good_name_def del: split_on.simps)
  next
    case False
    then have "join_with xs \<noteq> []" using join_with_no_dots assms(1) by blast
    then show ?thesis using False c by (simp add: Join_all_def join_with_append)
  qed
qed

lemma strip_common_prefix:
  "fst (strip_common xs ys) = [] \<longleftrightarrow> (\<exists>zs. ys = xs @ zs)"
  "fst (strip_common xs ys) = [] \<Longrightarrow> ys = xs @ snd (strip_common xs ys)"
  by (induction xs ys rule: strip_common.induct) (auto split: if_splits)

lemma strip_common_parts: "set (fst (strip_common xs ys)) \<subseteq> set xs" "set (snd (strip_common xs ys)) \<subseteq> set ys"
  by (induction xs ys rule: strip_common.induct) auto

lemma abs_path_inj: "list_all good_name xs \<Longrightarrow> list_all good_name ys \<Longrightarrow> abs_path xs = abs_path ys \<Longrightarrow> xs = ys"
  by (drule arg_cong [where f = split_on]) (auto simp: split_abs_path good_name_def split: if_splits)

lemma rel_elems_abs: "list_all good_name xs \<Longrightarrow> rel_elems (abs_path xs) = [] # xs"
proof -
  assume xs: "list_all good_name xs"
  have "xs \<noteq> [] \<Longrightarrow> abs_path xs \<noteq> ''/''" using join_with_no_dots(1) [OF xs] by (simp add: abs_path_def sep_def)
  moreover have "abs_path [] = ''/''" by (simp add: abs_path_def sep_def)
  ultimately show ?thesis using xs by (auto simp: rel_elems_def split_abs_path)
qed

lemma Rel_abs:
  assumes "list_all good_name xs" and "list_all good_name ys"
  shows "Rel (abs_path xs) (abs_path ys) =
    (if ys = xs then Some ''.'' else
      Some (join_with (replicate (length (fst (strip_common xs ys))) ''..'' @ snd (strip_common xs ys))))"
proof (cases "ys = xs")
  case True
  then show ?thesis using assms by (simp add: Rel_def Let_def)
next
  case False
  then have ne: "abs_path ys \<noteq> abs_path xs" using abs_path_inj assms by blast
  have "abs_path xs \<noteq> ''.''" by (simp add: abs_path_def sep_def)
  moreover have "\<not> (fst (strip_common xs ys) \<noteq> [] \<and> hd (fst (strip_common xs ys)) = ''..'')"
  proof
    assume a: "fst (strip_common xs ys) \<noteq> [] \<and> hd (fst (strip_common xs ys)) = ''..''"
    then have "''..'' \<in> set (fst (strip_common xs ys))" by (metis hd_in_set)
    with strip_common_parts(1) assms(1) show False by (auto simp: list_all_iff good_name_def)
  qed
  ultimately show ?thesis using assms False ne
    by (cases "strip_common xs ys") (simp add: Rel_def Let_def rel_elems_abs)
qed

lemma Dir_abs:
  assumes "list_all good_name xs"
  shows "Dir (abs_path xs) = abs_path (butlast xs)"
proof (cases xs rule: rev_cases)
  case Nil
  have "Clean ''/'' = abs_path []" using Clean_abs_path [of "[]"] by (simp add: abs_path_def sep_def)
  then show ?thesis using Nil by (simp add: Dir_def abs_path_def sep_def)
next
  case (snoc ys y)
  with assms have y: "good_name y" "list_all good_name ys" by auto
  then have ns: "sep \<notin> set y" by (simp add: good_name_def)
  obtain p where p: "abs_path xs = p @ sep # y" "split_on p = (if ys = [] then [[]] else [] # ys)"
  proof (cases "ys = []")
    case True
    then show thesis using snoc by (intro that [of "[]"]) (simp_all add: abs_path_def)
  next
    case False
    then have "split_on (abs_path ys) = [] # ys" using split_abs_path [OF y(2)] by simp
    then show thesis using False snoc by (intro that [of "abs_path ys"]) (simp_all add: abs_path_def join_with_append)
  qed
  have "dropWhile (\<lambda>c. c \<noteq> sep) (rev y @ sep # rev p) = sep # rev p"
    using ns by (subst dropWhile_append2) auto
  then have d: "Dir (abs_path xs) = Clean (p @ [sep])" by (simp add: Dir_def p(1))
  have "IsAbs (p @ [sep])" using p(1) by (cases p) (auto simp: abs_path_def)
  moreover have "split_on (p @ [sep]) = split_on p @ [[]]" for p by (induction p) (auto split: list.split)
  ultimately have "Clean (p @ [sep]) = abs_path ys"
    using p(2) y(2) clean_loop_good [OF y(2), of True "[]" "[[]]"] by (cases "ys = []") (simp_all add: Clean_def Let_def)
  with d snoc show ?thesis by simp
qed

end
