(* ===== verification/Policy.thy ===== *)
theory Policy
  imports Paths Runes
begin

text \<open>
  The hard path denylist: \<open>src/internal/policy/pathdeny.go\<close>.  Lower-casing maps ASCII letters
  itself and takes the mapping of the other runes (the tables of package unicode) as the argument
  \<open>uni\<close>.  A file system tree as fs.WalkDir sees it is an \<open>entry\<close>; a filesystem handle is the
  record \<open>FS\<close>, the operating system calls are the record \<open>OS\<close>, both constant during one decision.
  A returned triple of path, reason and error is a \<open>verdict\<close>: the path is non-empty exactly when the
  answer is a refusal.
\<close>

section \<open>The lexical rules\<close>

definition to_lower :: "(nat \<Rightarrow> nat) \<Rightarrow> nat \<Rightarrow> nat" where
  "to_lower uni r = (if 65 \<le> r \<and> r \<le> 90 then r + 32 else if r < 128 then r else uni r)"

definition ToLower :: "(nat \<Rightarrow> nat) \<Rightarrow> string \<Rightarrow> string" where
  "ToLower uni s = of_runes (map (to_lower uni) (runes s))"

text \<open>\<open>strings.EqualFold(s, ".claude")\<close>: no letter of the word has a fold outside ASCII.\<close>

definition ascii_lower :: "char \<Rightarrow> char" where
  "ascii_lower c = (if 65 \<le> byte c \<and> byte c \<le> 90 then char_of (byte c + 32) else c)"

definition fold_claude :: "string \<Rightarrow> bool" where
  "fold_claude s \<longleftrightarrow> map ascii_lower s = ''.claude''"

fun str_contains :: "string \<Rightarrow> string \<Rightarrow> bool" where
  "str_contains p [] = (p = [])"
| "str_contains p (c # s) = (has_prefix p (c # s) \<or> str_contains p s)"

datatype deny_reason =
    DSsh | DNetrc | DRegistry | DStore string | DConfig string | DCodex | DClaudeDir | DClaude string
  | DApproachToml | DCredential | DDotenv
  | DOutsideCwd | DEscapesCwd | DEscapesRoot | DNoReadLink | DUnreadableLink

definition switch_rule :: "(nat \<Rightarrow> nat) \<Rightarrow> string \<Rightarrow> string list \<Rightarrow> deny_reason option" where
  "switch_rule uni segment rest =
     (if segment = ''.ssh'' then Some DSsh
      else if segment = ''.netrc'' \<or> segment = ''_netrc'' then Some DNetrc
      else if segment = ''.npmrc'' \<or> segment = ''.pypirc'' then Some DRegistry
      else if segment = ''.aws'' \<or> segment = ''.docker'' \<or> segment = ''.kube'' \<or> segment = ''.gnupg'' then Some (DStore segment)
      else if segment = ''.config'' then
        (case rest of
           [] \<Rightarrow> None
         | x # _ \<Rightarrow> let next = ToLower uni x in if next = ''gh'' \<or> next = ''gcloud'' then Some (DConfig next) else None)
      else if segment = ''.codex'' then Some DCodex
      else if segment = ''.claude'' then
        (case rest of
           [] \<Rightarrow> Some DClaudeDir
         | x # _ \<Rightarrow> let next = ToLower uni x in
             if next = ''hooks'' \<or> next = ''skills'' \<or> has_prefix ''settings'' next then Some (DClaude next) else None)
      else if segment = ''approach.toml'' then Some DApproachToml
      else None)"

fun denied_loop :: "(nat \<Rightarrow> nat) \<Rightarrow> string list \<Rightarrow> deny_reason option" where
  "denied_loop uni [] = None"
| "denied_loop uni (x # rest) =
     (let segment = ToLower uni x in
      case switch_rule uni segment rest of
        Some why \<Rightarrow> Some why
      | None \<Rightarrow>
          if str_contains ''credential'' segment then Some DCredential
          else if segment = ''.env'' \<or> has_prefix ''.env.'' segment then Some DDotenv
          else denied_loop uni rest)"

definition DeniedPath :: "(nat \<Rightarrow> nat) \<Rightarrow> string \<Rightarrow> deny_reason option" where
  "DeniedPath uni path = denied_loop uni (split_on (Clean path))"

definition within :: "string \<Rightarrow> string \<Rightarrow> bool" where
  "within base p = (case Rel base p of None \<Rightarrow> False | Some rel \<Rightarrow> rel \<noteq> ''..'' \<and> \<not> has_prefix ''../'' rel)"

section \<open>Filesystems\<close>

text \<open>A directory carries whether it can be read and its entries in the order ReadDir gives them.\<close>

datatype "entry" = EFile | ELink | EDir bool "(string \<times> entry) list"

fun is_dir :: "entry \<Rightarrow> bool" where
  "is_dir (EDir _ _) = True"
| "is_dir _ = False"

record FS =
  fs_root :: "entry option"
  fs_links :: bool
  fs_ReadLink :: "string \<Rightarrow> string option"
  fs_Stat :: "string \<Rightarrow> bool option"
  fs_ReadDir :: "string \<Rightarrow> (string \<times> bool) list option"

record OS =
  os_Getwd :: "string option"
  os_Lstat :: "string \<Rightarrow> bool option"
  os_Readlink :: "string \<Rightarrow> string option"
  os_Stat :: "string \<Rightarrow> bool option"
  os_EvalSymlinks :: "string \<Rightarrow> string option"
  os_DirFS :: "string \<Rightarrow> FS"

datatype verdict = Allowed | Denied string deny_reason | PolicyError

record externalLink =
  el_source :: string
  el_sourceLogical :: string
  el_target :: string

record aliasDir =
  al_logical :: string
  al_targetRel :: string
  al_targetAbs :: string

section \<open>Aliases\<close>

fun alias_children :: "(nat \<Rightarrow> nat) \<Rightarrow> string \<Rightarrow> string \<Rightarrow> (string \<times> bool) list \<Rightarrow> verdict" where
  "alias_children uni targetAbs aliasLogical [] = Allowed"
| "alias_children uni targetAbs aliasLogical ((name, isdir) # es) =
     (if isdir \<and> fold_claude name then alias_children uni targetAbs aliasLogical es
      else (case DeniedPath uni (Join aliasLogical name) of
              Some why \<Rightarrow> Denied (Join targetAbs name) why
            | None \<Rightarrow> alias_children uni targetAbs aliasLogical es))"

definition aliasDenies :: "(nat \<Rightarrow> nat) \<Rightarrow> FS \<Rightarrow> string \<Rightarrow> string \<Rightarrow> string \<Rightarrow> verdict" where
  "aliasDenies uni fsys targetRel targetAbs aliasLogical =
     (case fs_Stat fsys targetRel of
        None \<Rightarrow> PolicyError
      | Some isdir \<Rightarrow>
          if \<not> isdir then Allowed
          else (case fs_ReadDir fsys targetRel of
                  None \<Rightarrow> PolicyError
                | Some entries \<Rightarrow> alias_children uni targetAbs aliasLogical entries))"

fun alias_loop :: "(nat \<Rightarrow> nat) \<Rightarrow> FS \<Rightarrow> aliasDir list \<Rightarrow> verdict" where
  "alias_loop uni fsys [] = Allowed"
| "alias_loop uni fsys (a # as) =
     (case aliasDenies uni fsys (al_targetRel a) (al_targetAbs a) (al_logical a) of
        Allowed \<Rightarrow> alias_loop uni fsys as
      | v \<Rightarrow> v)"

section \<open>The walk\<close>

datatype walk_res = WGo "externalLink list" "aliasDir list" | WStop string deny_reason "externalLink list" | WErr

text \<open>The callback of WalkDir when it is given no error.\<close>

definition visit_link :: "(nat \<Rightarrow> nat) \<Rightarrow> FS \<Rightarrow> string \<Rightarrow> string \<Rightarrow> string \<Rightarrow> externalLink list \<Rightarrow> aliasDir list \<Rightarrow> walk_res" where
  "visit_link uni fsys physicalRoot logical p xs as =
     (let physical = Join physicalRoot p in
      if \<not> fs_links fsys then WStop physical DNoReadLink xs
      else (case fs_ReadLink fsys p of
          None \<Rightarrow> WStop physical DUnreadableLink xs
        | Some target \<Rightarrow>
            let absTarget = (if IsAbs target then Clean target else Clean (Join_all [physicalRoot, Dir p, target])) in
            (case DeniedPath uni absTarget of
               Some why \<Rightarrow> WStop physical why xs
             | None \<Rightarrow>
                 if within physicalRoot absTarget then
                   (case Rel physicalRoot absTarget of
                      None \<Rightarrow> WErr
                    | Some rel \<Rightarrow> WGo xs (as @ [\<lparr>al_logical = logical, al_targetRel = rel, al_targetAbs = absTarget\<rparr>]))
                 else WGo (xs @ [\<lparr>el_source = physical, el_sourceLogical = logical, el_target = absTarget\<rparr>]) as)))"

definition visit :: "(nat \<Rightarrow> nat) \<Rightarrow> FS \<Rightarrow> string \<Rightarrow> string \<Rightarrow> string \<Rightarrow> entry \<Rightarrow> externalLink list \<Rightarrow> aliasDir list \<Rightarrow> walk_res" where
  "visit uni fsys physicalRoot logicalRoot p e xs as =
     (if p = ''.'' then WGo xs as
      else
        let logical = Join logicalRoot p; physical = Join physicalRoot p in
        (case DeniedPath uni logical of
           Some why \<Rightarrow>
             if \<not> is_dir e \<or> \<not> fold_claude (Base p) then WStop physical why xs
             else if e = ELink then visit_link uni fsys physicalRoot logical p xs as else WGo xs as
         | None \<Rightarrow> if e = ELink then visit_link uni fsys physicalRoot logical p xs as else WGo xs as))"

text \<open>\<open>fs.WalkDir\<close> from the entry named \<open>p\<close>; the callback turns an unreadable directory into an error.\<close>

fun walk_entry :: "(nat \<Rightarrow> nat) \<Rightarrow> FS \<Rightarrow> string \<Rightarrow> string \<Rightarrow> string \<Rightarrow> entry \<Rightarrow> externalLink list \<Rightarrow> aliasDir list \<Rightarrow> walk_res"
  and walk_list :: "(nat \<Rightarrow> nat) \<Rightarrow> FS \<Rightarrow> string \<Rightarrow> string \<Rightarrow> string \<Rightarrow> (string \<times> entry) list \<Rightarrow> externalLink list \<Rightarrow> aliasDir list \<Rightarrow> walk_res" where
  "walk_entry uni fsys ph lo p EFile xs as = visit uni fsys ph lo p EFile xs as"
| "walk_entry uni fsys ph lo p ELink xs as = visit uni fsys ph lo p ELink xs as"
| "walk_entry uni fsys ph lo p (EDir readable es) xs as =
     (case visit uni fsys ph lo p (EDir readable es) xs as of
        WGo xs' as' \<Rightarrow> if \<not> readable then WErr else walk_list uni fsys ph lo p es xs' as'
      | w \<Rightarrow> w)"
| "walk_list uni fsys ph lo p [] xs as = WGo xs as"
| "walk_list uni fsys ph lo p ((name, e) # es) xs as =
     (case walk_entry uni fsys ph lo (Join p name) e xs as of
        WGo xs' as' \<Rightarrow> walk_list uni fsys ph lo p es xs' as'
      | w \<Rightarrow> w)"

definition walkTreeLogical :: "(nat \<Rightarrow> nat) \<Rightarrow> FS \<Rightarrow> string \<Rightarrow> string \<Rightarrow> verdict \<times> externalLink list" where
  "walkTreeLogical uni fsys physicalRoot logicalRoot =
     (case DeniedPath uni logicalRoot of
        Some why \<Rightarrow> (Denied logicalRoot why, [])
      | None \<Rightarrow>
          (case fs_root fsys of
             None \<Rightarrow> (PolicyError, [])
           | Some e \<Rightarrow>
               (case walk_entry uni fsys physicalRoot logicalRoot ''.'' e [] [] of
                  WErr \<Rightarrow> (PolicyError, [])
                | WStop path why xs \<Rightarrow> (Denied path why, xs)
                | WGo xs as \<Rightarrow> (alias_loop uni fsys as, xs))))"

definition walkTree :: "(nat \<Rightarrow> nat) \<Rightarrow> FS \<Rightarrow> string \<Rightarrow> verdict \<times> externalLink list" where
  "walkTree uni fsys root = walkTreeLogical uni fsys root root"

definition DeniedDescendant :: "(nat \<Rightarrow> nat) \<Rightarrow> FS \<Rightarrow> string \<Rightarrow> verdict" where
  "DeniedDescendant uni fsys root =
     (case walkTree uni fsys root of
        (Allowed, []) \<Rightarrow> Allowed
      | (Allowed, e # _) \<Rightarrow> Denied (el_source e) DEscapesRoot
      | (v, _) \<Rightarrow> v)"

section \<open>Resolution with every spelling\<close>

definition hop_cap :: nat where "hop_cap = 255"

function spell_loop :: "OS \<Rightarrow> string \<Rightarrow> string list \<Rightarrow> nat \<Rightarrow> string list \<Rightarrow> string list option" where
  "spell_loop os resolved [] hops spellings = Some (spellings @ [resolved])"
| "spell_loop os resolved (cpt # rest) hops spellings =
     (if cpt = [] \<or> cpt = ''.'' then spell_loop os resolved rest hops spellings
      else if cpt = ''..'' then spell_loop os (Dir resolved) rest hops spellings
      else
        let next = Join resolved cpt in
        (case os_Lstat os next of
           None \<Rightarrow> None
         | Some symlink \<Rightarrow>
             if \<not> symlink then spell_loop os next rest hops spellings
             else if Suc hops > hop_cap then None
             else (case os_Readlink os next of
                 None \<Rightarrow> None
               | Some target \<Rightarrow>
                   let resolved' = (if IsAbs target then ''/'' else resolved); rest' = split_on target @ rest in
                   spell_loop os resolved' rest' (Suc hops) (spellings @ [Join_all (resolved' # rest')]))))"
  by pat_completeness auto
termination
  by (relation "inv_image (less_than <*lex*> less_than) (\<lambda>(os, resolved, rest, hops, spellings). (hop_cap - hops, length rest))") auto

definition rootSpellings :: "OS \<Rightarrow> string \<Rightarrow> string list option" where
  "rootSpellings os root = spell_loop os ''/'' (split_on root) 0 [Clean root]"

section \<open>The entry point\<close>

record walkItem =
  wi_physical :: string
  wi_logical :: string

definition filepath_Abs :: "OS \<Rightarrow> string \<Rightarrow> string option" where
  "filepath_Abs os p =
     (if IsAbs p then Some (Clean p) else (case os_Getwd os of None \<Rightarrow> None | Some wd \<Rightarrow> Some (Join wd p)))"

fun first_denied :: "(nat \<Rightarrow> nat) \<Rightarrow> string list \<Rightarrow> deny_reason option" where
  "first_denied uni [] = None"
| "first_denied uni (s # ss) = (case DeniedPath uni s of Some why \<Rightarrow> Some why | None \<Rightarrow> first_denied uni ss)"

text \<open>The loop over the links that leave the walked tree: a verdict, or the queue with the further roots.\<close>

fun ext_loop :: "(nat \<Rightarrow> nat) \<Rightarrow> OS \<Rightarrow> string \<Rightarrow> externalLink list \<Rightarrow> walkItem list \<Rightarrow> verdict + walkItem list" where
  "ext_loop uni os resolvedCwd [] queue = Inr queue"
| "ext_loop uni os resolvedCwd (e # es) queue =
     (case rootSpellings os (el_source e) of
        None \<Rightarrow> Inl PolicyError
      | Some spellings \<Rightarrow>
          let target = last spellings in
          if \<not> within resolvedCwd target then Inl (Denied (el_source e) DEscapesCwd)
          else (case DeniedPath uni (el_sourceLogical e) of
              Some why \<Rightarrow> Inl (Denied (el_source e) why)
            | None \<Rightarrow>
                (case first_denied uni spellings of
                   Some why \<Rightarrow> Inl (Denied (el_source e) why)
                 | None \<Rightarrow>
                     (case os_Stat os target of
                        None \<Rightarrow> Inl PolicyError
                      | Some isdir \<Rightarrow>
                          ext_loop uni os resolvedCwd es
                            (if isdir then queue @ map (\<lambda>s. \<lparr>wi_physical = target, wi_logical = s\<rparr>) (el_sourceLogical e # spellings)
                             else queue)))))"

partial_function (option) dir_loop :: "(nat \<Rightarrow> nat) \<Rightarrow> OS \<Rightarrow> string \<Rightarrow> string list \<Rightarrow> walkItem list \<Rightarrow> verdict option" where
  "dir_loop uni os resolvedCwd visited queue =
     (case queue of
        [] \<Rightarrow> Some Allowed
      | item # queue' \<Rightarrow>
          if wi_physical item \<in> set visited then
            (case aliasDenies uni (os_DirFS os (wi_physical item)) ''.'' (wi_physical item) (wi_logical item) of
               Allowed \<Rightarrow> dir_loop uni os resolvedCwd visited queue'
             | v \<Rightarrow> Some v)
          else
            (case walkTreeLogical uni (os_DirFS os (wi_physical item)) (wi_physical item) (wi_logical item) of
               (Allowed, externals) \<Rightarrow>
                 (case ext_loop uni os resolvedCwd externals queue' of
                    Inl v \<Rightarrow> Some v
                  | Inr queue'' \<Rightarrow> dir_loop uni os resolvedCwd (wi_physical item # visited) queue'')
             | (v, _) \<Rightarrow> Some v))"

declare dir_loop.simps [code]

fun root_aliases :: "(nat \<Rightarrow> nat) \<Rightarrow> OS \<Rightarrow> string \<Rightarrow> string list \<Rightarrow> verdict" where
  "root_aliases uni os resolvedRoot [] = Allowed"
| "root_aliases uni os resolvedRoot (s # ss) =
     (if s = resolvedRoot then root_aliases uni os resolvedRoot ss
      else (case DeniedPath uni s of
          Some why \<Rightarrow> Denied s why
        | None \<Rightarrow>
            (case aliasDenies uni (os_DirFS os resolvedRoot) ''.'' resolvedRoot s of
               Allowed \<Rightarrow> root_aliases uni os resolvedRoot ss
             | v \<Rightarrow> v)))"

definition DeniedDir :: "(nat \<Rightarrow> nat) \<Rightarrow> OS \<Rightarrow> string \<Rightarrow> string \<Rightarrow> verdict option" where
  "DeniedDir uni os cwd0 root0 =
     (case filepath_Abs os cwd0 of
        None \<Rightarrow> Some PolicyError
      | Some cwd \<Rightarrow>
          let root = (if IsAbs root0 then Clean root0 else Join cwd root0) in
          (case DeniedPath uni root of
             Some why \<Rightarrow> Some (Denied root why)
           | None \<Rightarrow>
               (case (os_EvalSymlinks os cwd, os_EvalSymlinks os root) of
                  (Some resolvedCwd, Some resolvedRoot) \<Rightarrow>
                    if \<not> within resolvedCwd resolvedRoot then Some (Denied root DOutsideCwd)
                    else (case rootSpellings os root of
                        None \<Rightarrow> Some PolicyError
                      | Some spellings \<Rightarrow>
                          (case root_aliases uni os resolvedRoot spellings of
                             Allowed \<Rightarrow> dir_loop uni os resolvedCwd [] [\<lparr>wi_physical = resolvedRoot, wi_logical = resolvedRoot\<rparr>]
                           | v \<Rightarrow> Some v))
                | _ \<Rightarrow> Some PolicyError)))"

section \<open>The rules, declaratively\<close>

definition own_rule :: "(nat \<Rightarrow> nat) \<Rightarrow> string \<Rightarrow> bool" where
  "own_rule uni x \<longleftrightarrow>
     ToLower uni x \<in> {''.ssh'', ''.netrc'', ''_netrc'', ''.npmrc'', ''.pypirc'', ''.aws'', ''.docker'', ''.kube'', ''.gnupg'',
       ''.codex'', ''approach.toml'', ''.env''} \<or>
     (\<exists>a b. ToLower uni x = a @ ''credential'' @ b) \<or> (\<exists>b. ToLower uni x = ''.env.'' @ b)"

definition pair_rule :: "(nat \<Rightarrow> nat) \<Rightarrow> string \<Rightarrow> string \<Rightarrow> bool" where
  "pair_rule uni x y \<longleftrightarrow>
     ToLower uni x = ''.config'' \<and> ToLower uni y \<in> {''gh'', ''gcloud''} \<or>
     ToLower uni x = ''.claude'' \<and> (ToLower uni y \<in> {''hooks'', ''skills''} \<or> (\<exists>b. ToLower uni y = ''settings'' @ b))"

definition denied_segs :: "(nat \<Rightarrow> nat) \<Rightarrow> string list \<Rightarrow> bool" where
  "denied_segs uni xs \<longleftrightarrow>
     (\<exists>x \<in> set xs. own_rule uni x) \<or> (\<exists>as x y bs. xs = as @ x # y # bs \<and> pair_rule uni x y) \<or>
     (xs \<noteq> [] \<and> ToLower uni (last xs) = ''.claude'')"

lemma str_contains_iff: "str_contains p s \<longleftrightarrow> (\<exists>a b. s = a @ p @ b)"
proof (induction s)
  case (Cons c s)
  show ?case
  proof
    assume "str_contains p (c # s)"
    then consider "has_prefix p (c # s)" | "str_contains p s" by auto
    then show "\<exists>a b. c # s = a @ p @ b"
    proof cases
      case 1
      then show ?thesis by (metis append_Nil has_prefix_iff)
    next
      case 2
      with Cons.IH show ?thesis by (metis append_Cons)
    qed
  next
    assume "\<exists>a b. c # s = a @ p @ b"
    then obtain a b where ab: "c # s = a @ p @ b" by blast
    show "str_contains p (c # s)"
    proof (cases a)
      case Nil
      with ab have "has_prefix p (c # s)" unfolding has_prefix_iff by simp
      then show ?thesis by simp
    next
      case (Cons x a')
      with ab have "s = a' @ p @ b" by simp
      with Cons.IH show ?thesis by auto
    qed
  qed
qed auto

lemma ToLower_Nil [simp]: "ToLower uni [] = []"
  by (simp add: ToLower_def)

lemma switch_rule_iff:
  "switch_rule uni (ToLower uni x) rest \<noteq> None \<longleftrightarrow>
     ToLower uni x \<in> {''.ssh'', ''.netrc'', ''_netrc'', ''.npmrc'', ''.pypirc'', ''.aws'', ''.docker'', ''.kube'', ''.gnupg'',
       ''.codex'', ''approach.toml''} \<or>
     (case rest of [] \<Rightarrow> ToLower uni x = ''.claude'' | y # _ \<Rightarrow> pair_rule uni x y)"
  by (cases rest) (simp_all add: switch_rule_def pair_rule_def has_prefix_iff Let_def)

lemma denied_loop_step:
  "denied_loop uni (x # rest) \<noteq> None \<longleftrightarrow> own_rule uni x \<or>
     (case rest of [] \<Rightarrow> ToLower uni x = ''.claude'' | y # _ \<Rightarrow> pair_rule uni x y) \<or> denied_loop uni rest \<noteq> None"
proof (cases "switch_rule uni (ToLower uni x) rest")
  case None
  with switch_rule_iff [of uni x rest] show ?thesis
    by (auto simp: Let_def own_rule_def str_contains_iff has_prefix_iff)
next
  case (Some why)
  with switch_rule_iff [of uni x rest] show ?thesis by (auto simp: Let_def own_rule_def)
qed

lemma adjacent_Cons:
  "(\<exists>as a y bs. x # rest = as @ a # y # bs \<and> P a y) \<longleftrightarrow>
     (\<exists>y bs. rest = y # bs \<and> P x y) \<or> (\<exists>as a y bs. rest = as @ a # y # bs \<and> P a y)"
  (is "?l \<longleftrightarrow> ?r")
proof
  assume ?l
  then obtain as a y bs where e: "x # rest = as @ a # y # bs" "P a y" by blast
  show ?r
  proof (cases as)
    case Nil
    with e show ?r by simp
  next
    case (Cons c as')
    with e have "rest = as' @ a # y # bs" by simp
    with e(2) show ?r by blast
  qed
next
  assume ?r
  then show ?l
  proof
    assume "\<exists>y bs. rest = y # bs \<and> P x y"
    then show ?l by (metis append_Nil)
  next
    assume "\<exists>as a y bs. rest = as @ a # y # bs \<and> P a y"
    then show ?l by (metis append_Cons)
  qed
qed

lemma denied_segs_Cons:
  "denied_segs uni (x # rest) \<longleftrightarrow> own_rule uni x \<or>
     (case rest of [] \<Rightarrow> ToLower uni x = ''.claude'' | y # _ \<Rightarrow> pair_rule uni x y) \<or> denied_segs uni rest"
  unfolding denied_segs_def adjacent_Cons by (cases rest) auto

lemma denied_loop_iff: "denied_loop uni xs \<noteq> None \<longleftrightarrow> denied_segs uni xs"
proof (induction xs)
  case Nil
  then show ?case by (simp add: denied_segs_def)
next
  case (Cons x xs)
  then show ?case unfolding denied_loop_step denied_segs_Cons by simp
qed

lemma denied_suffix: "denied_segs uni ys \<Longrightarrow> denied_segs uni (xs @ ys)"
  by (induction xs) (auto simp: denied_segs_Cons)

text \<open>The context rules span one segment and its child, so a split path is denied through its two
  halves or through the pair that meets at the split.\<close>

lemma denied_split:
  assumes "denied_segs uni (xs @ y # ys)"
  shows "denied_segs uni xs \<or> (xs \<noteq> [] \<and> pair_rule uni (last xs) y) \<or> denied_segs uni (y # ys)"
  using assms
proof (induction xs)
  case (Cons x xs)
  then show ?case by (cases xs) (auto simp: denied_segs_Cons)
qed simp

lemma pair_denied:
  assumes "xs \<noteq> []" and "pair_rule uni (last xs) y"
  shows "denied_segs uni (xs @ [y])"
proof -
  have "xs @ [y] = butlast xs @ last xs # y # []" using assms(1) by simp
  with assms(2) show ?thesis unfolding denied_segs_def by blast
qed

lemma empty_segment: "\<not> own_rule uni []" "\<not> pair_rule uni [] y"
  by (simp_all add: own_rule_def pair_rule_def)

lemma denied_segs_empty: "denied_segs uni ([] # ys) \<longleftrightarrow> denied_segs uni ys" "\<not> denied_segs uni []"
proof -
  show "\<not> denied_segs uni []" by (simp add: denied_segs_def)
  show "denied_segs uni ([] # ys) \<longleftrightarrow> denied_segs uni ys"
    by (cases ys) (simp_all add: denied_segs_Cons empty_segment)
qed

lemma DeniedPath_abs:
  assumes "list_all good_name xs"
  shows "DeniedPath uni (abs_path xs) = None \<longleftrightarrow> \<not> denied_segs uni xs"
proof -
  have "denied_segs uni (split_on (abs_path xs)) \<longleftrightarrow> denied_segs uni xs"
    using assms by (simp add: split_abs_path denied_segs_empty)
  with denied_loop_iff [of uni "split_on (abs_path xs)"] have "denied_loop uni (split_on (abs_path xs)) = None \<longleftrightarrow> \<not> denied_segs uni xs"
    by blast
  with assms show ?thesis by (simp add: DeniedPath_def)
qed

lemma ToLower_ascii: "\<forall>c \<in> set s. byte c < 128 \<Longrightarrow> ToLower uni s = map ascii_lower s"
proof (induction s)
  case (Cons c s)
  have "runes (c # s) = byte c # runes s" using Cons.prems by (simp add: decode_rune_def)
  moreover have "encode_rune (to_lower uni (byte c)) = [ascii_lower c]"
    using Cons.prems by (auto simp: to_lower_def encode_rune_def ascii_lower_def)
  ultimately show ?case using Cons by (simp add: ToLower_def)
qed simp

lemma fold_claude_lower: "fold_claude s \<Longrightarrow> ToLower uni s = ''.claude''"
proof -
  assume f: "fold_claude s"
  have "byte c < 128" if "c \<in> set s" for c
  proof -
    have "ascii_lower c \<in> set ''.claude''" using f that unfolding fold_claude_def by (metis image_eqI list.set_map)
    then have "byte (ascii_lower c) < 128" by auto
    then show ?thesis by (auto simp: ascii_lower_def split: if_splits)
  qed
  then show ?thesis using f by (simp add: ToLower_ascii fold_claude_def)
qed

lemma claude_pair: "fold_claude y \<Longrightarrow> \<not> pair_rule uni x y"
  by (simp add: pair_rule_def fold_claude_lower)

section \<open>Properties\<close>

text \<open>
  C28: the denylist is exactly its rules.  A path is refused if and only if, after cleaning, some segment
  is refused by its own name (case-insensitively), or two adjacent segments form a context rule
  (.config with gh or gcloud, .claude with hooks, skills or settings), or the path ends in .claude.  The
  rules need nothing beyond a segment and its child: a path cut in two is refused through one of its
  halves or through the pair at the cut, which is what lets an alias be judged by one level of children.
\<close>

theorem DeniedPath_reference:
  "(DeniedPath uni path \<noteq> None \<longleftrightarrow> denied_segs uni (split_on (Clean path))) \<and>
   (denied_segs uni (xs @ y # ys) \<longrightarrow> denied_segs uni xs \<or> denied_segs uni (xs @ [y]) \<or> denied_segs uni (y # ys)) \<and>
   (denied_segs uni (y # ys) \<longrightarrow> denied_segs uni (xs @ y # ys))"
proof -
  have "denied_segs uni xs \<or> denied_segs uni (xs @ [y]) \<or> denied_segs uni (y # ys)" if "denied_segs uni (xs @ y # ys)"
    using denied_split [OF that] pair_denied by blast
  moreover have "DeniedPath uni path \<noteq> None \<longleftrightarrow> denied_segs uni (split_on (Clean path))"
    unfolding DeniedPath_def by (rule denied_loop_iff)
  ultimately show ?thesis using denied_suffix by blast
qed

theorem DeniedPath_reference_witness:
  "DeniedPath id ''/home/b/x/../.Config/gh'' \<noteq> None \<and> denied_segs id ([''home'', ''b''] @ ''.Config'' # [''gh''])"
proof -
  have d: "DeniedPath id ''/home/b/x/../.Config/gh'' \<noteq> None" by code_simp
  have c: "split_on (Clean ''/home/b/x/../.Config/gh'') = [[], ''home'', ''b'', ''.Config'', ''gh'']" by code_simp
  have "denied_segs id [[], ''home'', ''b'', ''.Config'', ''gh'']"
    using DeniedPath_reference [of id "''/home/b/x/../.Config/gh''" "[]" "[]" "[]"] d c by simp
  then have "denied_segs id ([''home'', ''b''] @ ''.Config'' # [''gh''])" by (simp add: denied_segs_empty)
  with d show ?thesis by blast
qed

end
