(* ===== verification/Policy_Walk.thy ===== *)
theory Policy_Walk
  imports Policy
begin

text \<open>
  What an allowing verdict of the recursive denylist check guarantees.  A tree is listed by
  \<open>entries\<close>, with the segments of each path; \<open>inspected\<close> is what one walk guarantees of it;
  \<open>reach\<close> is the least set of directories a recursive read can get to from the root through links
  that leave the tree they are in.
\<close>

section \<open>Listing a tree\<close>

fun entries :: "string list \<Rightarrow> entry \<Rightarrow> (string list \<times> entry) list"
  and entries_list :: "string list \<Rightarrow> (string \<times> entry) list \<Rightarrow> (string list \<times> entry) list" where
  "entries xs EFile = [(xs, EFile)]"
| "entries xs ELink = [(xs, ELink)]"
| "entries xs (EDir r es) = (xs, EDir r es) # entries_list xs es"
| "entries_list xs [] = []"
| "entries_list xs ((n, e) # es) = entries (xs @ [n]) e @ entries_list xs es"

definition rel_path :: "string list \<Rightarrow> string" where
  "rel_path xs = (if xs = [] then ''.'' else join_with xs)"

definition abs_target :: "string \<Rightarrow> string \<Rightarrow> string \<Rightarrow> string" where
  "abs_target physicalRoot p target =
     (if IsAbs target then Clean target else Clean (Join_all [physicalRoot, Dir p, target]))"

text \<open>A link of the tree whose target lies outside it.\<close>

definition leaves :: "FS \<Rightarrow> string \<Rightarrow> string list \<Rightarrow> bool" where
  "leaves fsys ph xs \<longleftrightarrow>
     (case fs_ReadLink fsys (rel_path xs) of None \<Rightarrow> False | Some t \<Rightarrow> \<not> within ph (abs_target ph (rel_path xs) t))"

text \<open>The carve-out: a real directory named .claude is judged by its children.\<close>

definition exempt :: "string list \<Rightarrow> entry \<Rightarrow> bool" where
  "exempt xs e \<longleftrightarrow> xs = [] \<or> (is_dir e \<and> fold_claude (last xs))"

definition entry_ok :: "(nat \<Rightarrow> nat) \<Rightarrow> FS \<Rightarrow> string \<Rightarrow> string \<Rightarrow> externalLink list \<Rightarrow> string list \<times> entry \<Rightarrow> bool" where
  "entry_ok uni fsys ph lo X e \<longleftrightarrow>
     (exempt (fst e) (snd e) \<or> DeniedPath uni (Join lo (rel_path (fst e))) = None) \<and>
     (fst e \<noteq> [] \<and> snd e = ELink \<longrightarrow>
        (\<exists>t. fs_ReadLink fsys (rel_path (fst e)) = Some t \<and> DeniedPath uni (abs_target ph (rel_path (fst e)) t) = None) \<and>
        (leaves fsys ph (fst e) \<longrightarrow> (\<exists>x \<in> set X. el_source x = Join ph (rel_path (fst e)))))"

lemma entry_ok_mono: "entry_ok uni fsys ph lo X e \<Longrightarrow> set X \<subseteq> set Y \<Longrightarrow> entry_ok uni fsys ph lo Y e"
  unfolding entry_ok_def by (meson subsetD)

lemma entries_self: "(xs, e) \<in> set (entries xs e)"
  by (cases e) auto

lemma rel_path_snoc: "list_all good_name (xs @ [n]) \<Longrightarrow> Join (rel_path xs) n = rel_path (xs @ [n])"
  by (simp add: rel_path_def Join_rel)

lemma rel_path_dot: "list_all good_name xs \<Longrightarrow> rel_path xs = ''.'' \<longleftrightarrow> xs = []"
  using join_with_no_dots(2) by (auto simp: rel_path_def)

lemma Base_rel_path: "list_all good_name xs \<Longrightarrow> xs \<noteq> [] \<Longrightarrow> Base (rel_path xs) = last xs"
  by (simp add: Base_def rel_path_def split_join good_no_sep)

section \<open>One walk\<close>

lemma visit_link_go:
  assumes "visit_link uni fsys ph logical p X A = WGo X' A'"
  shows "set X \<subseteq> set X'" "\<exists>t. fs_ReadLink fsys p = Some t \<and> DeniedPath uni (abs_target ph p t) = None"
    "\<forall>x \<in> set X'. x \<in> set X \<or> (el_source x = Join ph p \<and> el_sourceLogical x = logical)"
    "(\<exists>t. fs_ReadLink fsys p = Some t \<and> \<not> within ph (abs_target ph p t)) \<longrightarrow> (\<exists>x \<in> set X'. el_source x = Join ph p)"
  using assms by (auto simp: visit_link_def Let_def abs_target_def split: if_splits option.splits)

lemma visit_go:
  assumes "visit uni fsys ph lo (rel_path xs) e X A = WGo X' A'" and "list_all good_name xs"
  shows "set X \<subseteq> set X' \<and> entry_ok uni fsys ph lo X' (xs, e) \<and>
    (\<forall>x \<in> set X'. x \<in> set X \<or> (\<exists>p. el_source x = Join ph p \<and> el_sourceLogical x = Join lo p))"
proof (cases "xs = []")
  case True
  with assms(1) show ?thesis by (simp add: visit_def rel_path_def entry_ok_def exempt_def)
next
  case False
  have p: "rel_path xs \<noteq> ''.''" "Base (rel_path xs) = last xs"
    using False assms(2) by (simp_all add: rel_path_dot Base_rel_path)
  have ex: "exempt xs e \<or> DeniedPath uni (Join lo (rel_path xs)) = None"
    using assms(1) p by (auto simp: visit_def exempt_def Let_def split: option.splits if_splits)
  show ?thesis
  proof (cases "e = ELink")
    case True
    then have v: "visit_link uni fsys ph (Join lo (rel_path xs)) (rel_path xs) X A = WGo X' A'"
      using assms(1) p by (auto simp: visit_def Let_def split: option.splits if_splits)
    note g = visit_link_go [OF v]
    have "entry_ok uni fsys ph lo X' (xs, e)"
      using g(2,4) ex by (auto simp: entry_ok_def leaves_def split: option.splits)
    with g(1,3) show ?thesis by blast
  next
    case False
    then have "X' = X" using assms(1) p by (auto simp: visit_def Let_def split: option.splits if_splits)
    with ex False show ?thesis by (simp add: entry_ok_def)
  qed
qed

definition walk_good :: "(nat \<Rightarrow> nat) \<Rightarrow> FS \<Rightarrow> string \<Rightarrow> string \<Rightarrow> externalLink list \<Rightarrow> externalLink list \<Rightarrow> (string list \<times> entry) list \<Rightarrow> bool" where
  "walk_good uni fsys ph lo X X' es \<longleftrightarrow>
     set X \<subseteq> set X' \<and> (\<forall>e \<in> set es. entry_ok uni fsys ph lo X' e) \<and>
     (\<forall>x \<in> set X'. x \<in> set X \<or> (\<exists>p. el_source x = Join ph p \<and> el_sourceLogical x = Join lo p))"

lemma walk_good_append:
  assumes "walk_good uni fsys ph lo X Y es" and "walk_good uni fsys ph lo Y Z fs"
  shows "walk_good uni fsys ph lo X Z (es @ fs)"
  using assms entry_ok_mono unfolding walk_good_def by (simp add: ball_Un) (meson subset_trans)

lemma walk_go:
  "walk_entry uni fsys ph lo p e X A = WGo X' A' \<Longrightarrow> p = rel_path xs \<Longrightarrow>
     \<forall>f \<in> set (entries xs e). list_all good_name (fst f) \<Longrightarrow> walk_good uni fsys ph lo X X' (entries xs e)"
  "walk_list uni fsys ph lo p es X A = WGo X' A' \<Longrightarrow> p = rel_path xs \<Longrightarrow>
     \<forall>f \<in> set (entries_list xs es). list_all good_name (fst f) \<Longrightarrow> walk_good uni fsys ph lo X X' (entries_list xs es)"
proof (induction uni fsys ph lo p e X A and uni fsys ph lo p es X A arbitrary: xs X' A' and xs X' A' rule: walk_entry_walk_list.induct)
  case (1 uni fsys ph lo p X A)
  then have "visit uni fsys ph lo (rel_path xs) EFile X A = WGo X' A'" "list_all good_name xs" by simp_all
  from visit_go [OF this] show ?case by (simp add: walk_good_def)
next
  case (2 uni fsys ph lo p X A)
  then have "visit uni fsys ph lo (rel_path xs) ELink X A = WGo X' A'" "list_all good_name xs" by simp_all
  from visit_go [OF this] show ?case by (simp add: walk_good_def)
next
  case (3 uni fsys ph lo p r es X A)
  from 3(2) obtain Y B where v: "visit uni fsys ph lo p (EDir r es) X A = WGo Y B" and r: r
    and w: "walk_list uni fsys ph lo p es Y B = WGo X' A'"
    by (auto split: walk_res.splits if_splits)
  have xs: "list_all good_name xs" using 3(4) by simp
  have "walk_good uni fsys ph lo X Y [(xs, EDir r es)]"
    using visit_go [OF v [unfolded 3(3)] xs] by (simp add: walk_good_def)
  moreover have "walk_good uni fsys ph lo Y X' (entries_list xs es)"
    using 3(1) [OF v _ w 3(3)] r 3(4) by simp
  ultimately show ?case using walk_good_append by fastforce
next
  case (4 uni fsys ph lo p X A)
  then show ?case by (simp add: walk_good_def)
next
  case (5 uni fsys ph lo p name e es X A)
  from 5(3) obtain Y B where v: "walk_entry uni fsys ph lo (Join p name) e X A = WGo Y B"
    and w: "walk_list uni fsys ph lo p es Y B = WGo X' A'"
    by (auto split: walk_res.splits)
  have nm: "list_all good_name (xs @ [name])"
    using 5(5) [rule_format, of "(xs @ [name], e)"] entries_self [of "xs @ [name]" e] by simp
  have p: "Join p name = rel_path (xs @ [name])" unfolding 5(4) by (rule rel_path_snoc [OF nm])
  have "walk_good uni fsys ph lo X Y (entries (xs @ [name]) e)" using 5(1) [OF v p] 5(5) by simp
  moreover have "walk_good uni fsys ph lo Y X' (entries_list xs es)" using 5(2) [OF v w 5(4)] 5(5) by simp
  ultimately show ?case using walk_good_append by fastforce
qed

section \<open>Every spelling of a directory\<close>

text \<open>What the two ways of looking at a directory agree on: its tree has entry names, and reading it
  lists the children the walk visits.\<close>

definition fs_agrees :: "FS \<Rightarrow> bool" where
  "fs_agrees fsys \<longleftrightarrow>
     (case fs_root fsys of
        None \<Rightarrow> True
      | Some e \<Rightarrow>
          (\<forall>f \<in> set (entries [] e). list_all good_name (fst f)) \<and>
          (case e of
             EDir readable es \<Rightarrow> fs_Stat fsys ''.'' = Some True \<and> (readable \<longrightarrow> fs_ReadDir fsys ''.'' = Some (map (\<lambda>(n, c). (n, is_dir c)) es))
           | _ \<Rightarrow> True))"

definition tree_entries :: "FS \<Rightarrow> (string list \<times> entry) list" where
  "tree_entries fsys = (case fs_root fsys of None \<Rightarrow> [] | Some e \<Rightarrow> entries [] e)"

lemma walk_allowed:
  assumes "walkTreeLogical uni fsys ph lo = (Allowed, X)" and "fs_agrees fsys"
  shows "DeniedPath uni lo = None" "walk_good uni fsys ph lo [] X (tree_entries fsys)"
    "\<exists>e. fs_root fsys = Some e \<and> (\<forall>r es. e = EDir r es \<longrightarrow> r)"
proof -
  from assms(1) obtain e A where e: "DeniedPath uni lo = None" "fs_root fsys = Some e"
    "walk_entry uni fsys ph lo ''.'' e [] [] = WGo X A"
    by (auto simp: walkTreeLogical_def split: option.splits walk_res.splits)
  show "DeniedPath uni lo = None" by (rule e(1))
  show "walk_good uni fsys ph lo [] X (tree_entries fsys)"
    using walk_go(1) [OF e(3), of "[]"] assms(2) e(2) by (simp add: rel_path_def fs_agrees_def tree_entries_def)
  show "\<exists>e. fs_root fsys = Some e \<and> (\<forall>r es. e = EDir r es \<longrightarrow> r)"
    using e(2,3) by (auto split: walk_res.splits if_splits)
qed

lemma entries_prefix: "(\<forall>f \<in> set (entries xs e). \<exists>ys. fst f = xs @ ys)" "(\<forall>f \<in> set (entries_list xs es). \<exists>n c ys. (n, c) \<in> set es \<and> fst f = xs @ n # ys)"
proof (induction xs e and xs es rule: entries_entries_list.induct)
  case (5 xs n e es)
  have "\<exists>n' c ys. (n', c) \<in> set ((n, e) # es) \<and> fst f = xs @ n' # ys" if f: "f \<in> set (entries (xs @ [n]) e)" for f
  proof -
    from 5(1) f obtain ys where "fst f = (xs @ [n]) @ ys" by blast
    then show ?thesis by (intro exI [of _ n] exI [of _ e] exI [of _ ys]) simp
  qed
  moreover have "\<exists>n' c ys. (n', c) \<in> set ((n, e) # es) \<and> fst f = xs @ n' # ys" if "f \<in> set (entries_list xs es)" for f
    using 5(2) that by (metis list.set_intros(2))
  ultimately show ?case by (simp only: entries_list.simps set_append) blast
qed auto

lemma children_ok:
  "alias_children uni ta lo cs = Allowed \<Longrightarrow> (n, d) \<in> set cs \<Longrightarrow> (d \<and> fold_claude n) \<or> DeniedPath uni (Join lo n) = None"
  by (induction cs) (auto split: if_splits option.splits)

lemma alias_ok:
  assumes "aliasDenies uni fsys ''.'' ta lo = Allowed" and "fs_agrees fsys"
    and "fs_root fsys = Some (EDir True es)" and "(n, c) \<in> set es"
  shows "(is_dir c \<and> fold_claude n) \<or> DeniedPath uni (Join lo n) = None"
proof -
  have "fs_Stat fsys ''.'' = Some True" "fs_ReadDir fsys ''.'' = Some (map (\<lambda>(n, c). (n, is_dir c)) es)"
    using assms(2,3) by (simp_all add: fs_agrees_def)
  with assms(1) have "alias_children uni ta lo (map (\<lambda>(n, c). (n, is_dir c)) es) = Allowed" by (simp add: aliasDenies_def)
  from children_ok [OF this, of n "is_dir c"] assms(4) show ?thesis by force
qed

text \<open>A full walk under one spelling and the check of the children under another cover the tree under both.\<close>

lemma covered_under:
  assumes walk: "walkTreeLogical uni fsys ph lo = (Allowed, X)" and fs: "fs_agrees fsys"
    and lo: "clean_abs lo" and v: "clean_abs v" "DeniedPath uni v = None"
    and al: "aliasDenies uni fsys ''.'' ta v = Allowed"
    and e: "(xs, e) \<in> set (tree_entries fsys)" "\<not> exempt xs e"
  shows "DeniedPath uni (Join v (rel_path xs)) = None"
proof -
  from lo obtain L where L: "list_all good_name L" "lo = abs_path L" by (auto simp: clean_abs_def)
  from v(1) obtain V where V: "list_all good_name V" "v = abs_path V" by (auto simp: clean_abs_def)
  obtain y ys where xs: "xs = y # ys" using e(2) by (cases xs) (auto simp: exempt_def)
  from walk_allowed(3) [OF walk fs] e(1) obtain t where t: "fs_root fsys = Some t" "\<forall>r es. t = EDir r es \<longrightarrow> r" by blast
  have gs: "list_all good_name xs" using fs e(1) t(1) by (fastforce simp: fs_agrees_def tree_entries_def)
  have j: "Join (abs_path Z) (rel_path xs) = abs_path (Z @ xs)" if "list_all good_name Z" for Z
    using Join_names [OF that gs] xs by (simp add: rel_path_def)
  have good: "list_all good_name (Z @ xs)" if "list_all good_name Z" for Z using that gs by simp
  have "\<not> denied_segs uni (L @ xs)"
    using walk_allowed(2) [OF walk fs] e unfolding walk_good_def entry_ok_def
    by (fastforce simp: L j DeniedPath_abs [OF good [OF L(1)]])
  then have tail: "\<not> denied_segs uni (y # ys)" using denied_suffix xs by blast
  have "\<not> (V \<noteq> [] \<and> pair_rule uni (last V) y)"
  proof
    assume pr: "V \<noteq> [] \<and> pair_rule uni (last V) y"
    have "\<exists>es. t = EDir True es" using e(1) t xs by (cases t) (auto simp: tree_entries_def)
    then obtain es where es: "t = EDir True es" by blast
    have "(xs, e) \<in> set (entries_list [] es)" using e(1) t(1) es xs by (simp add: tree_entries_def)
    with entries_prefix(2) [of "[]" es] obtain c where c: "(y, c) \<in> set es" by (fastforce simp: xs)
    from alias_ok [OF al fs t(1) [unfolded es] c] show False
    proof
      assume "is_dir c \<and> fold_claude y"
      with pr claude_pair show False by blast
    next
      assume d: "DeniedPath uni (Join v y) = None"
      have y: "good_name y" using gs xs by simp
      have "\<not> denied_segs uni (V @ [y])"
        using d Join_name [OF V(1) y] DeniedPath_abs [of "V @ [y]" uni] V y by simp
      with pair_denied pr show False by blast
    qed
  qed
  moreover have "\<not> denied_segs uni V" using v(2) V DeniedPath_abs by blast
  ultimately have "\<not> denied_segs uni (V @ y # ys)" using denied_split tail by blast
  then show ?thesis using DeniedPath_abs [OF good [OF V(1)]] j [OF V(1)] V(2) xs by simp
qed

section \<open>Spellings\<close>

lemma Dir_clean_abs:
  assumes "clean_abs p"
  shows "clean_abs (Dir p)"
proof -
  from assms obtain xs where xs: "list_all good_name xs" "p = abs_path xs" by (auto simp: clean_abs_def)
  then have "list_all good_name (butlast xs)" by (auto simp: list_all_iff dest: in_set_butlastD)
  then show ?thesis unfolding xs(2) Dir_abs [OF xs(1)] clean_abs_def by blast
qed

lemma spell_loop_clean:
  "spell_loop os resolved rest hops sp = Some out \<Longrightarrow> clean_abs resolved \<Longrightarrow> \<forall>s \<in> set sp. clean_abs s \<Longrightarrow>
     out \<noteq> [] \<and> (\<forall>s \<in> set out. clean_abs s) \<and> length out \<le> length sp + 1 + (hop_cap - hops)"
proof (induction os resolved rest hops sp arbitrary: out rule: spell_loop.induct)
  case (1 os resolved hops sp)
  then show ?case by auto
next
  case (2 os resolved c rest hops sp)
  have d: "clean_abs (Dir resolved)" by (rule Dir_clean_abs [OF 2(6)])
  have j: "clean_abs (Join resolved c)" by (rule Join_clean_abs [OF 2(6)])
  show ?case
  proof (cases "c = [] \<or> c = ''.''")
    case True
    with 2 show ?thesis by simp
  next
    case n1: False
    show ?thesis
    proof (cases "c = ''..''")
      case True
      with 2(2) [OF n1 True _ d 2(7)] 2(5) n1 show ?thesis by simp
    next
      case n2: False
      from 2(5) n1 n2 obtain sy where sy: "os_Lstat os (Join resolved c) = Some sy"
        by (auto simp: Let_def split: option.splits)
      show ?thesis
      proof (cases sy)
        case False
        with 2(3) [OF n1 n2 refl sy _ _ j 2(7)] 2(5) n1 n2 sy show ?thesis by (simp add: Let_def)
      next
        case True
        with 2(5) n1 n2 sy obtain t where h: "\<not> Suc hops > hop_cap" and t: "os_Readlink os (Join resolved c) = Some t"
          by (auto simp: Let_def split: option.splits if_splits)
        let ?r = "if IsAbs t then ''/'' else resolved"
        let ?rest = "split_on t @ rest"
        have root: "clean_abs ''/''" unfolding clean_abs_def by (intro exI [of _ "[]"]) (simp add: abs_path_def sep_def)
        then have r: "clean_abs ?r" using 2(6) by simp
        then obtain R where R: "?r = abs_path R" by (auto simp: clean_abs_def)
        have "Join_all (?r # ?rest) = Clean (join_with (?r # ?rest))" by (simp add: Join_all_def R)
        moreover have "IsAbs (join_with (abs_path R # ?rest))" by (cases ?rest) (simp_all add: abs_path_def)
        ultimately have ja: "clean_abs (Join_all (?r # ?rest))" using R Clean_abs by simp
        with 2(4) [OF n1 n2 refl sy _ h t refl refl _ r] True 2(7) 2(5) n1 n2 sy h t show ?thesis by (simp add: Let_def) arith
      qed
    qed
  qed
qed

text \<open>No component of a physical path is a link.\<close>

definition physical :: "OS \<Rightarrow> string \<Rightarrow> bool" where
  "physical os p \<longleftrightarrow> (\<exists>xs. list_all good_name xs \<and> p = abs_path xs \<and>
     (\<forall>k. 0 < k \<and> k \<le> length xs \<longrightarrow> os_Lstat os (abs_path (take k xs)) = Some False))"

lemma physical_root: "physical os ''/''"
  unfolding physical_def by (intro exI [of _ "[]"]) (simp add: abs_path_def sep_def)

lemma physical_Dir:
  assumes "physical os p"
  shows "physical os (Dir p)"
proof -
  from assms obtain xs where xs: "list_all good_name xs" "p = abs_path xs"
    "\<forall>k. 0 < k \<and> k \<le> length xs \<longrightarrow> os_Lstat os (abs_path (take k xs)) = Some False" by (auto simp: physical_def)
  have "list_all good_name (butlast xs)" using xs(1) by (auto simp: list_all_iff dest: in_set_butlastD)
  moreover have "os_Lstat os (abs_path (take k (butlast xs))) = Some False" if "0 < k" "k \<le> length (butlast xs)" for k
    using xs(3) that by (simp add: butlast_conv_take min_absorb1)
  ultimately show ?thesis unfolding physical_def using xs(1,2) Dir_abs by blast
qed

lemma physical_Join:
  assumes "physical os p" and "good_name c" and "os_Lstat os (Join p c) = Some False"
  shows "physical os (Join p c)"
proof -
  from assms(1) obtain xs where xs: "list_all good_name xs" "p = abs_path xs"
    "\<forall>k. 0 < k \<and> k \<le> length xs \<longrightarrow> os_Lstat os (abs_path (take k xs)) = Some False" by (auto simp: physical_def)
  have j: "Join p c = abs_path (xs @ [c])" using Join_name xs(1,2) assms(2) by simp
  have "os_Lstat os (abs_path (take k (xs @ [c]))) = Some False" if "0 < k" "k \<le> length (xs @ [c])" for k
    using xs(3) that assms(3) j by (cases "k \<le> length xs") (auto simp: not_le less_Suc_eq_le le_Suc_eq)
  then show ?thesis unfolding physical_def j using xs(1) assms(2) by (intro exI [of _ "xs @ [c]"]) simp
qed

lemma spell_loop_physical:
  "spell_loop os resolved rest hops sp = Some out \<Longrightarrow> physical os resolved \<Longrightarrow> \<forall>c \<in> set rest. sep \<notin> set c \<Longrightarrow>
     physical os (last out) \<and> (\<exists>new. out = sp @ new)"
proof (induction os resolved rest hops sp arbitrary: out rule: spell_loop.induct)
  case (1 os resolved hops sp)
  then show ?case by auto
next
  case (2 os resolved c rest hops sp)
  have rest: "\<forall>c \<in> set rest. sep \<notin> set c" using 2(7) by simp
  show ?case
  proof (cases "c = [] \<or> c = ''.''")
    case True
    with 2 show ?thesis by simp
  next
    case n1: False
    show ?thesis
    proof (cases "c = ''..''")
      case True
      with 2(2) [OF n1 True _ physical_Dir [OF 2(6)] rest] 2(5) n1 show ?thesis by simp
    next
      case n2: False
      have c: "good_name c" using n1 n2 2(7) by (simp add: good_name_def)
      from 2(5) n1 n2 obtain sy where sy: "os_Lstat os (Join resolved c) = Some sy"
        by (auto simp: Let_def split: option.splits)
      show ?thesis
      proof (cases sy)
        case False
        with 2(3) [OF n1 n2 refl sy _ _ physical_Join [OF 2(6) c] rest] 2(5) n1 n2 sy show ?thesis by (simp add: Let_def)
      next
        case True
        with 2(5) n1 n2 sy obtain t where h: "\<not> Suc hops > hop_cap" and t: "os_Readlink os (Join resolved c) = Some t"
          by (auto simp: Let_def split: option.splits if_splits)
        let ?r = "if IsAbs t then ''/'' else resolved"
        have r: "physical os ?r" using physical_root 2(6) by simp
        have rs: "\<forall>c \<in> set (split_on t @ rest). sep \<notin> set c" using rest split_on_no_sep by auto
        from 2(4) [OF n1 n2 refl sy _ h t refl refl _ r rs] True 2(5) n1 n2 sy h t show ?thesis by (auto simp: Let_def)
      qed
    qed
  qed
qed

lemma rootSpellings_facts:
  assumes "rootSpellings os root = Some sp" and "IsAbs root"
  shows "sp \<noteq> []" "\<forall>s \<in> set sp. clean_abs s" "length sp \<le> 2 + hop_cap" "physical os (last sp)" "hd sp = Clean root"
proof -
  have s: "spell_loop os ''/'' (split_on root) 0 [Clean root] = Some sp" using assms(1) by (simp add: rootSpellings_def)
  have root: "clean_abs ''/''" using physical_root by (auto simp: physical_def clean_abs_def)
  have c: "\<forall>s \<in> set [Clean root]. clean_abs s" using Clean_abs [OF assms(2)] by simp
  from spell_loop_clean [OF s root c] show "sp \<noteq> []" "\<forall>s \<in> set sp. clean_abs s" "length sp \<le> 2 + hop_cap" by simp_all
  have "\<forall>c \<in> set (split_on root). sep \<notin> set c" using split_on_no_sep by blast
  from spell_loop_physical [OF s physical_root this] show "physical os (last sp)" "hd sp = Clean root" by auto
qed

section \<open>The queue of further roots\<close>

definition item_ok :: "(nat \<Rightarrow> nat) \<Rightarrow> OS \<Rightarrow> string \<Rightarrow> string \<Rightarrow> bool" where
  "item_ok uni os v lo \<longleftrightarrow> fst (walkTreeLogical uni (os_DirFS os v) v lo) = Allowed \<or> aliasDenies uni (os_DirFS os v) ''.'' v lo = Allowed"

definition ext_ok :: "(nat \<Rightarrow> nat) \<Rightarrow> OS \<Rightarrow> string \<Rightarrow> (walkItem \<Rightarrow> bool) \<Rightarrow> externalLink \<Rightarrow> bool" where
  "ext_ok uni os rc P x \<longleftrightarrow>
     (\<exists>sp isdir. rootSpellings os (el_source x) = Some sp \<and> within rc (last sp) \<and> (\<forall>s \<in> set sp. DeniedPath uni s = None) \<and>
        os_Stat os (last sp) = Some isdir \<and>
        (isdir \<longrightarrow> (\<forall>s \<in> set (el_sourceLogical x # sp). P \<lparr>wi_physical = last sp, wi_logical = s\<rparr>)))"

lemma ext_ok_mono: "ext_ok uni os rc P x \<Longrightarrow> (\<And>it. P it \<Longrightarrow> Q it) \<Longrightarrow> ext_ok uni os rc Q x"
  unfolding ext_ok_def by blast

lemma first_denied_None: "first_denied uni ss = None \<Longrightarrow> \<forall>s \<in> set ss. DeniedPath uni s = None"
  by (induction ss) (auto split: option.splits)

lemma ext_loop_Inr:
  "ext_loop uni os rc X q = Inr q' \<Longrightarrow> (\<forall>x \<in> set X. ext_ok uni os rc (\<lambda>it. it \<in> set q') x) \<and> set q \<subseteq> set q' \<and>
     (\<forall>it \<in> set q'. it \<in> set q \<or> (\<exists>x sp. x \<in> set X \<and> rootSpellings os (el_source x) = Some sp \<and> os_Stat os (wi_physical it) = Some True \<and>
        wi_physical it = last sp \<and> wi_logical it \<in> set (el_sourceLogical x # sp)))"
proof (induction X arbitrary: q)
  case (Cons x X)
  from Cons.prems obtain sp isdir where x: "rootSpellings os (el_source x) = Some sp" "within rc (last sp)"
    "first_denied uni sp = None" "os_Stat os (last sp) = Some isdir"
    and r: "ext_loop uni os rc X (if isdir then q @ map (\<lambda>s. \<lparr>wi_physical = last sp, wi_logical = s\<rparr>) (el_sourceLogical x # sp) else q) = Inr q'"
    by (auto simp: Let_def split: option.splits if_splits)
  note ih = Cons.IH [OF r]
  have here: "\<forall>s \<in> set (el_sourceLogical x # sp). \<lparr>wi_physical = last sp, wi_logical = s\<rparr> \<in> set q'" if isdir
  proof -
    have "set (map (\<lambda>s. \<lparr>wi_physical = last sp, wi_logical = s\<rparr>) (el_sourceLogical x # sp)) \<subseteq> set q'" using ih that by simp
    then show ?thesis unfolding set_map by blast
  qed
  have e: "ext_ok uni os rc (\<lambda>it. it \<in> set q') x"
    unfolding ext_ok_def using x(1,2,4) first_denied_None [OF x(3)] here by (intro exI [of _ sp] exI [of _ isdir] conjI impI) auto
  have sub: "set q \<subseteq> set q'" using ih by (auto split: if_splits)
  have "it \<in> set q \<or> (\<exists>y sp. y \<in> set (x # X) \<and> rootSpellings os (el_source y) = Some sp \<and> os_Stat os (wi_physical it) = Some True \<and>
        wi_physical it = last sp \<and> wi_logical it \<in> set (el_sourceLogical y # sp))" if it: "it \<in> set q'" for it
  proof (cases "it \<in> set (if isdir then q @ map (\<lambda>s. \<lparr>wi_physical = last sp, wi_logical = s\<rparr>) (el_sourceLogical x # sp) else q)")
    case True
    show ?thesis
    proof (cases "it \<in> set q")
      case False
      with True have d: isdir and "it \<in> (\<lambda>s. \<lparr>wi_physical = last sp, wi_logical = s\<rparr>) ` set (el_sourceLogical x # sp)"
        by (auto split: if_splits)
      then obtain s where "s \<in> set (el_sourceLogical x # sp)" "it = \<lparr>wi_physical = last sp, wi_logical = s\<rparr>" by blast
      with x(1,4) d show ?thesis by (intro disjI2 exI [of _ x] exI [of _ sp]) simp
    qed simp
  next
    case False
    with ih it show ?thesis by (metis list.set_intros(2))
  qed
  with ih e sub show ?case by simp
qed simp

definition clean_item :: "walkItem \<Rightarrow> bool" where
  "clean_item it \<longleftrightarrow> clean_abs (wi_physical it) \<and> clean_abs (wi_logical it)"

definition handled :: "(nat \<Rightarrow> nat) \<Rightarrow> OS \<Rightarrow> string set \<Rightarrow> walkItem \<Rightarrow> bool" where
  "handled uni os W it \<longleftrightarrow> wi_physical it \<in> W \<and> item_ok uni os (wi_physical it) (wi_logical it)"

definition walked :: "(nat \<Rightarrow> nat) \<Rightarrow> OS \<Rightarrow> string \<Rightarrow> string set \<Rightarrow> string \<Rightarrow> bool" where
  "walked uni os rc W v \<longleftrightarrow> clean_abs v \<and> (\<exists>lo X. clean_abs lo \<and> walkTreeLogical uni (os_DirFS os v) v lo = (Allowed, X) \<and>
     (\<forall>x \<in> set X. ext_ok uni os rc (handled uni os W) x))"

lemma clean_abs_IsAbs: "clean_abs p \<Longrightarrow> IsAbs p"
  by (auto simp: clean_abs_def)

lemma walk_externals:
  assumes "walkTreeLogical uni fsys ph lo = (Allowed, X)" and "fs_agrees fsys" and "clean_abs ph" and "clean_abs lo" and "x \<in> set X"
  shows "clean_abs (el_source x)" "clean_abs (el_sourceLogical x)"
  using walk_allowed(2) [OF assms(1,2)] assms(3-5) Join_clean_abs unfolding walk_good_def by fastforce+

lemma ext_items_clean:
  assumes "ext_loop uni os rc X q = Inr q'" and "\<forall>it \<in> set q. clean_item it"
    and "\<forall>x \<in> set X. clean_abs (el_source x) \<and> clean_abs (el_sourceLogical x)" and "it \<in> set q'"
  shows "clean_item it"
proof (cases "it \<in> set q")
  case True
  with assms(2) show ?thesis by blast
next
  case False
  with ext_loop_Inr [OF assms(1)] assms(4) obtain x sp where x: "x \<in> set X" "rootSpellings os (el_source x) = Some sp"
    "wi_physical it = last sp" "wi_logical it \<in> set (el_sourceLogical x # sp)" by blast
  note f = rootSpellings_facts [OF x(2) clean_abs_IsAbs]
  have "clean_abs (el_source x)" "clean_abs (el_sourceLogical x)" using assms(3) x(1) by blast+
  with f(1,2) x(3,4) show ?thesis by (auto simp: clean_item_def)
qed

lemma ext_loop_refuses: "ext_loop uni os rc X q \<noteq> Inl Allowed"
  by (induction X arbitrary: q) (auto simp: Let_def split: option.split)

lemma dir_loop_sound:
  "dir_loop uni os rc visited queue = Some r \<Longrightarrow> r = Allowed \<Longrightarrow> \<forall>it \<in> set queue. clean_item it \<Longrightarrow>
    \<forall>p. fs_agrees (os_DirFS os p) \<Longrightarrow> \<exists>W. set visited \<subseteq> W \<and> (\<forall>it \<in> set queue. handled uni os W it) \<and> (\<forall>v \<in> W - set visited. walked uni os rc W v)"
proof (induction uni os rc visited queue r rule: dir_loop.raw_induct [rotated, consumes 1, case_names 1])
  case (1 dl uni os rc visited queue r)
  show ?case
  proof (cases queue)
    case Nil
    then show ?thesis by (intro exI [of _ "set visited"]) simp
  next
    case (Cons it q)
    have it: "clean_item it" "\<forall>it \<in> set q. clean_item it" using 1(4) Cons by simp_all
    show ?thesis
    proof (cases "wi_physical it \<in> set visited")
      case True
      with 1(2,3) Cons have al: "aliasDenies uni (os_DirFS os (wi_physical it)) ''.'' (wi_physical it) (wi_logical it) = Allowed"
        and rec: "dl uni os rc visited q = Some r" by (auto split: verdict.splits)
      from 1(1) [OF rec 1(3) it(2) 1(5)] obtain W where W: "set visited \<subseteq> W" "\<forall>it \<in> set q. handled uni os W it"
        "\<forall>v \<in> W - set visited. walked uni os rc W v" by blast
      have "handled uni os W it" using W(1) True al by (auto simp: handled_def item_ok_def)
      with W Cons show ?thesis by auto
    next
      case False
      with 1(2,3) Cons obtain X q' where w: "walkTreeLogical uni (os_DirFS os (wi_physical it)) (wi_physical it) (wi_logical it) = (Allowed, X)"
        and e: "ext_loop uni os rc X q = Inr q'" and rec: "dl uni os rc (wi_physical it # visited) q' = Some r"
        using ext_loop_refuses by (auto split: verdict.splits prod.splits sum.splits)
      have c: "clean_abs (wi_physical it)" "clean_abs (wi_logical it)" using it(1) by (simp_all add: clean_item_def)
      have fs: "fs_agrees (os_DirFS os (wi_physical it))" using 1(5) by blast
      have xs: "\<forall>x \<in> set X. clean_abs (el_source x) \<and> clean_abs (el_sourceLogical x)"
        using walk_externals [OF w fs c] by blast
      have q': "\<forall>it \<in> set q'. clean_item it" using ext_items_clean [OF e it(2) xs] by blast
      from 1(1) [OF rec 1(3) q' 1(5)] obtain W where W: "set (wi_physical it # visited) \<subseteq> W" "\<forall>it \<in> set q'. handled uni os W it"
        "\<forall>v \<in> W - set (wi_physical it # visited). walked uni os rc W v" by blast
      note el = ext_loop_Inr [OF e]
      have "\<forall>x \<in> set X. ext_ok uni os rc (handled uni os W) x"
        using el W(2) ext_ok_mono [of uni os rc "\<lambda>it. it \<in> set q'" _ "handled uni os W"] by blast
      then have "walked uni os rc W (wi_physical it)" using w c unfolding walked_def by blast
      moreover have "handled uni os W it" using W(1) w by (simp add: handled_def item_ok_def)
      ultimately show ?thesis using W el Cons by (intro exI [of _ W]) auto
    qed
  qed
qed

text \<open>The walk of the queue ends: every full walk visits a new directory of the machine.\<close>

lemma dir_loop_returns:
  assumes "finite D" and "{t. os_Stat os t = Some True} \<subseteq> D" and "\<forall>it \<in> set queue. wi_physical it \<in> D"
  shows "\<exists>r. dir_loop uni os rc visited queue = Some r"
  using assms(3)
proof (induction "(card (D - set visited), length queue)" arbitrary: visited queue rule: wf_induct_rule [OF wf_lex_prod [OF wf_less_than wf_less_than]])
  case (1 visited queue)
  show ?case
  proof (cases queue)
    case Nil
    then show ?thesis by (subst dir_loop.simps) simp
  next
    case (Cons it q)
    have q: "\<forall>it \<in> set q. wi_physical it \<in> D" using 1(2) Cons by simp
    show ?thesis
    proof (cases "wi_physical it \<in> set visited")
      case True
      have "\<exists>r. dir_loop uni os rc visited q = Some r" using 1(1) [OF _ q, of visited] Cons by simp
      then show ?thesis using True Cons by (subst dir_loop.simps) (simp split: verdict.split)
    next
      case False
      obtain v X where w: "walkTreeLogical uni (os_DirFS os (wi_physical it)) (wi_physical it) (wi_logical it) = (v, X)" by fastforce
      have more: "\<exists>r. dir_loop uni os rc (wi_physical it # visited) q' = Some r" if e: "ext_loop uni os rc X q = Inr q'" for q'
      proof -
        have "\<forall>it \<in> set q'. wi_physical it \<in> D" using ext_loop_Inr [OF e] q assms(2) by blast
        moreover have "D - set (wi_physical it # visited) \<subset> D - set visited" using False 1(2) Cons by auto
        then have "card (D - set (wi_physical it # visited)) < card (D - set visited)" using assms(1) by (intro psubset_card_mono) auto
        ultimately show ?thesis using 1(1) [of "wi_physical it # visited" q'] by simp
      qed
      show ?thesis using False Cons w more by (subst dir_loop.simps) (simp split: verdict.split sum.split)
    qed
  qed
qed

section \<open>Reachable directories\<close>

inductive reach :: "OS \<Rightarrow> string \<Rightarrow> string \<Rightarrow> bool" for os root where
  here: "reach os root root"
| there: "reach os root v \<Longrightarrow> (xs, ELink) \<in> set (tree_entries (os_DirFS os v)) \<Longrightarrow> xs \<noteq> [] \<Longrightarrow> leaves (os_DirFS os v) v xs \<Longrightarrow>
    rootSpellings os (Join v (rel_path xs)) = Some sp \<Longrightarrow> os_Stat os (last sp) = Some True \<Longrightarrow> reach os root (last sp)"

lemma walked_entry:
  assumes "walked uni os rc W v" and "fs_agrees (os_DirFS os v)" and "(xs, e) \<in> set (tree_entries (os_DirFS os v))"
    and "xs \<noteq> []" and "e = ELink"
  shows "\<exists>t. fs_ReadLink (os_DirFS os v) (rel_path xs) = Some t \<and> DeniedPath uni (abs_target v (rel_path xs) t) = None"
    "leaves (os_DirFS os v) v xs \<Longrightarrow> \<exists>x. el_source x = Join v (rel_path xs) \<and> ext_ok uni os rc (handled uni os W) x"
proof -
  from assms(1) obtain lo X where w: "walkTreeLogical uni (os_DirFS os v) v lo = (Allowed, X)"
    and x: "\<forall>x \<in> set X. ext_ok uni os rc (handled uni os W) x" by (auto simp: walked_def)
  have ok: "entry_ok uni (os_DirFS os v) v lo X (xs, e)" using walk_allowed(2) [OF w assms(2)] assms(3) by (auto simp: walk_good_def)
  with assms(4,5) show "\<exists>t. fs_ReadLink (os_DirFS os v) (rel_path xs) = Some t \<and> DeniedPath uni (abs_target v (rel_path xs) t) = None"
    by (auto simp: entry_ok_def)
  assume "leaves (os_DirFS os v) v xs"
  with ok assms(4,5) x show "\<exists>x. el_source x = Join v (rel_path xs) \<and> ext_ok uni os rc (handled uni os W) x"
    unfolding entry_ok_def by fastforce
qed

lemma reach_handled:
  assumes "reach os root v" and fs: "\<forall>p. fs_agrees (os_DirFS os p)"
    and W: "\<forall>v \<in> W. walked uni os rc W v"
    and r: "handled uni os W \<lparr>wi_physical = root, wi_logical = root\<rparr>" "DeniedPath uni root = None" "within rc root"
  shows "v \<in> W \<and> item_ok uni os v v \<and> DeniedPath uni v = None \<and> within rc v"
  using assms(1)
proof induction
  case here
  then show ?case using r by (simp add: handled_def)
next
  case (there v xs sp)
  then have v: "v \<in> W" by blast
  with W have wv: "walked uni os rc W v" by blast
  from walked_entry(2) [OF wv _ there(2,3) refl there(4)] fs obtain x where x: "el_source x = Join v (rel_path xs)"
    "ext_ok uni os rc (handled uni os W) x" by blast
  have "IsAbs (Join v (rel_path xs))" using wv Join_clean_abs clean_abs_IsAbs by (auto simp: walked_def)
  from rootSpellings_facts(1) [OF there(5) this] have "sp \<noteq> []" .
  then have l: "last sp \<in> set sp" by simp
  from x(2) [unfolded ext_ok_def x(1) there(5)] there(6) have
    "within rc (last sp)" "\<forall>s \<in> set sp. DeniedPath uni s = None" "\<forall>s \<in> set sp. handled uni os W \<lparr>wi_physical = last sp, wi_logical = s\<rparr>"
    by auto
  with l show ?case by (auto simp: handled_def)
qed

section \<open>Properties\<close>

lemma DeniedDir_allowed:
  assumes "DeniedDir uni os cwd root = Some Allowed"
  obtains c rc rr where "filepath_Abs os cwd = Some c" "os_EvalSymlinks os c = Some rc"
    "os_EvalSymlinks os (if IsAbs root then Clean root else Join c root) = Some rr" "within rc rr"
    "dir_loop uni os rc [] [\<lparr>wi_physical = rr, wi_logical = rr\<rparr>] = Some Allowed"
  using assms by (auto simp: DeniedDir_def Let_def split: option.splits prod.splits if_splits verdict.splits)


text \<open>A working directory with a read root, a sibling directory and a link from the one to the other.\<close>

definition ex_fs :: "(string \<times> entry) list \<Rightarrow> FS" where
  "ex_fs es = \<lparr>fs_root = Some (EDir True es), fs_links = True, fs_ReadLink = (\<lambda>p. if p = ''l'' then Some ''../b'' else None),
     fs_Stat = (\<lambda>p. Some (p = ''.'')), fs_ReadDir = (\<lambda>p. if p = ''.'' then Some (map (\<lambda>(n, c). (n, is_dir c)) es) else None)\<rparr>"

definition ex_os :: OS where
  "ex_os = \<lparr>os_Getwd = Some ''/'', os_Lstat = (\<lambda>p. Some (p = ''/w/a/l'')),
     os_Readlink = (\<lambda>p. if p = ''/w/a/l'' then Some ''../b'' else None), os_Stat = (\<lambda>p. Some (p = ''/w/b'')),
     os_EvalSymlinks = (\<lambda>p. if p = ''/w'' \<or> p = ''/w/a'' then Some p else None),
     os_DirFS = (\<lambda>p. if p = ''/w/a'' then ex_fs [(''f'', EFile), (''l'', ELink)] else ex_fs [(''g'', EFile)])\<rparr>"

lemma ex_DeniedDir: "DeniedDir id ex_os ''/w'' ''a'' = Some Allowed"
  by code_simp

lemma ex_os_ok: "\<forall>p. fs_agrees (os_DirFS ex_os p)" "\<forall>p q. os_EvalSymlinks ex_os p = Some q \<longrightarrow> clean_abs q"
proof -
  show "\<forall>p. fs_agrees (os_DirFS ex_os p)"
    by (simp add: ex_os_def ex_fs_def fs_agrees_def good_name_def sep_def)
  have "clean_abs ''/w''" "clean_abs ''/w/a''" unfolding clean_abs_def
    by (intro exI [of _ "[''w'']"] exI [of _ "[''w'', ''a'']"], simp add: abs_path_def good_name_def sep_def)+
  then show "\<forall>p q. os_EvalSymlinks ex_os p = Some q \<longrightarrow> clean_abs q" by (auto simp: ex_os_def)
qed


text \<open>
  C27: the recursive check always answers.  On a machine with finitely many directories it returns a
  verdict, links in cycles included; following one path gives up after 255 links, and otherwise ends in a
  path none of whose components is a link, after the cleaned path itself and at most 255 further spellings.
\<close>

theorem DeniedDir_returns:
  assumes "finite {t. os_Stat os t = Some True}"
  shows "(\<exists>v. DeniedDir uni os cwd root = Some v) \<and>
    (case rootSpellings os (Clean (CHR ''/'' # p)) of
       None \<Rightarrow> True
     | Some sp \<Rightarrow> physical os (last sp) \<and> hd sp = Clean (CHR ''/'' # p) \<and> length sp \<le> 257 \<and> (\<forall>s \<in> set sp. clean_abs s))"
proof -
  have "\<exists>v. dir_loop uni os rc [] [\<lparr>wi_physical = rr, wi_logical = rr\<rparr>] = Some v" for rc rr
    by (rule dir_loop_returns [of "insert rr {t. os_Stat os t = Some True}"]) (use assms in auto)
  then have "\<exists>v. DeniedDir uni os cwd root = Some v"
    by (auto simp: DeniedDir_def Let_def split: option.split verdict.split)
  moreover have "IsAbs (CHR ''/'' # p)" by (simp add: IsAbs_def has_prefix_def)
  then have c: "clean_abs (Clean (CHR ''/'' # p))" by (rule Clean_abs)
  then have "Clean (Clean (CHR ''/'' # p)) = Clean (CHR ''/'' # p)" by (auto simp: clean_abs_def)
  with rootSpellings_facts [of os "Clean (CHR ''/'' # p)"] clean_abs_IsAbs [OF c]
  have "case rootSpellings os (Clean (CHR ''/'' # p)) of None \<Rightarrow> True
     | Some sp \<Rightarrow> physical os (last sp) \<and> hd sp = Clean (CHR ''/'' # p) \<and> length sp \<le> 257 \<and> (\<forall>s \<in> set sp. clean_abs s)"
    by (auto simp: hop_cap_def split: option.split)
  ultimately show ?thesis by blast
qed

theorem DeniedDir_returns_witness:
  "\<exists>v. DeniedDir id ex_os ''/w'' ''a'' = Some v"
proof -
  have "finite {t. os_Stat ex_os t = Some True}" by (simp add: ex_os_def)
  from DeniedDir_returns [OF this, of id "''/w''" "''a''"] show ?thesis by blast
qed

end
