(* ===== verification/Engine_Run.thy ===== *)
theory Engine_Run
  imports Session_Manager Policy
begin

text \<open>
  The engine: \<open>src/internal/engine/stream.go\<close>, \<open>engine.go\<close> and \<open>version.go\<close>.  The child
  process is a parameter: what it wrote to its two pipes, in the pieces the copy goroutines saw, whether it
  exited in error and how the turn's context ended.  Decoding one stdout line (package encoding/json) is the
  parameter \<open>unmarshal\<close>.  The sink of the reply is the list of what it was called with.
\<close>

section \<open>The stream collector\<close>

definition lineCap :: nat where "lineCap = 4 * 1024 * 1024"

record streamEvent =
  sv_Type :: string
  sv_Subtype :: string
  sv_Model :: string
  sv_Content :: "(string \<times> string) list"
  sv_IsError :: bool
  sv_DurationMS :: int
  sv_CostUSD :: float64
  sv_InputTokens :: int
  sv_OutputTokens :: int

record turnStats =
  ts_buf :: string
  ts_discarding :: bool
  ts_output :: "string list"
  ts_model :: string
  ts_toolCalls :: int
  ts_resultSeen :: bool
  ts_resultOK :: bool
  ts_durationMS :: int
  ts_costUSD :: float64
  ts_inputTokens :: int
  ts_outputTokens :: int

definition new_stats :: turnStats where
  "new_stats = \<lparr>ts_buf = [], ts_discarding = False, ts_output = [], ts_model = [], ts_toolCalls = 0, ts_resultSeen = False,
     ts_resultOK = False, ts_durationMS = 0, ts_costUSD = Fin 0, ts_inputTokens = 0, ts_outputTokens = 0\<rparr>"

definition consume_event :: "streamEvent \<Rightarrow> turnStats \<Rightarrow> turnStats" where
  "consume_event ev s =
     (if sv_Type ev = ''system'' then
        (if sv_Subtype ev = ''init'' \<and> sv_Model ev \<noteq> [] then s\<lparr>ts_model := sv_Model ev\<rparr> else s)
      else if sv_Type ev = ''assistant'' then
        let s1 = s\<lparr>ts_toolCalls := ts_toolCalls s + int (length (filter (\<lambda>b. fst b = ''tool_use'') (sv_Content ev)))\<rparr>;
            message = concat (map snd (filter (\<lambda>b. fst b = ''text'') (sv_Content ev)))
        in if message \<noteq> [] then s1\<lparr>ts_output := ts_output s1 @ [message]\<rparr> else s1
      else if sv_Type ev = ''result'' then
        s\<lparr>ts_resultSeen := True, ts_resultOK := (\<not> sv_IsError ev \<and> sv_Subtype ev = ''success''), ts_durationMS := sv_DurationMS ev,
          ts_costUSD := sv_CostUSD ev, ts_inputTokens := sv_InputTokens ev, ts_outputTokens := sv_OutputTokens ev\<rparr>
      else s)"

definition consumeLine :: "(string \<Rightarrow> streamEvent option) \<Rightarrow> turnStats \<Rightarrow> turnStats" where
  "consumeLine unmarshal s =
     (case unmarshal (ts_buf s) of
        None \<Rightarrow> s\<lparr>ts_buf := []\<rparr>
      | Some ev \<Rightarrow> (consume_event ev s)\<lparr>ts_buf := []\<rparr>)"

definition newline :: char where "newline = CHR 0x0A"

function stats_Write :: "(string \<Rightarrow> streamEvent option) \<Rightarrow> string \<Rightarrow> turnStats \<Rightarrow> turnStats" where
  "stats_Write unmarshal p s =
     (if p = [] then s
      else
        let nl = length (takeWhile (\<lambda>c. c \<noteq> newline) p) in
        if nl = length p then
          (if ts_discarding s then s
           else if length (ts_buf s) + length p > lineCap then s\<lparr>ts_discarding := True, ts_buf := []\<rparr>
           else s\<lparr>ts_buf := ts_buf s @ p\<rparr>)
        else stats_Write unmarshal (drop (Suc nl) p)
          (if ts_discarding s then s\<lparr>ts_discarding := False\<rparr>
           else if length (ts_buf s) + nl > lineCap then s\<lparr>ts_buf := []\<rparr>
           else consumeLine unmarshal (s\<lparr>ts_buf := ts_buf s @ take nl p\<rparr>)))"
  by pat_completeness auto
termination
  by (relation "measure (\<lambda>(u, p, s). length p)") auto

declare stats_Write.simps [simp del]

section \<open>Bounded diagnostics\<close>

record boundedBuffer =
  bb_buf :: string
  bb_limit :: nat
  bb_truncated :: bool

definition buffer_Write :: "string \<Rightarrow> boundedBuffer \<Rightarrow> boundedBuffer" where
  "buffer_Write p b =
     (if length (bb_buf b) < bb_limit b then
        let room = bb_limit b - length (bb_buf b) in
        if length p > room then b\<lparr>bb_buf := bb_buf b @ take room p, bb_truncated := True\<rparr>
        else b\<lparr>bb_buf := bb_buf b @ p\<rparr>
      else if p \<noteq> [] then b\<lparr>bb_truncated := True\<rparr> else b)"

definition truncation_note :: string where
  "truncation_note = [CHR 0xE2, CHR 0x80, CHR 0xA6] @ ''(stderr truncated)''"

definition buffer_String :: "boundedBuffer \<Rightarrow> string" where
  "buffer_String b = (if bb_truncated b then bb_buf b @ truncation_note else bb_buf b)"

definition stderrCap :: nat where "stderrCap = 64 * 1024"

definition isTranscriptGone :: "(nat \<Rightarrow> nat) \<Rightarrow> string \<Rightarrow> bool" where
  "isTranscriptGone uni stderr = str_contains ''no conversation found'' (ToLower uni stderr)"

section \<open>One turn\<close>

record engine_Config =
  ec_Bin :: string
  ec_Model :: string
  ec_MaxTurns :: int
  ec_TurnTimeout :: int
  ec_recorder :: bool

datatype engine_config_error = NoBin | RelativeBin | NoModel | BadMaxTurns | BadTimeout | NoRecorder

definition engine_New :: "engine_Config \<Rightarrow> engine_config_error + engine_Config" where
  "engine_New cfg =
     (if ec_Bin cfg = [] then Inl NoBin
      else if \<not> IsAbs (ec_Bin cfg) then Inl RelativeBin
      else if ec_Model cfg = [] then Inl NoModel
      else if ec_MaxTurns cfg < 1 then Inl BadMaxTurns
      else if ec_TurnTimeout cfg \<le> 0 then Inl BadTimeout
      else if \<not> ec_recorder cfg then Inl NoRecorder
      else Inr cfg)"

datatype ctx_end = Alive | Deadline | Canceled

record child =
  ch_stdout :: "string list"
  ch_stderr :: "string list"
  ch_failed :: bool
  ch_ctx :: ctx_end
  ch_ts :: int
  ch_elapsed :: int

definition promptText :: "Spec \<Rightarrow> string" where
  "promptText spec =
     (if Sp_TransparencyNote spec = [] then Sp_Prompt spec
      else ''[system note: '' @ Sp_TransparencyNote spec @ '']'' @ [newline, newline] @ Sp_Prompt spec)"

record statsSnapshot =
  sn_model :: string
  sn_toolCalls :: int
  sn_resultSeen :: bool
  sn_resultOK :: bool
  sn_durationMS :: int
  sn_costUSD :: float64
  sn_inputTokens :: int
  sn_outputTokens :: int

definition snapshot :: "turnStats \<Rightarrow> statsSnapshot" where
  "snapshot s =
     \<lparr>sn_model = ts_model s, sn_toolCalls = ts_toolCalls s, sn_resultSeen = ts_resultSeen s, sn_resultOK = ts_resultOK s,
      sn_durationMS = ts_durationMS s, sn_costUSD = ts_costUSD s, sn_inputTokens = ts_inputTokens s,
      sn_outputTokens = ts_outputTokens s\<rparr>"

definition record_turn :: "Spec \<Rightarrow> statsSnapshot \<Rightarrow> child \<Rightarrow> Turn" where
  "record_turn spec snap ch =
     (let t0 = \<lparr>T_SessionID = Sp_SessionID spec, T_TS = ch_ts ch, T_Kind = Sp_Kind spec, T_Model = sn_model snap, T_InputTokens = 0,
               T_OutputTokens = 0, T_CostUSD = Fin 0, T_ToolCalls = sn_toolCalls snap, T_DurationMS = ch_elapsed ch,
               T_Outcome = ''ok'', T_UsageKnown = False\<rparr>;
          t1 = (if sn_resultSeen snap then
                  t0\<lparr>T_UsageKnown := True, T_InputTokens := sn_inputTokens snap, T_OutputTokens := sn_outputTokens snap,
                     T_CostUSD := sn_costUSD snap, T_DurationMS := sn_durationMS snap,
                     T_Outcome := (if sn_resultOK snap then ''ok'' else ''error'')\<rparr>
                else t0)
      in (case ch_ctx ch of
            Deadline \<Rightarrow> t1\<lparr>T_Outcome := ''timeout''\<rparr>
          | Canceled \<Rightarrow> t1\<lparr>T_Outcome := ''error''\<rparr>
          | Alive \<Rightarrow> if ch_failed ch then t1\<lparr>T_Outcome := ''error''\<rparr> else t1))"

record invocation =
  in_bin :: string
  in_args :: "string list"
  in_dir :: string
  in_stdin :: string

definition invocation_of :: "engine_Config \<Rightarrow> Spec \<Rightarrow> string \<Rightarrow> string \<Rightarrow> invocation" where
  "invocation_of e spec sessionFlag sessionID =
     \<lparr>in_bin = ec_Bin e,
      in_args = [''-p'', ''--model'', ec_Model e, ''--max-turns'', dec_int (ec_MaxTurns e),
                 ''--output-format'', ''stream-json'', ''--verbose'', sessionFlag, sessionID],
      in_dir = Sp_Cwd spec, in_stdin = promptText spec\<rparr>"

text \<open>The result of a turn: the error, the row handed to the recorder, and what the reply sink was fed.\<close>

definition engine_run ::
  "(nat \<Rightarrow> nat) \<Rightarrow> (string \<Rightarrow> streamEvent option) \<Rightarrow> engine_Config \<Rightarrow> (invocation \<Rightarrow> child) \<Rightarrow> Spec \<Rightarrow> string \<Rightarrow> string \<Rightarrow>
   engine_error option \<times> Turn \<times> string list" where
  "engine_run uni unmarshal e spawn spec sessionFlag sessionID =
     (let ch = spawn (invocation_of e spec sessionFlag sessionID);
          stats = fold (stats_Write unmarshal) (ch_stdout ch) new_stats;
          stderr = fold buffer_Write (ch_stderr ch) \<lparr>bb_buf = [], bb_limit = stderrCap, bb_truncated = False\<rparr>;
          turn = record_turn spec (snapshot stats) ch;
          err = (if \<not> ch_failed ch then None
                 else if ch_ctx ch \<noteq> Alive then Some EngOther
                 else if isTranscriptGone uni (buffer_String stderr) then Some EngResumeFailed
                 else Some EngOther)
      in (err, turn, ts_output stats))"

definition engine_Start ::
  "(nat \<Rightarrow> nat) \<Rightarrow> (string \<Rightarrow> streamEvent option) \<Rightarrow> engine_Config \<Rightarrow> (invocation \<Rightarrow> child) \<Rightarrow> Spec \<Rightarrow> engine_error option \<times> Turn \<times> string list" where
  "engine_Start uni unmarshal e spawn spec = engine_run uni unmarshal e spawn spec ''--session-id'' (Sp_SessionID spec)"

definition engine_Resume ::
  "(nat \<Rightarrow> nat) \<Rightarrow> (string \<Rightarrow> streamEvent option) \<Rightarrow> engine_Config \<Rightarrow> (invocation \<Rightarrow> child) \<Rightarrow> Spec \<Rightarrow> engine_error option \<times> Turn \<times> string list" where
  "engine_Resume uni unmarshal e spawn spec = engine_run uni unmarshal e spawn spec ''--resume'' (Sp_SessionID spec)"

text \<open>The recorder of the daemon: a failed insert is logged and never fails the turn.\<close>

definition ledger_after :: "Turn \<Rightarrow> db \<Rightarrow> db" where
  "ledger_after t d = (case InsertTurn t d of Inl _ \<Rightarrow> d | Inr (_, d') \<Rightarrow> d')"

section \<open>The version pin\<close>

definition digit :: "char \<Rightarrow> bool" where
  "digit c \<longleftrightarrow> 48 \<le> byte c \<and> byte c \<le> 57"

text \<open>The expression digits, dot, digits, dot, digits, matched greedily at the start of the text.\<close>

definition semver_at :: "string \<Rightarrow> string option" where
  "semver_at s =
     (let a = takeWhile digit s; s1 = drop (length a) s in
      if a = [] \<or> \<not> has_prefix ''.'' s1 then None
      else
        let b = takeWhile digit (tl s1); s2 = drop (length b) (tl s1) in
        if b = [] \<or> \<not> has_prefix ''.'' s2 then None
        else
          let c = takeWhile digit (tl s2) in
          if c = [] then None else Some (a @ ''.'' @ b @ ''.'' @ c))"

fun semver :: "string \<Rightarrow> string" where
  "semver [] = []"
| "semver (c # s) = (case semver_at (c # s) of Some v \<Rightarrow> v | None \<Rightarrow> semver s)"

datatype version_error = EmptyPin | ProbePath | ProbeFailed | NoVersion | Drift string

definition VerifyVersion :: "(string \<Rightarrow> bool \<times> string list) \<Rightarrow> string \<Rightarrow> string \<Rightarrow> version_error option" where
  "VerifyVersion probe bin pinned =
     (if pinned = [] then Some EmptyPin
      else if \<not> IsAbs bin then Some ProbePath
      else (case probe bin of (failed, out) \<Rightarrow>
          if failed then Some ProbeFailed
          else
            let got = semver (buffer_String (fold buffer_Write out \<lparr>bb_buf = [], bb_limit = 4096, bb_truncated = False\<rparr>)) in
            if got = [] then Some NoVersion else if got \<noteq> pinned then Some (Drift got) else None))"

section \<open>Lemmas on the collector\<close>

text \<open>The collector one byte at a time.\<close>

definition byte_step :: "(string \<Rightarrow> streamEvent option) \<Rightarrow> char \<Rightarrow> turnStats \<Rightarrow> turnStats" where
  "byte_step unmarshal c s =
     (if c = newline then (if ts_discarding s then s\<lparr>ts_discarding := False\<rparr> else consumeLine unmarshal s)
      else if ts_discarding s then s
      else if length (ts_buf s) < lineCap then s\<lparr>ts_buf := ts_buf s @ [c]\<rparr>
      else s\<lparr>ts_discarding := True, ts_buf := []\<rparr>)"

definition stats_ok :: "turnStats \<Rightarrow> bool" where
  "stats_ok s \<longleftrightarrow> length (ts_buf s) \<le> lineCap \<and> (ts_discarding s \<longrightarrow> ts_buf s = [])"

lemma consumeLine_keeps [simp]: "ts_buf (consumeLine u s) = []" "ts_discarding (consumeLine u s) = ts_discarding s"
  by (auto simp: consumeLine_def consume_event_def Let_def split: option.splits)

lemma byte_step_ok: "stats_ok s \<Longrightarrow> stats_ok (byte_step u c s)"
  by (auto simp: byte_step_def stats_ok_def)

lemma fold_byte_ok: "stats_ok s \<Longrightarrow> stats_ok (fold (byte_step u) p s)"
  by (induction p arbitrary: s) (auto simp: byte_step_ok)

lemma fold_byte_line:
  assumes "newline \<notin> set p" and "stats_ok s"
  shows "fold (byte_step u) p s =
    (if ts_discarding s then s
     else if length (ts_buf s) + length p > lineCap then s\<lparr>ts_discarding := True, ts_buf := []\<rparr>
     else s\<lparr>ts_buf := ts_buf s @ p\<rparr>)"
  using assms
proof (induction p arbitrary: s)
  case Nil
  then show ?case by (simp add: stats_ok_def)
next
  case (Cons c p)
  have ih: "fold (byte_step u) p t = (if ts_discarding t then t
     else if length (ts_buf t) + length p > lineCap then t\<lparr>ts_discarding := True, ts_buf := []\<rparr>
     else t\<lparr>ts_buf := ts_buf t @ p\<rparr>)" if "stats_ok t" for t using Cons.IH [OF _ that] Cons.prems(1) by simp
  have ok: "stats_ok (byte_step u c s)" by (rule byte_step_ok [OF Cons.prems(2)])
  have c: "c \<noteq> newline" using Cons.prems(1) by auto
  have step: "byte_step u c s = (if ts_discarding s then s else if length (ts_buf s) < lineCap then s\<lparr>ts_buf := ts_buf s @ [c]\<rparr>
      else s\<lparr>ts_discarding := True, ts_buf := []\<rparr>)" using c by (simp add: byte_step_def)
  have "fold (byte_step u) (c # p) s = fold (byte_step u) p (byte_step u c s)" by simp
  also note ih [OF ok]
  finally show ?case unfolding step using Cons.prems(2) by (auto simp: stats_ok_def)
qed

lemma stats_Write_fold: "stats_ok s \<Longrightarrow> stats_Write u p s = fold (byte_step u) p s"
proof (induction u p s rule: stats_Write.induct)
  case (1 u p s)
  define nl where "nl = length (takeWhile (\<lambda>c. c \<noteq> newline) p)"
  show ?case
  proof (cases "p = []")
    case True
    then show ?thesis by (simp add: stats_Write.simps)
  next
    case ne: False
    show ?thesis
    proof (cases "nl = length p")
      case True
      then have "newline \<notin> set p" unfolding nl_def
        by (metis (mono_tags, lifting) takeWhile_eq_all_conv takeWhile_eq_take take_all order_refl)
      from fold_byte_line [OF this 1(2)] show ?thesis
        by (subst stats_Write.simps) (simp add: ne True [unfolded nl_def] Let_def)
    next
      case False
      then have lt: "nl < length p" unfolding nl_def using length_takeWhile_le [of "\<lambda>c. c \<noteq> newline" p] by linarith
      have at: "p ! nl = newline" using nth_length_takeWhile [of "\<lambda>c. c \<noteq> newline" p] lt by (simp add: nl_def)
      have line: "newline \<notin> set (take nl p)"
        unfolding nl_def takeWhile_eq_take [symmetric] by (auto dest: set_takeWhileD)
      have p: "p = take nl p @ newline # drop (Suc nl) p" using id_take_nth_drop [OF lt] at by simp
      define s' where "s' = (if ts_discarding s then s\<lparr>ts_discarding := False\<rparr>
           else if length (ts_buf s) + nl > lineCap then s\<lparr>ts_buf := []\<rparr>
           else consumeLine u (s\<lparr>ts_buf := ts_buf s @ take nl p\<rparr>))"
      have len: "length (take nl p) = nl" using lt by simp
      have step: "fold (byte_step u) (take nl p @ [newline]) s = s'"
        using fold_byte_line [OF line 1(2)] len 1(2) by (auto simp: byte_step_def s'_def stats_ok_def)
      have ok: "stats_ok s'" unfolding step [symmetric] by (rule fold_byte_ok [OF 1(2)])
      have "stats_Write u p s = stats_Write u (drop (Suc nl) p) s'"
        by (subst stats_Write.simps) (simp add: ne False [unfolded nl_def] Let_def s'_def nl_def)
      also have "\<dots> = fold (byte_step u) (drop (Suc nl) p) s'"
        using 1(1) [OF ne nl_def False] ok by (simp add: s'_def)
      also have "\<dots> = fold (byte_step u) p s"
        unfolding step [symmetric] by (subst (2) p) simp
      finally show ?thesis .
    qed
  qed
qed

lemma fold_Write: "stats_ok s \<Longrightarrow> fold (stats_Write u) ps s = fold (byte_step u) (concat ps) s"
  by (induction ps arbitrary: s) (simp_all add: stats_Write_fold fold_byte_ok)

lemma new_stats_ok: "stats_ok new_stats"
  by (simp add: stats_ok_def new_stats_def)

text \<open>What a complete line does to the score.\<close>

definition line_step :: "(string \<Rightarrow> streamEvent option) \<Rightarrow> string \<Rightarrow> turnStats \<Rightarrow> turnStats" where
  "line_step unmarshal line s =
     (if length line > lineCap then s else (case unmarshal line of None \<Rightarrow> s | Some ev \<Rightarrow> consume_event ev s))"

definition at_line_start :: "turnStats \<Rightarrow> bool" where
  "at_line_start s \<longleftrightarrow> ts_buf s = [] \<and> \<not> ts_discarding s"

lemma consume_event_buf: "consume_event ev (s\<lparr>ts_buf := b\<rparr>) = (consume_event ev s)\<lparr>ts_buf := b\<rparr>"
  "ts_buf (consume_event ev s) = ts_buf s" "ts_discarding (consume_event ev s) = ts_discarding s"
  by (simp_all add: consume_event_def Let_def)

lemma line_step_start: "at_line_start s \<Longrightarrow> at_line_start (line_step u l s)"
  by (auto simp: at_line_start_def line_step_def consume_event_buf split: option.splits)

lemma same_buf: "ts_buf s = [] \<Longrightarrow> s\<lparr>ts_buf := []\<rparr> = s"
  by (cases s) simp

lemma fold_line:
  assumes "newline \<notin> set l" and "at_line_start s"
  shows "fold (byte_step u) (l @ [newline]) s = line_step u l s"
proof -
  have ok: "stats_ok s" "ts_buf s = []" "\<not> ts_discarding s" using assms(2) by (auto simp: at_line_start_def stats_ok_def)
  have "fold (byte_step u) (l @ [newline]) s = byte_step u newline (fold (byte_step u) l s)" by simp
  also have "\<dots> = (if length l > lineCap then (s\<lparr>ts_discarding := True, ts_buf := []\<rparr>)\<lparr>ts_discarding := False\<rparr>
      else consumeLine u (s\<lparr>ts_buf := l\<rparr>))"
    using fold_byte_line [OF assms(1) ok(1)] ok(2,3) by (auto simp: byte_step_def)
  also have "\<dots> = line_step u l s"
  proof (cases "length l > lineCap")
    case True
    then show ?thesis using ok(2,3) by (cases s) (simp add: line_step_def)
  next
    case False
    have "consumeLine u (s\<lparr>ts_buf := l\<rparr>) = (case u l of None \<Rightarrow> s | Some ev \<Rightarrow> consume_event ev s)"
      using ok(2) by (auto simp: consumeLine_def consume_event_buf(1) same_buf consume_event_buf(2) split: option.split)
    with False show ?thesis by (simp add: line_step_def)
  qed
  finally show ?thesis .
qed

lemma fold_lines:
  "\<forall>l \<in> set ls. newline \<notin> set l \<Longrightarrow> at_line_start s \<Longrightarrow>
     fold (byte_step u) (concat (map (\<lambda>l. l @ [newline]) ls)) s = fold (line_step u) ls s \<and> at_line_start (fold (line_step u) ls s)"
proof (induction ls arbitrary: s)
  case (Cons l ls)
  have "fold (byte_step u) (concat (map (\<lambda>l. l @ [newline]) (l # ls))) s =
    fold (byte_step u) (concat (map (\<lambda>l. l @ [newline]) ls)) (fold (byte_step u) (l @ [newline]) s)" by simp
  also have "fold (byte_step u) (l @ [newline]) s = line_step u l s" using fold_line Cons.prems by simp
  finally show ?case using Cons.IH [of "line_step u l s"] Cons.prems line_step_start by simp
qed simp

section \<open>Lemmas on the buffer and the record\<close>

lemma buffer_fold:
  "bb_buf b = take (bb_limit b) w \<Longrightarrow> (bb_truncated b \<longleftrightarrow> bb_limit b < length w) \<Longrightarrow>
   bb_buf (fold buffer_Write ps b) = take (bb_limit b) (w @ concat ps) \<and>
   (bb_truncated (fold buffer_Write ps b) \<longleftrightarrow> bb_limit b < length (w @ concat ps))"
proof (induction ps arbitrary: b w)
  case (Cons p ps)
  have l: "bb_limit (buffer_Write p b) = bb_limit b" by (simp add: buffer_Write_def Let_def)
  have 1: "bb_buf (buffer_Write p b) = take (bb_limit (buffer_Write p b)) (w @ p)"
    using Cons.prems by (auto simp: buffer_Write_def Let_def min_def not_less)
  have 2: "bb_truncated (buffer_Write p b) \<longleftrightarrow> bb_limit (buffer_Write p b) < length (w @ p)"
    using Cons.prems by (auto simp: buffer_Write_def Let_def min_def split: if_splits)
  from Cons.IH [OF 1 2] l show ?case by simp
qed simp

lemma outcome_cases:
  "T_Outcome (record_turn spec (snapshot snap) ch) =
     (if ch_ctx ch = Deadline then ''timeout''
      else if ch_ctx ch = Canceled \<or> ch_failed ch \<or> (ts_resultSeen snap \<and> \<not> ts_resultOK snap) then ''error'' else ''ok'')"
  by (cases "ch_ctx ch") (auto simp: record_turn_def snapshot_def Let_def)

lemma record_fields:
  "T_SessionID (record_turn spec (snapshot snap) ch) = Sp_SessionID spec" "T_TS (record_turn spec (snapshot snap) ch) = ch_ts ch"
  "T_Kind (record_turn spec (snapshot snap) ch) = Sp_Kind spec" "T_UsageKnown (record_turn spec (snapshot snap) ch) = ts_resultSeen snap"
  "T_ToolCalls (record_turn spec (snapshot snap) ch) = ts_toolCalls snap"
  "T_InputTokens (record_turn spec (snapshot snap) ch) = (if ts_resultSeen snap then ts_inputTokens snap else 0)"
  "T_OutputTokens (record_turn spec (snapshot snap) ch) = (if ts_resultSeen snap then ts_outputTokens snap else 0)"
  "T_CostUSD (record_turn spec (snapshot snap) ch) = (if ts_resultSeen snap then ts_costUSD snap else Fin 0)"
  "T_DurationMS (record_turn spec (snapshot snap) ch) = (if ts_resultSeen snap then ts_durationMS snap else ch_elapsed ch)"
  by (cases "ch_ctx ch", auto simp: record_turn_def snapshot_def Let_def)+

lemma toolCalls_nonneg: "0 \<le> ts_toolCalls s \<Longrightarrow> 0 \<le> ts_toolCalls (fold (byte_step u) p s)"
proof (induction p arbitrary: s)
  case (Cons c p)
  have "0 \<le> ts_toolCalls (byte_step u c s)"
    using Cons.prems by (auto simp: byte_step_def consumeLine_def consume_event_def Let_def split: option.splits)
  with Cons.IH show ?case by simp
qed simp

text \<open>A turn that ends cleanly after its deadline has passed is recorded as timed out.\<close>

lemma clean_exit_after_deadline:
  "ch_ctx ch = Deadline \<Longrightarrow> \<not> ch_failed ch \<Longrightarrow> T_Outcome (record_turn spec (snapshot snap) ch) = ''timeout''"
  by (simp add: outcome_cases)

section \<open>Properties\<close>

text \<open>
  C29: how the pipe cuts the child's output does not matter.  Whatever pieces the stream arrives in, the
  collector ends in the state of reading it line by line: each complete line within the cap is judged
  once and in order, each longer line is dropped whole, and what remains of an unfinished line is
  buffered, or being dropped; the buffer never exceeds the cap.
\<close>

theorem stream_by_lines:
  assumes "concat ps = concat (map (\<lambda>l. l @ [newline]) ls) @ tail" and "\<forall>l \<in> set ls. newline \<notin> set l" and "newline \<notin> set tail"
  shows "fold (stats_Write unmarshal) ps new_stats =
    (fold (line_step unmarshal) ls new_stats)\<lparr>ts_discarding := (length tail > lineCap), ts_buf := (if length tail > lineCap then [] else tail)\<rparr> \<and>
   length (ts_buf (fold (stats_Write unmarshal) ps new_stats)) \<le> lineCap"
proof -
  have st: "at_line_start new_stats" by (simp add: at_line_start_def new_stats_def)
  let ?s = "fold (line_step unmarshal) ls new_stats"
  note fl = fold_lines [OF assms(2) st, of unmarshal]
  have at: "ts_buf ?s = []" "\<not> ts_discarding ?s" using fl by (simp_all add: at_line_start_def)
  have ok: "stats_ok ?s" using at by (simp add: stats_ok_def)
  have "fold (stats_Write unmarshal) ps new_stats = fold (byte_step unmarshal) (concat ps) new_stats"
    by (rule fold_Write [OF new_stats_ok])
  also have "\<dots> = fold (byte_step unmarshal) tail ?s" using fl by (simp add: assms(1))
  also have "\<dots> = ?s\<lparr>ts_discarding := (length tail > lineCap), ts_buf := (if length tail > lineCap then [] else tail)\<rparr>"
    using fold_byte_line [OF assms(3) ok] at by (cases ?s) simp
  finally show ?thesis by simp
qed

theorem stream_by_lines_witness:
  "ts_output (fold (stats_Write (\<lambda>l. Some \<lparr>sv_Type = ''assistant'', sv_Subtype = [], sv_Model = [], sv_Content = [(''text'', l)],
       sv_IsError = False, sv_DurationMS = 0, sv_CostUSD = Fin 0, sv_InputTokens = 0, sv_OutputTokens = 0\<rparr>))
     [''h'', ''i'' @ [newline] @ ''yo''] new_stats) = [''hi'']"
proof -
  have n: "newline \<notin> set ''hi''" "newline \<notin> set ''yo''" by (simp_all add: newline_def)
  have c: "concat [''h'', ''i'' @ [newline] @ ''yo''] = concat (map (\<lambda>l. l @ [newline]) [''hi'']) @ ''yo''" by simp
  show ?thesis
    by (subst stream_by_lines [OF c, THEN conjunct1])
      (use n in \<open>simp_all add: line_step_def lineCap_def consume_event_def new_stats_def\<close>)
qed


definition ex_child :: child where
  "ex_child = \<lparr>ch_stdout = [], ch_stderr = [''No conversation found''], ch_failed = True, ch_ctx = Alive, ch_ts = 60, ch_elapsed = 5\<rparr>"

definition ex_spec :: Spec where
  "ex_spec = \<lparr>Sp_SessionID = ''s1'', Sp_ThreadKey = ''discord:dm:7'', Sp_Cwd = ''/w'', Sp_Kind = ''message'', Sp_Prompt = ''hi'', Sp_TransparencyNote = []\<rparr>"

definition ex_engine :: engine_Config where
  "ex_engine = \<lparr>ec_Bin = ''/c'', ec_Model = ''m'', ec_MaxTurns = 25, ec_TurnTimeout = 600, ec_recorder = True\<rparr>"


end
