(* ===== verification/Migrate.thy ===== *)
theory Migrate
  imports Runes
begin

text \<open>
  Schema migration: \<open>src/internal/store/migrate.go\<close>.  The database file is its committed content, a
  schema version with tables of any type; the batch connection has a working copy while a transaction is
  open, and the observer connection reads the committed content.  How the text of a migration decomposes
  into statements is the parameter \<open>statements\<close>: a change of the tables, which may fail, or one of the
  three transaction commands.  That a change leaves the schema version alone is what \<open>loadMigrations\<close>
  refuses files for.
\<close>

section \<open>Connections\<close>

datatype 's statement = Change "'s \<Rightarrow> 's option" | Begin | Commit | Rollback

record 's conn =
  cn_committed :: "int \<times> 's"
  cn_work :: "(int \<times> 's) option"

text \<open>What the batch connection reads and writes: its working copy, or the file itself outside a transaction.\<close>

definition visible :: "'s conn \<Rightarrow> int \<times> 's" where
  "visible c = (case cn_work c of None \<Rightarrow> cn_committed c | Some w \<Rightarrow> w)"

definition put :: "int \<times> 's \<Rightarrow> 's conn \<Rightarrow> 's conn" where
  "put x c = (case cn_work c of None \<Rightarrow> c\<lparr>cn_committed := x\<rparr> | Some _ \<Rightarrow> c\<lparr>cn_work := Some x\<rparr>)"

definition exec_statement :: "'s statement \<Rightarrow> 's conn \<Rightarrow> 's conn option" where
  "exec_statement st c =
     (case st of
        Change f \<Rightarrow> (case f (snd (visible c)) of None \<Rightarrow> None | Some s \<Rightarrow> Some (put (fst (visible c), s) c))
      | Begin \<Rightarrow> (case cn_work c of None \<Rightarrow> Some (c\<lparr>cn_work := Some (cn_committed c)\<rparr>) | Some _ \<Rightarrow> None)
      | Commit \<Rightarrow> (case cn_work c of None \<Rightarrow> None | Some w \<Rightarrow> Some \<lparr>cn_committed = w, cn_work = None\<rparr>)
      | Rollback \<Rightarrow> (case cn_work c of None \<Rightarrow> None | Some _ \<Rightarrow> Some (c\<lparr>cn_work := None\<rparr>)))"

text \<open>A script: the statements run until one fails; what ran before stays in effect.\<close>

fun exec_script :: "'s statement list \<Rightarrow> 's conn \<Rightarrow> bool \<times> 's conn" where
  "exec_script [] c = (True, c)"
| "exec_script (st # sts) c = (case exec_statement st c of None \<Rightarrow> (False, c) | Some c' \<Rightarrow> exec_script sts c')"

section \<open>Loading\<close>

record migration =
  mg_number :: nat
  mg_name :: string
  mg_sql :: string

datatype migrate_error =
    BadName string | Unreadable string | MentionsVersion string | DuplicateNumber nat | NotContiguous string
  | WaitCancelled | OneConnection | ConnFailed | BeginFailed | CommitFailed | ReadFailed
  | SchemaTooNew | MarkFailed | ScriptFailed string | RolledBack string | Committed string | BumpFailed

definition digit_value :: "char \<Rightarrow> nat option" where
  "digit_value c = (if 48 \<le> byte c \<and> byte c \<le> 57 then Some (byte c - 48) else None)"

text \<open>The number of a name of the form NNNN_description.sql, the description without a dot.\<close>

definition migration_number :: "string \<Rightarrow> nat option" where
  "migration_number name =
     (let ds = map digit_value (take 4 name); rest = drop 4 name; desc = take (length rest - 5) (drop 1 rest) in
      if length ds = 4 \<and> None \<notin> set ds \<and> has_prefix ''_'' rest \<and> 6 \<le> length rest \<and> drop (length rest - 4) rest = ''.sql'' \<and>
         CHR ''.'' \<notin> set desc
      then Some (foldl (\<lambda>n x. 10 * n + the x) 0 ds) else None)"

text \<open>The expression (?i)user_version: besides the ASCII letters, the long s folds to s.\<close>

definition fold_rune :: "nat \<Rightarrow> nat" where
  "fold_rune r = (if 65 \<le> r \<and> r \<le> 90 then r + 32 else if r = 0x17F then 115 else r)"

definition mentions_version :: "string \<Rightarrow> bool" where
  "mentions_version s =
     (let rs = map fold_rune (runes s) in list_ex (\<lambda>i. take 12 (drop i rs) = runes ''user_version'') [0..<Suc (length rs)])"

fun load_entries :: "(string \<times> string option) list \<Rightarrow> migrate_error + migration list" where
  "load_entries [] = Inr []"
| "load_entries ((name, contents) # es) =
     (case migration_number name of
        None \<Rightarrow> Inl (BadName name)
      | Some n \<Rightarrow>
          (case contents of
             None \<Rightarrow> Inl (Unreadable name)
           | Some sql \<Rightarrow>
               if mentions_version sql then Inl (MentionsVersion name)
               else (case load_entries es of
                       Inl e \<Rightarrow> Inl e
                     | Inr ms \<Rightarrow> Inr (\<lparr>mg_number = n, mg_name = name, mg_sql = sql\<rparr> # ms))))"

fun check_numbers :: "nat \<Rightarrow> nat option \<Rightarrow> migration list \<Rightarrow> migrate_error option" where
  "check_numbers i prev [] = None"
| "check_numbers i prev (m # ms) =
     (if prev = Some (mg_number m) then Some (DuplicateNumber (mg_number m))
      else if mg_number m \<noteq> Suc i then Some (NotContiguous (mg_name m))
      else check_numbers (Suc i) (Some (mg_number m)) ms)"

definition loadMigrations :: "(string \<times> string option) list \<Rightarrow> migrate_error + migration list" where
  "loadMigrations entries =
     (case load_entries entries of
        Inl e \<Rightarrow> Inl e
      | Inr ms \<Rightarrow>
          let sorted_ms = sort_key mg_number ms in
          (case check_numbers 0 None sorted_ms of Some e \<Rightarrow> Inl e | None \<Rightarrow> Inr sorted_ms))"

section \<open>Applying\<close>

definition versionSentinel :: int where "versionSentinel = -1"

text \<open>The statements of the runner itself that fail, by the step.\<close>

datatype runner_call = ReadVersion | MarkBatch | VerifyOwn nat | VerifyCommitted nat | BumpVersion

definition set_version :: "int \<Rightarrow> 's conn \<Rightarrow> 's conn" where
  "set_version v c = put (v, snd (visible c)) c"

definition requireBatchTransaction :: "(runner_call \<Rightarrow> bool) \<Rightarrow> migration \<Rightarrow> 's conn \<Rightarrow> migrate_error option" where
  "requireBatchTransaction fails m c =
     (if fails (VerifyOwn (mg_number m)) then Some ReadFailed
      else if fst (visible c) \<noteq> versionSentinel then Some (RolledBack (mg_name m))
      else if fails (VerifyCommitted (mg_number m)) then Some ReadFailed
      else if fst (cn_committed c) = versionSentinel then Some (Committed (mg_name m))
      else None)"

fun run_pending ::
  "(string \<Rightarrow> 's statement list) \<Rightarrow> (runner_call \<Rightarrow> bool) \<Rightarrow> migration list \<Rightarrow> 's conn \<Rightarrow> migrate_error option \<times> 's conn" where
  "run_pending statements fails [] c = (None, c)"
| "run_pending statements fails (m # ms) c =
     (case exec_script (statements (mg_sql m)) c of
        (False, c') \<Rightarrow> (Some (ScriptFailed (mg_name m)), c')
      | (True, c') \<Rightarrow>
          (case requireBatchTransaction fails m c' of
             Some e \<Rightarrow> (Some e, c')
           | None \<Rightarrow> run_pending statements fails ms c'))"

definition applyPending ::
  "(string \<Rightarrow> 's statement list) \<Rightarrow> (runner_call \<Rightarrow> bool) \<Rightarrow> migration list \<Rightarrow> 's conn \<Rightarrow> migrate_error option \<times> 's conn" where
  "applyPending statements fails migrations c =
     (if fails ReadVersion then (Some ReadFailed, c)
      else
        let version = fst (visible c);
            newest = (if migrations = [] then 0 else int (mg_number (last migrations))) in
        if version > newest then (Some SchemaTooNew, c)
        else
          let pending = filter (\<lambda>m. int (mg_number m) > version) migrations in
          if pending = [] then (None, c)
          else if fails MarkBatch then (Some MarkFailed, c)
          else (case run_pending statements fails pending (set_version versionSentinel c) of
              (Some e, c') \<Rightarrow> (Some e, c')
            | (None, c') \<Rightarrow>
                if fails BumpVersion then (Some BumpFailed, c')
                else (None, set_version (int (mg_number (last pending))) c')))"

text \<open>\<open>rollback\<close>: the transaction is undone; when ROLLBACK fails the connection is discarded, which
  undoes it too.\<close>

definition rollback :: "'s conn \<Rightarrow> 's conn" where
  "rollback c = c\<lparr>cn_work := None\<rparr>"

record mig_env =
  me_wait_cancelled :: bool
  me_one_connection :: bool
  me_conn_fails :: bool
  me_begin_fails :: bool
  me_commit_fails :: bool
  me_fails :: "runner_call \<Rightarrow> bool"

definition migrate ::
  "mig_env \<Rightarrow> (string \<Rightarrow> 's statement list) \<Rightarrow> (string \<times> string option) list \<Rightarrow> int \<times> 's \<Rightarrow> migrate_error option \<times> (int \<times> 's)" where
  "migrate env statements files file =
     (case loadMigrations files of
        Inl e \<Rightarrow> (Some e, file)
      | Inr migrations \<Rightarrow>
          if me_wait_cancelled env then (Some WaitCancelled, file)
          else if me_one_connection env then (Some OneConnection, file)
          else if me_conn_fails env then (Some ConnFailed, file)
          else if me_begin_fails env then (Some BeginFailed, file)
          else (case applyPending statements (me_fails env) migrations \<lparr>cn_committed = file, cn_work = Some file\<rparr> of
              (Some e, c) \<Rightarrow> (Some e, cn_committed (rollback c))
            | (None, c) \<Rightarrow>
                if me_commit_fails env then (Some CommitFailed, cn_committed (rollback c))
                else (case exec_statement Commit c of
                        None \<Rightarrow> (Some CommitFailed, cn_committed (rollback c))
                      | Some c' \<Rightarrow> (None, cn_committed c'))))"

section \<open>Lemmas\<close>

fun change_of :: "'s statement \<Rightarrow> ('s \<Rightarrow> 's option) option" where
  "change_of (Change f) = Some f"
| "change_of _ = None"

text \<open>The tables after a list of changes.\<close>

fun run_changes :: "'s statement list \<Rightarrow> 's \<Rightarrow> 's option" where
  "run_changes [] s = Some s"
| "run_changes (Change f # sts) s = (case f s of None \<Rightarrow> None | Some s' \<Rightarrow> run_changes sts s')"
| "run_changes _ s = None"

definition only_changes :: "'s statement list \<Rightarrow> bool" where
  "only_changes sts \<longleftrightarrow> (\<forall>st \<in> set sts. change_of st \<noteq> None)"

text \<open>Inside the batch the committed content is untouched and the working copy carries the sentinel;
  once detached from it, the working copy, if any, carries the committed version, whatever runs.\<close>

definition in_batch :: "int \<times> 's \<Rightarrow> 's \<Rightarrow> 's conn \<Rightarrow> bool" where
  "in_batch file s c \<longleftrightarrow> c = \<lparr>cn_committed = file, cn_work = Some (versionSentinel, s)\<rparr>"

definition detached :: "'s conn \<Rightarrow> bool" where
  "detached c \<longleftrightarrow> (case cn_work c of None \<Rightarrow> True | Some w \<Rightarrow> fst w = fst (cn_committed c))"

lemma run_changes_append: "run_changes (xs @ ys) s = (case run_changes xs s of None \<Rightarrow> None | Some s' \<Rightarrow> run_changes ys s')"
  by (induction xs s rule: run_changes.induct) (auto split: option.split)

lemma detached_caught: "detached c \<Longrightarrow> requireBatchTransaction fails m c \<noteq> None"
  by (auto simp: detached_def requireBatchTransaction_def visible_def split: option.splits)

lemma detached_step: "exec_statement st c = Some c' \<Longrightarrow> detached c \<Longrightarrow> detached c'"
  by (auto simp: exec_statement_def detached_def put_def visible_def split: statement.splits option.splits)

lemma detached_script: "detached c \<Longrightarrow> exec_script sts c = (ok, c') \<Longrightarrow> detached c'"
proof (induction sts arbitrary: c)
  case (Cons st sts)
  then show ?case by (auto split: option.splits dest: detached_step)
qed simp

lemma batch_step:
  assumes "in_batch file s c" and "exec_statement st c = Some c'"
  shows "(\<exists>f s'. st = Change f \<and> f s = Some s' \<and> in_batch file s' c') \<or> (change_of st = None \<and> detached c')"
  using assms by (auto simp: in_batch_def exec_statement_def visible_def put_def detached_def split: statement.splits option.splits)

lemma batch_script:
  "in_batch file s c \<Longrightarrow> exec_script sts c = (ok, c') \<Longrightarrow>
     (ok \<and> only_changes sts \<and> (\<exists>s'. run_changes sts s = Some s' \<and> in_batch file s' c')) \<or>
     (\<not> ok \<and> (\<exists>s'. in_batch file s' c')) \<or> (\<not> only_changes sts \<and> detached c')"
proof (induction sts arbitrary: c s)
  case Nil
  then show ?case by (auto simp: only_changes_def)
next
  case (Cons st sts)
  show ?case
  proof (cases "exec_statement st c")
    case None
    with Cons.prems show ?thesis by auto
  next
    case (Some c1)
    then have r: "exec_script sts c1 = (ok, c')" using Cons.prems(2) by simp
    from batch_step [OF Cons.prems(1) Some] show ?thesis
    proof
      assume "\<exists>f s'. st = Change f \<and> f s = Some s' \<and> in_batch file s' c1"
      then obtain f s1 where f: "st = Change f" "f s = Some s1" "in_batch file s1 c1" by blast
      from Cons.IH [OF f(3) r] f(1,2) show ?thesis by (auto simp: only_changes_def)
    next
      assume d: "change_of st = None \<and> detached c1"
      with detached_script [OF _ r] show ?thesis by (auto simp: only_changes_def)
    qed
  qed
qed

definition scripts :: "(string \<Rightarrow> 's statement list) \<Rightarrow> migration list \<Rightarrow> 's statement list" where
  "scripts statements ms = concat (map (\<lambda>m. statements (mg_sql m)) ms)"

lemma run_pending_batch:
  "in_batch file s c \<Longrightarrow> run_pending statements fails ms c = (e, c') \<Longrightarrow>
     (e = None \<and> only_changes (scripts statements ms) \<and> (\<exists>s'. run_changes (scripts statements ms) s = Some s' \<and> in_batch file s' c')) \<or>
     (e \<noteq> None \<and> (only_changes (scripts statements ms) \<longrightarrow> (\<exists>s'. in_batch file s' c')))"
proof (induction ms arbitrary: c s)
  case Nil
  then show ?case by (auto simp: scripts_def only_changes_def)
next
  case (Cons m ms)
  obtain ok c1 where x: "exec_script (statements (mg_sql m)) c = (ok, c1)" by fastforce
  have oc: "only_changes (scripts statements (m # ms)) \<longleftrightarrow> only_changes (statements (mg_sql m)) \<and> only_changes (scripts statements ms)"
    by (auto simp: only_changes_def scripts_def)
  from batch_script [OF Cons.prems(1) x] consider
    (good) s1 where "ok" "only_changes (statements (mg_sql m))" "run_changes (statements (mg_sql m)) s = Some s1" "in_batch file s1 c1"
    | (fail) s1 where "\<not> ok" "in_batch file s1 c1" | (out) "\<not> only_changes (statements (mg_sql m))" "detached c1" by blast
  then show ?case
  proof cases
    case good
    show ?thesis
    proof (cases "requireBatchTransaction fails m c1")
      case None
      then have r: "run_pending statements fails ms c1 = (e, c')" using Cons.prems(2) x good(1) by simp
      from Cons.IH [OF good(4) r] good(2,3) oc show ?thesis by (auto simp: scripts_def run_changes_append)
    next
      case (Some e1)
      then have "e = Some e1" "c' = c1" using Cons.prems(2) x good(1) by auto
      with good(4) show ?thesis by blast
    qed
  next
    case fail
    then have "e \<noteq> None" "c' = c1" using Cons.prems(2) x by auto
    with fail(2) show ?thesis by blast
  next
    case out
    from detached_caught [OF out(2), of fails m] obtain y where y: "requireBatchTransaction fails m c1 = Some y" by blast
    have "e = (if ok then Some y else Some (ScriptFailed (mg_name m)))" using Cons.prems(2) x y by (cases ok) simp_all
    then have "e \<noteq> None" by simp
    with out oc show ?thesis by blast
  qed
qed

lemma check_numbers_ok: "check_numbers i prev ms = None \<Longrightarrow> map mg_number ms = [Suc i..<Suc i + length ms]"
proof (induction ms arbitrary: i prev)
  case (Cons m ms)
  from Cons.prems have n: "mg_number m = Suc i" and r: "check_numbers (Suc i) (Some (mg_number m)) ms = None"
    by (auto split: if_splits)
  from Cons.IH [OF r] n show ?case by (simp add: upt_conv_Cons del: upt_Suc)
qed simp

lemma load_entries_ok: "load_entries es = Inr ms \<Longrightarrow> \<forall>m \<in> set ms. \<not> mentions_version (mg_sql m)"
  by (induction es arbitrary: ms) (auto split: option.splits if_splits sum.splits)

lemma loadMigrations_ok:
  assumes "loadMigrations files = Inr ms"
  shows "map mg_number ms = [1..<Suc (length ms)]" "\<forall>m \<in> set ms. \<not> mentions_version (mg_sql m)"
proof -
  from assms obtain us where us: "load_entries files = Inr us" "ms = sort_key mg_number us" "check_numbers 0 None ms = None"
    by (auto simp: loadMigrations_def Let_def split: sum.splits option.splits)
  show "map mg_number ms = [1..<Suc (length ms)]" using check_numbers_ok [OF us(3)] by simp
  show "\<forall>m \<in> set ms. \<not> mentions_version (mg_sql m)" using load_entries_ok [OF us(1)] us(2) by simp
qed

lemma numbered_nth:
  assumes "map mg_number ms = [1..<Suc (length ms)]" and "i < length ms"
  shows "mg_number (ms ! i) = Suc i"
  using arg_cong [OF assms(1), of "\<lambda>xs. xs ! i"] assms(2) by (simp add: nth_append del: upt_Suc)

lemma pending_drop:
  assumes "map mg_number ms = [1..<Suc (length ms)]"
  shows "filter (\<lambda>m. int (mg_number m) > int v) ms = drop v ms"
proof -
  have "filter (\<lambda>m. v < mg_number m) (take v ms) = []"
  proof (rule filter_False)
    show "\<forall>m \<in> set (take v ms). \<not> v < mg_number m"
      using numbered_nth [OF assms] by (auto simp: in_set_conv_nth)
  qed
  moreover have "filter (\<lambda>m. v < mg_number m) (drop v ms) = drop v ms"
  proof (rule filter_True)
    show "\<forall>m \<in> set (drop v ms). v < mg_number m"
      using numbered_nth [OF assms] by (auto simp: in_set_conv_nth)
  qed
  ultimately have "filter (\<lambda>m. v < mg_number m) (take v ms @ drop v ms) = drop v ms" by (simp only: filter_append append_Nil)
  then show ?thesis by simp
qed

section \<open>Properties\<close>

text \<open>
  C32: migration is all or nothing.  When it succeeds on a file at a real version, the migrations are
  numbered contiguously from one, none mentions the schema version, the pending ones hold no transaction
  command, and the file is exactly their changes applied in order, at the newest version; a file already
  there is unchanged, and one from a newer binary never succeeds.  A migration that commits or rolls back
  the batch is always caught; and when none tries, every failure leaves the file as it was.
\<close>

theorem migrate_all_or_nothing:
  assumes "migrate env statements files (int v, s) = (e, file')"
  shows "case e of
      None \<Rightarrow> (\<exists>ms. loadMigrations files = Inr ms \<and> map mg_number ms = [1..<Suc (length ms)] \<and>
        (\<forall>m \<in> set ms. \<not> mentions_version (mg_sql m)) \<and> v \<le> length ms \<and>
        only_changes (scripts statements (drop v ms)) \<and>
        (\<exists>s'. run_changes (scripts statements (drop v ms)) s = Some s' \<and> file' = (int (length ms), s')))
    | Some _ \<Rightarrow> (case loadMigrations files of
          Inl _ \<Rightarrow> file' = (int v, s)
        | Inr ms \<Rightarrow> only_changes (scripts statements (drop v ms)) \<longrightarrow> file' = (int v, s))"
proof (cases "loadMigrations files")
  case (Inl x)
  with assms show ?thesis by (auto simp: migrate_def)
next
  case (Inr ms)
  note nums = loadMigrations_ok [OF Inr]
  have newest: "(if ms = [] then 0 else int (mg_number (last ms))) = int (length ms)"
    using numbered_nth [OF nums(1), of "length ms - 1"] by (cases "ms = []") (auto simp: last_conv_nth)
  let ?c = "\<lparr>cn_committed = (int v, s), cn_work = Some (int v, s)\<rparr>"
  have vis: "visible ?c = (int v, s)" by (simp add: visible_def)
  have mark: "set_version versionSentinel ?c = \<lparr>cn_committed = (int v, s), cn_work = Some (versionSentinel, s)\<rparr>"
    by (simp add: set_version_def visible_def put_def)
  obtain r c where ap: "applyPending statements (me_fails env) ms ?c = (r, c)" by fastforce
  have key: "(r = None \<longrightarrow> v \<le> length ms \<and> only_changes (scripts statements (drop v ms)) \<and>
        (\<exists>s'. run_changes (scripts statements (drop v ms)) s = Some s' \<and> c = \<lparr>cn_committed = (int v, s), cn_work = Some (int (length ms), s')\<rparr>)) \<and>
      (only_changes (scripts statements (drop v ms)) \<longrightarrow> cn_committed c = (int v, s))"
  proof (cases "\<not> me_fails env ReadVersion \<and> v \<le> length ms \<and> drop v ms \<noteq> [] \<and> \<not> me_fails env MarkBatch")
    case False
    then have "(r, c) = (Some ReadFailed, ?c) \<or> (r, c) = (Some SchemaTooNew, ?c) \<or> (r, c) = (Some MarkFailed, ?c) \<or>
        (r = None \<and> c = ?c \<and> v = length ms)"
      using ap newest pending_drop [OF nums(1), of v] by (auto simp: applyPending_def vis Let_def split: if_splits)
    then show ?thesis by (auto simp: scripts_def only_changes_def)
  next
    case True
    obtain r1 c1 where rp: "run_pending statements (me_fails env) (drop v ms) (set_version versionSentinel ?c) = (r1, c1)" by fastforce
    have ap2: "(r, c) = (case r1 of Some x \<Rightarrow> (Some x, c1)
        | None \<Rightarrow> if me_fails env BumpVersion then (Some BumpFailed, c1) else (None, set_version (int (mg_number (last (drop v ms)))) c1))"
      using ap True newest pending_drop [OF nums(1), of v] rp by (auto simp: applyPending_def vis Let_def split: option.splits)
    have lst: "int (mg_number (last (drop v ms))) = int (length ms)" using True newest by (auto split: if_splits)
    have ib: "in_batch (int v, s) s (set_version versionSentinel ?c)" unfolding mark by (simp add: in_batch_def)
    from run_pending_batch [OF ib rp] show ?thesis
    proof
      assume g: "r1 = None \<and> only_changes (scripts statements (drop v ms)) \<and>
        (\<exists>s'. run_changes (scripts statements (drop v ms)) s = Some s' \<and> in_batch (int v, s) s' c1)"
      then obtain s' where s': "run_changes (scripts statements (drop v ms)) s = Some s'" "c1 = \<lparr>cn_committed = (int v, s), cn_work = Some (versionSentinel, s')\<rparr>"
        by (auto simp: in_batch_def)
      have "set_version (int (length ms)) c1 = \<lparr>cn_committed = (int v, s), cn_work = Some (int (length ms), s')\<rparr>"
        by (simp add: s'(2) set_version_def visible_def put_def)
      then have "(r, c) = (if me_fails env BumpVersion then (Some BumpFailed, c1)
          else (None, \<lparr>cn_committed = (int v, s), cn_work = Some (int (length ms), s')\<rparr>))"
        using ap2 g unfolding lst by simp
      with g s' True show ?thesis by (auto split: if_splits)
    next
      assume "r1 \<noteq> None \<and> (only_changes (scripts statements (drop v ms)) \<longrightarrow> (\<exists>s'. in_batch (int v, s) s' c1))"
      with ap2 show ?thesis by (auto simp: in_batch_def)
    qed
  qed
  show ?thesis
  proof (cases e)
    case None
    then have "r = None" "exec_statement Commit c \<noteq> None \<and> file' = cn_committed (the (exec_statement Commit c))"
      using assms Inr ap by (auto simp: migrate_def split: option.splits if_splits)
    with key have "v \<le> length ms" "only_changes (scripts statements (drop v ms))"
      "\<exists>s'. run_changes (scripts statements (drop v ms)) s = Some s' \<and> file' = (int (length ms), s')"
      by (auto simp: exec_statement_def)
    with None Inr nums show ?thesis by simp
  next
    case (Some x)
    have "file' = (int v, s)" if "only_changes (scripts statements (drop v ms))"
      using assms Inr ap key that Some by (auto simp: migrate_def rollback_def split: option.splits if_splits)
    with Some Inr show ?thesis by simp
  qed
qed

definition ex_mig_env :: mig_env where
  "ex_mig_env = \<lparr>me_wait_cancelled = False, me_one_connection = False, me_conn_fails = False, me_begin_fails = False,
     me_commit_fails = False, me_fails = (\<lambda>_. False)\<rparr>"

definition ex_statements :: "string \<Rightarrow> nat statement list" where
  "ex_statements sql = (if sql = ''c'' then [Commit, Begin] else [Change (\<lambda>s. Some (s + length sql))])"

theorem migrate_all_or_nothing_witness:
  "migrate ex_mig_env ex_statements [(''0001_a.sql'', Some ''x''), (''0002_b.sql'', Some ''yy'')] (0, 5) = (None, (2, 8)) \<and>
   (\<exists>e f. migrate ex_mig_env ex_statements [(''0001_a.sql'', Some ''c'')] (0, 5) = (Some e, f)) \<and>
   only_changes (scripts ex_statements (drop 0 [\<lparr>mg_number = 1, mg_name = ''0001_a.sql'', mg_sql = ''x''\<rparr>, \<lparr>mg_number = 2, mg_name = ''0002_b.sql'', mg_sql = ''yy''\<rparr>]))"
proof -
  have l: "loadMigrations [(''0001_a.sql'', Some ''x''), (''0002_b.sql'', Some ''yy'')] =
      Inr [\<lparr>mg_number = 1, mg_name = ''0001_a.sql'', mg_sql = ''x''\<rparr>, \<lparr>mg_number = 2, mg_name = ''0002_b.sql'', mg_sql = ''yy''\<rparr>]"
    by code_simp
  have m: "migrate ex_mig_env ex_statements [(''0001_a.sql'', Some ''x''), (''0002_b.sql'', Some ''yy'')] (int 0, 5) = (None, (2, 8))"
    by code_simp
  have c: "migrate ex_mig_env ex_statements [(''0001_a.sql'', Some ''c'')] (0, 5) = (Some (Committed ''0001_a.sql''), (-1, 5))" by code_simp
  from migrate_all_or_nothing [OF m] l c m show ?thesis by auto
qed

end
