(* ===== verification/Store_Open.thy ===== *)
theory Store_Open
  imports Migrate Paths "HOL-Library.Word"
begin

text \<open>
  Opening the store: \<open>src/internal/store/store.go\<close>.  The file system is a map from cleaned paths to what
  \<open>Lstat\<close> reports there; calls of the operating system fail as the parameter says; the pragmas are read
  through a parameter, as SQLite answers them; the content of the database is what \<open>Migrate\<close> works on.
\<close>

unbundle bit_operations_syntax

section \<open>The file system\<close>

datatype inode_kind = Regular | Directory | Socket | OtherInode | Link "inode_kind option"

type_synonym perm = "9 word"

record inode =
  in_kind :: inode_kind
  in_perm :: perm

type_synonym file_tree = "string \<Rightarrow> inode option"

abbreviation mode_dir :: perm where "mode_dir \<equiv> 448"
abbreviation mode_file :: perm where "mode_file \<equiv> 384"

datatype os_call = MkdirCall string | CreateCall | CloseCall | LstatCall string | SqlOpen

text \<open>\<open>Stat\<close> follows links; a link holds what it resolves to.\<close>

definition stat_kind :: "file_tree \<Rightarrow> string \<Rightarrow> inode_kind option" where
  "stat_kind fs p = (case fs (Clean p) of None \<Rightarrow> None | Some i \<Rightarrow> (case in_kind i of Link t \<Rightarrow> t | k \<Rightarrow> Some k))"

definition parent_path :: "string \<Rightarrow> string" where
  "parent_path p = rev (dropWhile (\<lambda>c. c \<noteq> sep) (dropWhile (\<lambda>c. c = sep) (rev p)))"

lemma parent_shorter: "parent_path p \<noteq> [] \<Longrightarrow> length (parent_path p) < length p"
proof -
  assume ne: "parent_path p \<noteq> []"
  define q where "q = dropWhile (\<lambda>c. c = sep) (rev p)"
  have e: "parent_path p = rev (dropWhile (\<lambda>c. c \<noteq> sep) q)" by (simp only: parent_path_def q_def)
  have "q \<noteq> []" using ne unfolding e by (cases q) simp_all
  then have "hd q \<noteq> sep" using hd_dropWhile [of "\<lambda>c. c = sep" "rev p"] by (simp add: q_def)
  with \<open>q \<noteq> []\<close> have "length (dropWhile (\<lambda>c. c \<noteq> sep) q) < length q" by (cases q) (simp_all add: length_dropWhile_le less_Suc_eq_le)
  also have "length q \<le> length p" using length_dropWhile_le [of "\<lambda>c. c = sep" "rev p"] by (simp add: q_def)
  finally show ?thesis unfolding e by simp
qed

definition make_dir :: "perm \<Rightarrow> (os_call \<Rightarrow> bool) \<Rightarrow> string \<Rightarrow> file_tree \<Rightarrow> bool \<times> file_tree" where
  "make_dir umask fails p fs =
     (if fails (MkdirCall p) \<or> fs (Clean p) \<noteq> None
      then (case fs (Clean p) of Some i \<Rightarrow> in_kind i = Directory | None \<Rightarrow> False, fs)
      else (True, fs(Clean p \<mapsto> \<lparr>in_kind = Directory, in_perm = mode_dir AND NOT umask\<rparr>)))"

text \<open>\<open>os.MkdirAll\<close>; what it made before an error stays.\<close>

function MkdirAll :: "perm \<Rightarrow> (os_call \<Rightarrow> bool) \<Rightarrow> string \<Rightarrow> file_tree \<Rightarrow> bool \<times> file_tree" where
  "MkdirAll umask fails p fs =
     (case stat_kind fs p of
        Some k \<Rightarrow> (k = Directory, fs)
      | None \<Rightarrow>
          if parent_path p = [] then make_dir umask fails p fs
          else (case MkdirAll umask fails (parent_path p) fs of
              (False, fs1) \<Rightarrow> (False, fs1)
            | (True, fs1) \<Rightarrow> make_dir umask fails p fs1))"
  by pat_completeness auto
termination by (relation "measure (\<lambda>(_, _, p, _). length p)") (auto simp: parent_shorter)

declare MkdirAll.simps [simp del]

section \<open>Opening\<close>

datatype open_error =
    MkdirFailed | CreateFailed | CloseFailed | LstatFailed string | SymlinkRefused string | WrongMode string perm
  | SqlOpenFailed | PragmaUnreadable string | PragmaWrong string string | MigrateFailed migrate_error

definition requireMode :: "(os_call \<Rightarrow> bool) \<Rightarrow> string \<Rightarrow> perm \<Rightarrow> file_tree \<Rightarrow> open_error option" where
  "requireMode fails path want fs =
     (if fails (LstatCall path) then Some (LstatFailed path)
      else (case fs path of
          None \<Rightarrow> Some (LstatFailed path)
        | Some i \<Rightarrow>
            (case in_kind i of
               Link _ \<Rightarrow> Some (SymlinkRefused path)
             | _ \<Rightarrow> if in_perm i \<noteq> want then Some (WrongMode path (in_perm i)) else None)))"

definition sidecar_suffixes :: "string list" where
  "sidecar_suffixes = [''-wal'', ''-shm'', ''-journal'']"

fun check_sidecars :: "(os_call \<Rightarrow> bool) \<Rightarrow> string \<Rightarrow> string list \<Rightarrow> file_tree \<Rightarrow> open_error option" where
  "check_sidecars fails path [] fs = None"
| "check_sidecars fails path (suffix # suffixes) fs =
     (if \<not> fails (LstatCall (path @ suffix)) \<and> fs (path @ suffix) = None then check_sidecars fails path suffixes fs
      else (case requireMode fails (path @ suffix) mode_file fs of
          Some e \<Rightarrow> Some e
        | None \<Rightarrow> check_sidecars fails path suffixes fs))"

text \<open>Creating the file exclusively: an error other than its existence, and the file tree.\<close>

definition create_file :: "perm \<Rightarrow> (os_call \<Rightarrow> bool) \<Rightarrow> string \<Rightarrow> file_tree \<Rightarrow> open_error option \<times> file_tree" where
  "create_file umask fails path fs =
     (if fs path \<noteq> None then (None, fs)
      else if fails CreateCall then (Some CreateFailed, fs)
      else (if fails CloseCall then Some CloseFailed else None,
            fs(path \<mapsto> \<lparr>in_kind = Regular, in_perm = mode_file AND NOT umask\<rparr>)))"

definition wanted_pragmas :: "(string \<times> string) list" where
  "wanted_pragmas =
     [(''journal_mode'', ''wal''), (''synchronous'', ''1''), (''busy_timeout'', ''5000''), (''foreign_keys'', ''1'')]"

fun verify_loop :: "(string \<Rightarrow> string option) \<Rightarrow> (string \<times> string) list \<Rightarrow> open_error option" where
  "verify_loop read [] = None"
| "verify_loop read ((name, want) # ps) =
     (case read name of
        None \<Rightarrow> Some (PragmaUnreadable name)
      | Some got \<Rightarrow> if got \<noteq> want then Some (PragmaWrong name got) else verify_loop read ps)"

definition verifyPragmas :: "(string \<Rightarrow> string option) \<Rightarrow> open_error option" where
  "verifyPragmas read = verify_loop read wanted_pragmas"

record 's open_env =
  oe_umask :: perm
  oe_fails :: "os_call \<Rightarrow> bool"
  oe_pragma :: "string \<Rightarrow> string option"
  oe_migrate :: mig_env
  oe_statements :: "string \<Rightarrow> 's statement list"
  oe_files :: "(string \<times> string option) list"

definition Open :: "'s open_env \<Rightarrow> string \<Rightarrow> file_tree \<times> (int \<times> 's) \<Rightarrow> open_error option \<times> file_tree \<times> (int \<times> 's)" where
  "Open oe path st =
     (case st of (fs, file) \<Rightarrow>
        let fails = oe_fails oe; dir = Dir path in
        case MkdirAll (oe_umask oe) fails dir fs of (made, fs1) \<Rightarrow>
        if \<not> made then (Some MkdirFailed, fs1, file)
        else case requireMode fails dir mode_dir fs1 of Some e \<Rightarrow> (Some e, fs1, file) | None \<Rightarrow>
        case create_file (oe_umask oe) fails path fs1 of (Some e, fs2) \<Rightarrow> (Some e, fs2, file) | (None, fs2) \<Rightarrow>
        case requireMode fails path mode_file fs2 of Some e \<Rightarrow> (Some e, fs2, file) | None \<Rightarrow>
        case check_sidecars fails path sidecar_suffixes fs2 of Some e \<Rightarrow> (Some e, fs2, file) | None \<Rightarrow>
        if fails SqlOpen then (Some SqlOpenFailed, fs2, file)
        else case verifyPragmas (oe_pragma oe) of Some e \<Rightarrow> (Some e, fs2, file) | None \<Rightarrow>
        case migrate (oe_migrate oe) (oe_statements oe) (oe_files oe) file of
          (Some e, file') \<Rightarrow> (Some (MigrateFailed e), fs2, file') | (None, file') \<Rightarrow> (None, fs2, file'))"

section \<open>Lemmas\<close>

text \<open>Nothing that exists is touched.\<close>

definition keeps_tree :: "file_tree \<Rightarrow> file_tree \<Rightarrow> bool" where
  "keeps_tree fs fs' \<longleftrightarrow> fs \<subseteq>\<^sub>m fs'"

lemma keeps_tree_refl [simp]: "keeps_tree fs fs"
  by (simp add: keeps_tree_def)

lemma keeps_tree_trans: "keeps_tree a b \<Longrightarrow> keeps_tree b c \<Longrightarrow> keeps_tree a c"
  unfolding keeps_tree_def by (rule map_le_trans)

lemma make_dir_keeps: "make_dir umask fails p fs = (b, fs') \<Longrightarrow> keeps_tree fs fs'"
  by (auto simp: make_dir_def keeps_tree_def map_le_def split: if_splits)

lemma MkdirAll_keeps: "MkdirAll umask fails p fs = (b, fs') \<Longrightarrow> keeps_tree fs fs'"
proof (induction umask fails p fs arbitrary: b fs' rule: MkdirAll.induct)
  case (1 umask fails p fs)
  show ?case
  proof (cases "stat_kind fs p")
    case (Some k)
    with "1.prems" show ?thesis by (simp add: MkdirAll.simps)
  next
    case None
    show ?thesis
    proof (cases "parent_path p = []")
      case True
      with None "1.prems" show ?thesis by (auto simp: MkdirAll.simps [of umask fails p] intro: make_dir_keeps)
    next
      case False
      obtain ok fs1 where r: "MkdirAll umask fails (parent_path p) fs = (ok, fs1)" by fastforce
      have k: "keeps_tree fs fs1" by (rule "1.IH" [OF None False r])
      from None False "1.prems" r have "fs' = fs1 \<or> make_dir umask fails p fs1 = (b, fs')"
        by (cases ok) (auto simp: MkdirAll.simps [of umask fails p])
      with k show ?thesis by (auto intro: keeps_tree_trans make_dir_keeps)
    qed
  qed
qed

lemma create_file_keeps: "create_file umask fails path fs = (e, fs') \<Longrightarrow> keeps_tree fs fs'"
  by (auto simp: create_file_def keeps_tree_def map_le_def split: if_splits)

text \<open>The posture of one path: there, not a link, with exactly the wanted permissions.\<close>

definition owner_only :: "string \<Rightarrow> perm \<Rightarrow> file_tree \<Rightarrow> bool" where
  "owner_only path want fs \<longleftrightarrow> (\<exists>i. fs path = Some i \<and> (\<forall>t. in_kind i \<noteq> Link t) \<and> in_perm i = want)"

lemma requireMode_ok: "requireMode fails path want fs = None \<Longrightarrow> owner_only path want fs"
  by (auto simp: requireMode_def owner_only_def split: if_splits option.splits inode_kind.splits)

lemma owner_only_keeps: "owner_only path want fs \<Longrightarrow> keeps_tree fs fs' \<Longrightarrow> owner_only path want fs'"
proof -
  assume "owner_only path want fs" and k: "keeps_tree fs fs'"
  then obtain i where i: "fs path = Some i" "\<forall>t. in_kind i \<noteq> Link t" "in_perm i = want" by (auto simp: owner_only_def)
  from k i(1) have "fs' path = Some i" unfolding keeps_tree_def map_le_def by (metis domI)
  with i(2,3) show ?thesis by (auto simp: owner_only_def)
qed

lemma check_sidecars_ok:
  "check_sidecars fails path suffixes fs = None \<Longrightarrow>
   suffix \<in> set suffixes \<Longrightarrow> fs (path @ suffix) = None \<or> owner_only (path @ suffix) mode_file fs"
  by (induction suffixes) (auto split: if_splits option.splits dest: requireMode_ok)

lemma verify_loop_ok: "verify_loop read ps = None \<longleftrightarrow> (\<forall>(name, want) \<in> set ps. read name = Some want)"
proof (induction ps)
  case (Cons p ps)
  then show ?case by (cases p) (auto split: option.splits if_splits)
qed simp

lemma check_not_migrate:
  "requireMode fails path want fs \<noteq> Some (MigrateFailed m)"
  "check_sidecars fails path suffixes fs \<noteq> Some (MigrateFailed m)"
  "fst (create_file umask fails path fs) \<noteq> Some (MigrateFailed m)"
  "verifyPragmas read \<noteq> Some (MigrateFailed m)"
proof -
  show r: "requireMode fails path want fs \<noteq> Some (MigrateFailed m)" for path want fs
    by (auto simp: requireMode_def split: option.splits inode_kind.splits)
  show "check_sidecars fails path suffixes fs \<noteq> Some (MigrateFailed m)"
    by (induction suffixes) (auto simp: r split: option.splits)
  show "fst (create_file umask fails path fs) \<noteq> Some (MigrateFailed m)" by (simp add: create_file_def)
  have "verify_loop read ps \<noteq> Some (MigrateFailed m)" for ps
    by (induction read ps rule: verify_loop.induct) (auto split: option.splits)
  then show "verifyPragmas read \<noteq> Some (MigrateFailed m)" by (simp add: verifyPragmas_def)
qed

text \<open>The outcome of \<open>Open\<close>, read off its stages.\<close>

lemma Open_stages:
  assumes "Open oe path (fs, file) = (e, fs', file')"
  shows "keeps_tree fs fs'" (is ?keeps)
    and "e = None \<Longrightarrow> owner_only (Dir path) mode_dir fs' \<and> owner_only path mode_file fs' \<and>
      (\<forall>suffix \<in> set sidecar_suffixes. fs' (path @ suffix) = None \<or> owner_only (path @ suffix) mode_file fs') \<and>
      verifyPragmas (oe_pragma oe) = None"
    and "(e, file') = (None, snd (migrate (oe_migrate oe) (oe_statements oe) (oe_files oe) file)) \<and>
        fst (migrate (oe_migrate oe) (oe_statements oe) (oe_files oe) file) = None \<or>
      (\<exists>x. e = Some (MigrateFailed x) \<and> migrate (oe_migrate oe) (oe_statements oe) (oe_files oe) file = (Some x, file')) \<or>
      (e \<noteq> None \<and> file' = file \<and> (\<forall>m. e \<noteq> Some (MigrateFailed m)))"
proof -
  let ?f = "oe_fails oe"
  obtain made fs1 where m: "MkdirAll (oe_umask oe) ?f (Dir path) fs = (made, fs1)" by fastforce
  obtain c fs2 where cr: "create_file (oe_umask oe) ?f path fs1 = (c, fs2)" by fastforce
  obtain me f1 where mi: "migrate (oe_migrate oe) (oe_statements oe) (oe_files oe) file = (me, f1)" by (metis prod.collapse)
  note o = assms [unfolded Open_def Let_def, simplified, unfolded m, simplified, unfolded cr mi, simplified]
  have cn: "c \<noteq> Some (MigrateFailed x)" for x using check_not_migrate(3) [of "oe_umask oe" ?f path fs1 x] by (simp add: cr)
  have k1: "keeps_tree fs fs1" by (rule MkdirAll_keeps [OF m])
  have k2: "keeps_tree fs1 fs2" by (rule create_file_keeps [OF cr])
  have "fs' = fs1 \<or> fs' = fs2" using o by (auto split: if_splits option.splits)
  with k1 k2 show "keeps_tree fs fs'" by (auto intro: keeps_tree_trans)
  show "(e, file') = (None, snd (migrate (oe_migrate oe) (oe_statements oe) (oe_files oe) file)) \<and>
        fst (migrate (oe_migrate oe) (oe_statements oe) (oe_files oe) file) = None \<or>
      (\<exists>x. e = Some (MigrateFailed x) \<and> migrate (oe_migrate oe) (oe_statements oe) (oe_files oe) file = (Some x, file')) \<or>
      (e \<noteq> None \<and> file' = file \<and> (\<forall>m. e \<noteq> Some (MigrateFailed m)))"
    unfolding mi using o by (auto simp: check_not_migrate(1,2,4) cn split: if_splits option.splits)
  assume "e = None"
  with o have "requireMode ?f (Dir path) mode_dir fs1 = None" "requireMode ?f path mode_file fs2 = None"
    "check_sidecars ?f path sidecar_suffixes fs2 = None" "verifyPragmas (oe_pragma oe) = None" "fs' = fs2"
    by (auto split: if_splits option.splits)
  with k2 show "owner_only (Dir path) mode_dir fs' \<and> owner_only path mode_file fs' \<and>
      (\<forall>suffix \<in> set sidecar_suffixes. fs' (path @ suffix) = None \<or> owner_only (path @ suffix) mode_file fs') \<and>
      verifyPragmas (oe_pragma oe) = None"
    by (auto dest: requireMode_ok check_sidecars_ok intro: owner_only_keeps)
qed

lemma exposed_refused:
  assumes "Open oe path (fs, file) = (e, fs', file')" and "fs q \<noteq> None" and "\<not> owner_only q want fs"
    and "owner_only q want fs'"
  shows False
proof -
  from assms(2) obtain i where i: "fs q = Some i" by blast
  with Open_stages(1) [OF assms(1)] have "fs' q = Some i" unfolding keeps_tree_def map_le_def by (metis domI)
  with i assms(3,4) show False by (simp add: owner_only_def)
qed

section \<open>Properties\<close>


definition ex_tree :: file_tree where
  "ex_tree = [''/'' \<mapsto> \<lparr>in_kind = Directory, in_perm = 493\<rparr>]"

definition ex_open_env :: "unit open_env" where
  "ex_open_env = \<lparr>oe_umask = 18, oe_fails = (\<lambda>_. False), oe_pragma = map_of wanted_pragmas,
     oe_migrate = \<lparr>me_wait_cancelled = False, me_one_connection = False, me_conn_fails = False, me_begin_fails = False,
       me_commit_fails = False, me_fails = (\<lambda>_. False)\<rparr>,
     oe_statements = (\<lambda>_. []), oe_files = []\<rparr>"


end
