(* ===== verification/Admin.thy ===== *)
theory Admin
  imports Router Store_Dead Discord
begin

text \<open>
  The admin socket and its clients: the request path of \<open>src/internal/admin/admin.go\<close>, the hooks that
  \<open>runDaemon\<close> of \<open>src/internal/cli/daemon.go\<close> gives it, and the operator's verbs \<open>runRetry\<close>,
  \<open>runDead\<close> and \<open>runAdminVerb\<close>.  A connection is the bytes its client sends; an answer is a value of
  \<open>reply\<close>; a hook says whether it succeeded, refused or panicked.  The locale \<open>admin_hook\<close> is the
  contract of a hook that takes an event id, interpreted on the three hooks of the daemon.
\<close>

section \<open>Parsing an id\<close>

definition is_space :: "nat \<Rightarrow> bool" where
  "is_space r \<longleftrightarrow> (9 \<le> r \<and> r \<le> 13) \<or> r \<in> {32, 0x85, 0xA0, 0x1680, 0x2028, 0x2029, 0x202F, 0x205F, 0x3000} \<or> (0x2000 \<le> r \<and> r \<le> 0x200A)"

definition TrimSpace :: "string \<Rightarrow> nat list" where
  "TrimSpace s = rev (dropWhile is_space (rev (dropWhile is_space (runes s))))"

definition digits_value :: "nat list \<Rightarrow> int option" where
  "digits_value ds =
     (if ds = [] \<or> \<not> list_all (\<lambda>d. 48 \<le> d \<and> d \<le> 57) ds then None else Some (foldl (\<lambda>n d. 10 * n + int (d - 48)) 0 ds))"

text \<open>\<open>strconv.ParseInt(s, 10, 64)\<close>: an optional sign, decimal digits, the range of an int64.\<close>

definition ParseInt :: "nat list \<Rightarrow> int option" where
  "ParseInt s =
     (let neg = (s \<noteq> [] \<and> hd s = 45); ds = (if s \<noteq> [] \<and> (hd s = 43 \<or> hd s = 45) then tl s else s) in
      case digits_value ds of
        None \<Rightarrow> None
      | Some n \<Rightarrow>
          if neg then (if n \<le> 2 ^ 63 then Some (- n) else None)
          else if n < 2 ^ 63 then Some n else None)"

section \<open>The server\<close>

datatype hook_outcome = HookOk | HookErr | HookPanic

record 's Options =
  op_OnPoke :: "('s \<Rightarrow> hook_outcome \<times> 's) option"
  op_Status :: "('s \<Rightarrow> hook_outcome \<times> string) option"
  op_OnRetry :: "(int \<Rightarrow> 's \<Rightarrow> hook_outcome \<times> 's) option"
  op_OnDeadRequeue :: "(int \<Rightarrow> 's \<Rightarrow> hook_outcome \<times> 's) option"
  op_OnDeadDiscard :: "(int \<Rightarrow> 's \<Rightarrow> hook_outcome \<times> 's) option"

datatype reply =
    ROk | ROkStatus string | ROkDraining | ROkVerb string int
  | RNotWired string | RBadID string string | RFailed string int | RStatusErr | RUnknown string | RInternal

fun is_err :: "reply \<Rightarrow> bool" where
  "is_err ROk = False"
| "is_err (ROkStatus _) = False"
| "is_err ROkDraining = False"
| "is_err (ROkVerb _ _) = False"
| "is_err _ = True"

definition maxRequestLine :: nat where "maxRequestLine = 256"

definition request_nl :: char where "request_nl = CHR 0x0A"

text \<open>\<open>ReadString\<close> on the limited reader: the line without its newline, or an error.\<close>

definition read_line :: "string \<Rightarrow> string option" where
  "read_line input =
     (if request_nl \<in> set (take maxRequestLine input) then Some (takeWhile (\<lambda>c. c \<noteq> request_nl) input) else None)"

definition handleIDVerb ::
  "string \<Rightarrow> string \<Rightarrow> (int \<Rightarrow> 's \<Rightarrow> hook_outcome \<times> 's) option \<Rightarrow> 's \<Rightarrow> reply \<times> 's" where
  "handleIDVerb name arg handler s =
     (case handler of
        None \<Rightarrow> (RNotWired name, s)
      | Some h \<Rightarrow>
          (case ParseInt (TrimSpace arg) of
             None \<Rightarrow> (RBadID name arg, s)
           | Some i \<Rightarrow>
               if i \<le> 0 then (RBadID name arg, s)
               else (case h i s of
                   (HookOk, s') \<Rightarrow> (ROkVerb name i, s')
                 | (HookErr, s') \<Rightarrow> (RFailed name i, s')
                 | (HookPanic, s') \<Rightarrow> (RInternal, s'))))"

text \<open>The argument of a verb that takes one: what follows its name and a space, or, for the bare name, the name.\<close>

definition verb_arg :: "string \<Rightarrow> string \<Rightarrow> string option" where
  "verb_arg name verb =
     (case CutPrefix (name @ '' '') verb of Some arg \<Rightarrow> Some arg | None \<Rightarrow> if verb = name then Some verb else None)"

definition ellipsis :: string where "ellipsis = [CHR 0xE2, CHR 0x80, CHR 0xA6]"

definition handle_verb :: "'s Options \<Rightarrow> string \<Rightarrow> 's \<times> bool \<Rightarrow> reply \<times> ('s \<times> bool)" where
  "handle_verb opts verb st =
     (case st of (s, draining) \<Rightarrow>
       (case verb_arg ''retry'' verb of
          Some arg \<Rightarrow> (case handleIDVerb ''retry'' arg (op_OnRetry opts) s of (r, s') \<Rightarrow> (r, (s', draining)))
        | None \<Rightarrow>
       (case verb_arg ''dead-requeue'' verb of
          Some arg \<Rightarrow> (case handleIDVerb ''dead-requeue'' arg (op_OnDeadRequeue opts) s of (r, s') \<Rightarrow> (r, (s', draining)))
        | None \<Rightarrow>
       (case verb_arg ''dead-discard'' verb of
          Some arg \<Rightarrow> (case handleIDVerb ''dead-discard'' arg (op_OnDeadDiscard opts) s of (r, s') \<Rightarrow> (r, (s', draining)))
        | None \<Rightarrow>
            if verb = ''poke'' then
              (case op_OnPoke opts of
                 None \<Rightarrow> (ROk, st)
               | Some h \<Rightarrow> (case h s of (HookPanic, s') \<Rightarrow> (RInternal, (s', draining)) | (_, s') \<Rightarrow> (ROk, (s', draining))))
            else if verb = ''status'' then
              (case op_Status opts of
                 None \<Rightarrow> (ROkStatus ''{}'', st)
               | Some h \<Rightarrow> (case h s of (HookOk, body) \<Rightarrow> (ROkStatus body, st) | (HookErr, _) \<Rightarrow> (RStatusErr, st)
                                     | (HookPanic, _) \<Rightarrow> (RInternal, st)))
            else if verb = ''drain'' then (ROkDraining, (s, True))
            else (RUnknown (if 64 < length verb then take 64 verb @ ellipsis else verb), st)))))"

definition handle :: "'s Options \<Rightarrow> string \<Rightarrow> 's \<times> bool \<Rightarrow> reply option \<times> ('s \<times> bool)" where
  "handle opts input st =
     (case read_line input of
        None \<Rightarrow> (None, st)
      | Some verb \<Rightarrow> (case handle_verb opts verb st of (r, st') \<Rightarrow> (Some r, st')))"

text \<open>The line an answer is written as.  \<open>quote\<close> is the \<open>%q\<close> verb of the format, \<open>why\<close> the text of the error a
  refusal relays.\<close>

definition em_dash :: string where "em_dash = [CHR 0xE2, CHR 0x80, CHR 0x94]"

fun reply_text :: "(string \<Rightarrow> string) \<Rightarrow> (reply \<Rightarrow> string) \<Rightarrow> reply \<Rightarrow> string" where
  "reply_text quote why ROk = ''ok'' @ [request_nl]"
| "reply_text quote why (ROkStatus body) = ''ok '' @ body @ [request_nl]"
| "reply_text quote why ROkDraining = ''ok draining'' @ [request_nl]"
| "reply_text quote why (ROkVerb name i) = ''ok '' @ name @ '' '' @ dec_int i @ [request_nl]"
| "reply_text quote why (RNotWired name) = ''err '' @ name @ '' is not wired on this daemon'' @ [request_nl]"
| "reply_text quote why (RBadID name arg) = ''err '' @ name @ '' wants a positive event id, got '' @ quote arg @ [request_nl]"
| "reply_text quote why (RFailed name i) = ''err '' @ name @ '' '' @ dec_int i @ '': '' @ why (RFailed name i) @ [request_nl]"
| "reply_text quote why RStatusErr = ''err status: '' @ why RStatusErr @ [request_nl]"
| "reply_text quote why (RUnknown verb) =
     ''err unknown command '' @ quote verb @ '' '' @ em_dash @ '' expected poke, status, or drain'' @ [request_nl]"
| "reply_text quote why RInternal = ''err internal error'' @ [request_nl]"

section \<open>The hooks of the daemon\<close>

record daemon =
  dm_db :: db
  dm_queues :: Queues
  dm_pokes :: int

definition OnPoke :: "daemon \<Rightarrow> hook_outcome \<times> daemon" where
  "OnPoke s = (HookOk, s\<lparr>dm_pokes := dm_pokes s + 1\<rparr>)"

definition OnRetry :: "bool \<Rightarrow> int \<Rightarrow> int \<Rightarrow> daemon \<Rightarrow> hook_outcome \<times> daemon" where
  "OnRetry ready now i s =
     (if \<not> ready then (HookErr, s)
      else (case RequeueInterruptedEvent i now (dm_db s) of
          Inl _ \<Rightarrow> (HookErr, s)
        | Inr (ev, d') \<Rightarrow> (HookOk, s\<lparr>dm_db := d', dm_queues := Readmit ev (dm_queues s)\<rparr>)))"

definition OnDeadRequeue :: "bool \<Rightarrow> int \<Rightarrow> int \<Rightarrow> daemon \<Rightarrow> hook_outcome \<times> daemon" where
  "OnDeadRequeue ready now i s =
     (if \<not> ready then (HookErr, s)
      else (case ResolveDeadLetterRequeue i now (dm_db s) of
          Inl _ \<Rightarrow> (HookErr, s)
        | Inr (ev, d') \<Rightarrow> (HookOk, s\<lparr>dm_db := d', dm_queues := Readmit ev (dm_queues s)\<rparr>)))"

definition OnDeadDiscard :: "bool \<Rightarrow> int \<Rightarrow> daemon \<Rightarrow> hook_outcome \<times> daemon" where
  "OnDeadDiscard ready i s =
     (if \<not> ready then (HookErr, s)
      else (case ResolveDeadLetterDiscard i (dm_db s) of
          Inl _ \<Rightarrow> (HookErr, s)
        | Inr d' \<Rightarrow> (HookOk, s\<lparr>dm_db := d'\<rparr>)))"

definition daemon_options :: "bool \<Rightarrow> int \<Rightarrow> (daemon \<Rightarrow> hook_outcome \<times> string) \<Rightarrow> daemon Options" where
  "daemon_options ready now status =
     \<lparr>op_OnPoke = Some OnPoke, op_Status = Some status, op_OnRetry = Some (OnRetry ready now),
      op_OnDeadRequeue = Some (OnDeadRequeue ready now), op_OnDeadDiscard = Some (OnDeadDiscard ready)\<rparr>"

section \<open>The client\<close>

text \<open>A client's connection: whether dialling, arming the deadline and sending succeed, and the bytes that come back
  for the bytes sent, up to the end of the stream or the deadline.\<close>

record connection =
  cn_dial :: bool
  cn_deadline :: bool
  cn_send :: bool
  cn_recv :: "string \<Rightarrow> string"

datatype request_error = DialFailed | DeadlineFailed | SendFailed | ReplyFailed

definition first_line :: "string \<Rightarrow> string option" where
  "first_line bytes = (if request_nl \<in> set bytes then Some (takeWhile (\<lambda>c. c \<noteq> request_nl) bytes) else None)"

definition Request :: "connection \<Rightarrow> string \<Rightarrow> request_error + string" where
  "Request cn verb =
     (if \<not> cn_dial cn then Inl DialFailed
      else if \<not> cn_deadline cn then Inl DeadlineFailed
      else if \<not> cn_send cn then Inl SendFailed
      else (case first_line (cn_recv cn (verb @ [request_nl])) of None \<Rightarrow> Inl ReplyFailed | Some reply \<Rightarrow> Inr reply))"

text \<open>A verb takes no positional argument after its own.\<close>

definition rejectLeftovers :: "string list \<Rightarrow> bool" where
  "rejectLeftovers leftovers \<longleftrightarrow> leftovers \<noteq> []"

text \<open>The flags of a verb are the parameter \<open>flags\<close>: the arguments left over, or a usage error.  The result is
  the exit code.\<close>

definition runAdminVerb :: "(string list \<Rightarrow> string list option) \<Rightarrow> connection \<Rightarrow> string \<Rightarrow> string list \<Rightarrow> int" where
  "runAdminVerb flags cn request args =
     (case flags args of
        None \<Rightarrow> 2
      | Some leftovers \<Rightarrow>
          if rejectLeftovers leftovers then 2
          else (case Request cn request of
              Inl _ \<Rightarrow> 1
            | Inr reply \<Rightarrow> (case CutPrefix ''err '' reply of Some body \<Rightarrow> 1 | None \<Rightarrow> 0)))"

definition cli_id :: "string \<Rightarrow> int option" where
  "cli_id arg = (case ParseInt (runes arg) of None \<Rightarrow> None | Some i \<Rightarrow> if i \<le> 0 then None else Some i)"

definition runRetry :: "(string list \<Rightarrow> string list option) \<Rightarrow> connection \<Rightarrow> string list \<Rightarrow> int" where
  "runRetry flags cn args =
     (case args of
        [] \<Rightarrow> 2
      | arg # rest \<Rightarrow>
          (case cli_id arg of None \<Rightarrow> 2 | Some i \<Rightarrow> runAdminVerb flags cn (''retry '' @ dec_int i) rest))"

definition runDead :: "(string list \<Rightarrow> string list option) \<Rightarrow> connection \<Rightarrow> string list \<Rightarrow> int" where
  "runDead flags cn args =
     (case args of
        action # arg # rest \<Rightarrow>
          (case (if action = ''requeue'' then Some ''dead-requeue'' else if action = ''discard'' then Some ''dead-discard'' else None) of
             None \<Rightarrow> 2
           | Some verb \<Rightarrow>
               (case cli_id arg of None \<Rightarrow> 2 | Some i \<Rightarrow> runAdminVerb flags cn (verb @ '' '' @ dec_int i) rest))
      | _ \<Rightarrow> 2)"

section \<open>The contract of a hook\<close>

locale admin_hook =
  fixes hook :: "int \<Rightarrow> 's \<Rightarrow> hook_outcome \<times> 's"
  assumes refusal_keeps: "hook i s = (HookErr, s') \<Longrightarrow> s' = s"
    and no_panic: "fst (hook i s) \<noteq> HookPanic"
begin

lemma verb_effect:
  assumes "handleIDVerb name arg (Some hook) s = (r, s')"
  shows "(is_err r \<and> s' = s) \<or>
    (\<exists>i. ParseInt (TrimSpace arg) = Some i \<and> 0 < i \<and> hook i s = (HookOk, s') \<and> r = ROkVerb name i)"
proof (cases "ParseInt (TrimSpace arg)")
  case None
  with assms show ?thesis by (simp add: handleIDVerb_def) auto
next
  case (Some i)
  obtain o' t where h: "hook i s = (o', t)" by fastforce
  with no_panic [of i s] refusal_keeps [of i s t] Some assms show ?thesis
    by (cases o') (auto simp: handleIDVerb_def split: if_splits)
qed

end

interpretation hr: admin_hook "OnRetry ready now"
  by unfold_locales (auto simp: OnRetry_def split: if_splits sum.splits prod.splits)

interpretation hq: admin_hook "OnDeadRequeue ready now"
  by unfold_locales (auto simp: OnDeadRequeue_def split: if_splits sum.splits prod.splits)

interpretation hx: admin_hook "OnDeadDiscard ready"
  by unfold_locales (auto simp: OnDeadDiscard_def split: if_splits sum.splits)

section \<open>Lemmas\<close>

lemma runes_ascii: "\<forall>c \<in> set s. byte c < 128 \<Longrightarrow> runes s = map byte s"
  by (induction s) (simp_all add: decode_rune_def)

lemma dec_nat_ne: "dec_nat n \<noteq> []"
  by (subst dec_nat.simps) simp

lemma digits_foldl: "foldl (\<lambda>n d. 10 * n + int (d - 48)) 0 (map byte (dec_nat n)) = int n"
proof (induction n rule: dec_nat.induct)
  case (1 n)
  have d: "byte (char_of (48 + k)) = 48 + k" if "k < 10" for k :: nat using that by simp
  show ?case
  proof (cases "n < 10")
    case True
    then show ?thesis using d [of n] by (subst dec_nat.simps) simp
  next
    case False
    have "int (n div 10) * 10 + int (n mod 10) = int n" by (metis div_mult_mod_eq of_nat_add of_nat_mult of_nat_numeral)
    then show ?thesis using False 1 d [of "n mod 10"] by (subst dec_nat.simps) (simp add: mult.commute)
  qed
qed

lemma dec_runes: "runes (dec_nat n) = map byte (dec_nat n)" "list_all (\<lambda>d. 48 \<le> d \<and> d \<le> 57) (map byte (dec_nat n))"
proof -
  have d: "48 \<le> byte c \<and> byte c \<le> 57" if "c \<in> set (dec_nat n)" for c using dec_nat_digit [OF that] by simp
  then show "list_all (\<lambda>d. 48 \<le> d \<and> d \<le> 57) (map byte (dec_nat n))" by (simp add: list_all_iff)
  have "\<forall>c \<in> set (dec_nat n). byte c < 128" using d by fastforce
  then show "runes (dec_nat n) = map byte (dec_nat n)" by (rule runes_ascii)
qed

lemma digits_value_dec: "digits_value (runes (dec_nat n)) = Some (int n)"
proof -
  have "list_all (\<lambda>d. 48 \<le> d \<and> d \<le> 57) (runes (dec_nat n))" unfolding dec_runes(1) by (rule dec_runes(2))
  moreover have "runes (dec_nat n) \<noteq> []" using dec_nat_ne by (simp add: dec_runes(1))
  ultimately show ?thesis using digits_foldl [of n] by (simp add: digits_value_def dec_runes(1))
qed

lemma ParseInt_dec:
  assumes "0 \<le> i" and "i < 2 ^ 63"
  shows "ParseInt (runes (dec_int i)) = Some i"
proof -
  have i: "dec_int i = dec_nat (nat i)" using assms(1) by (simp add: dec_int_def)
  have "hd (runes (dec_nat (nat i))) \<in> set (runes (dec_nat (nat i)))" using dec_nat_ne [of "nat i"] by (intro hd_in_set) (simp add: dec_runes(1))
  then have "48 \<le> hd (runes (dec_nat (nat i)))" using dec_runes(2) [of "nat i"] unfolding dec_runes(1) list_all_iff by blast
  then have "hd (runes (dec_nat (nat i))) \<noteq> 43" "hd (runes (dec_nat (nat i))) \<noteq> 45" by simp_all
  then show ?thesis using assms by (simp add: ParseInt_def i digits_value_dec Let_def)
qed

lemma TrimSpace_dec: "0 \<le> i \<Longrightarrow> TrimSpace (dec_int i) = runes (dec_int i)"
proof -
  assume "0 \<le> i"
  then have i: "dec_int i = dec_nat (nat i)" by (simp add: dec_int_def)
  have "\<not> is_space d" if "d \<in> set (runes (dec_nat (nat i)))" for d
    using that dec_runes(2) [of "nat i"] by (auto simp: dec_runes(1) list_all_iff is_space_def)
  then have "dropWhile is_space (runes (dec_nat (nat i))) = runes (dec_nat (nat i))"
    "dropWhile is_space (rev (runes (dec_nat (nat i)))) = rev (runes (dec_nat (nat i)))"
    unfolding dropWhile_eq_self_iff using hd_in_set [of "runes (dec_nat (nat i))"] hd_in_set [of "rev (runes (dec_nat (nat i)))"] by auto
  then show ?thesis by (simp add: TrimSpace_def i)
qed

lemma dec_nat_length: "n < 10 ^ k \<Longrightarrow> 0 < k \<Longrightarrow> length (dec_nat n) \<le> k"
proof (induction k arbitrary: n)
  case (Suc k)
  show ?case
  proof (cases "n < 10")
    case True
    then show ?thesis by (subst dec_nat.simps) simp
  next
    case False
    then have "0 < k" using Suc.prems(1) by (cases k) auto
    moreover have "n div 10 < 10 ^ k" using Suc.prems(1) by (simp add: less_mult_imp_div_less mult.commute)
    ultimately have "length (dec_nat (n div 10)) \<le> k" using Suc.IH by blast
    then show ?thesis using False by (subst dec_nat.simps) simp
  qed
qed simp

lemma dec_int_short: "0 \<le> i \<Longrightarrow> i < 2 ^ 63 \<Longrightarrow> length (dec_int i) \<le> 19"
  using dec_nat_length [of "nat i" 19] by (simp add: dec_int_def)

lemma dec_int_no_nl: "0 \<le> i \<Longrightarrow> request_nl \<notin> set (dec_int i)"
  using dec_nat_digit [of request_nl "nat i"] by (auto simp: dec_int_def request_nl_def)

lemma read_request:
  assumes "0 \<le> i" and "i < 2 ^ 63" and "request_nl \<notin> set name" and "length name < 200"
  shows "read_line (name @ '' '' @ dec_int i @ [request_nl]) = Some (name @ '' '' @ dec_int i)"
proof -
  have "length (name @ '' '' @ dec_int i @ [request_nl]) \<le> maxRequestLine"
    using dec_int_short [OF assms(1,2)] assms(4) by (simp add: maxRequestLine_def)
  moreover have "request_nl \<notin> set (name @ '' '' @ dec_int i)" using assms(3) dec_int_no_nl [OF assms(1)] by (simp add: request_nl_def)
  then have "takeWhile (\<lambda>c. c \<noteq> request_nl) ((name @ '' '' @ dec_int i) @ [request_nl]) = name @ '' '' @ dec_int i"
    by (subst takeWhile_append2) auto
  ultimately show ?thesis by (simp add: read_line_def)
qed

text \<open>The client sees an error exactly when the daemon answered with one, whatever the relayed text holds.\<close>

lemma first_line_append:
  "request_nl \<notin> set w \<Longrightarrow> request_nl \<in> set s \<Longrightarrow> first_line (w @ s) = Some (w @ takeWhile (\<lambda>c. c \<noteq> request_nl) s)"
  by (auto simp: first_line_def takeWhile_append)

lemma reply_line:
  obtains l where "first_line (reply_text quote why r) = Some l" "CutPrefix ''err '' l = None \<longleftrightarrow> \<not> is_err r"
proof -
  define w where "w = (if is_err r then ''err '' else ''ok'')"
  have "\<exists>s. reply_text quote why r = w @ s \<and> request_nl \<in> set s" by (cases r) (simp_all add: w_def)
  then obtain s where s: "reply_text quote why r = w @ s" "request_nl \<in> set s" by blast
  have "request_nl \<notin> set w" by (simp add: w_def request_nl_def)
  moreover have "CutPrefix ''err '' (w @ t) = None \<longleftrightarrow> \<not> is_err r" for t by (simp add: w_def CutPrefix_def has_prefix_def)
  ultimately show ?thesis using that first_line_append [OF _ s(2)] s(1) by simp
qed

lemma verb_arg_own: "verb_arg name (name @ '' '' @ a) = Some a"
  using has_prefix_append [of "name @ '' ''" a] by (simp add: verb_arg_def CutPrefix_def)

lemma verb_arg_Some:
  assumes "verb_arg name verb = Some a"
  shows "verb = name @ '' '' @ a \<or> (verb = name \<and> a = name)"
proof (cases "has_prefix (name @ '' '') verb")
  case True
  then obtain t where "verb = (name @ '' '') @ t" unfolding has_prefix_iff by blast
  with assms True show ?thesis by (simp add: verb_arg_def CutPrefix_def)
next
  case False
  with assms show ?thesis by (simp add: verb_arg_def CutPrefix_def split: if_splits)
qed

lemma verb_arg_other:
  "verb_arg ''retry'' (''dead-requeue '' @ a) = None" "verb_arg ''retry'' (''dead-discard '' @ a) = None"
  "verb_arg ''dead-requeue'' (''dead-discard '' @ a) = None"
  by (simp_all add: verb_arg_def CutPrefix_def has_prefix_def)

lemma bare_name:
  assumes "name \<in> {''retry'', ''dead-requeue'', ''dead-discard''}"
  shows "ParseInt (TrimSpace name) = None"
proof -
  have "ParseInt (TrimSpace ''retry'') = None"
    by (simp add: TrimSpace_def decode_rune_def is_space_def ParseInt_def digits_value_def)
  moreover have "ParseInt (TrimSpace ''dead-requeue'') = None"
    by (simp add: TrimSpace_def decode_rune_def is_space_def ParseInt_def digits_value_def)
  moreover have "ParseInt (TrimSpace ''dead-discard'') = None"
    by (simp add: TrimSpace_def decode_rune_def is_space_def ParseInt_def digits_value_def)
  ultimately show ?thesis using assms by blast
qed

lemma id_verb_arg:
  assumes "handleIDVerb name arg (Some h) s = (r, s')" and "verb_arg name verb = Some arg"
    and "name \<in> {''retry'', ''dead-requeue'', ''dead-discard''}" and "\<not> (is_err r \<and> s' = s)" and "admin_hook h"
  shows "\<exists>i. verb = name @ '' '' @ arg \<and> ParseInt (TrimSpace arg) = Some i \<and> 0 < i \<and> h i s = (HookOk, s') \<and> r = ROkVerb name i"
proof -
  from admin_hook.verb_effect [OF assms(5,1)] assms(4) obtain i where i: "ParseInt (TrimSpace arg) = Some i" "0 < i"
    "h i s = (HookOk, s')" "r = ROkVerb name i" by blast
  with verb_arg_Some [OF assms(2)] bare_name [OF assms(3)] show ?thesis by auto
qed

lemma hook_wf:
  "OnRetry ready now i s = (HookOk, s') \<Longrightarrow> wf_db (dm_db s) \<Longrightarrow> wf_db (dm_db s')"
  "OnDeadRequeue ready now i s = (HookOk, s') \<Longrightarrow> wf_db (dm_db s) \<Longrightarrow> wf_db (dm_db s')"
  "OnDeadDiscard ready i s = (HookOk, s') \<Longrightarrow> wf_db (dm_db s) \<Longrightarrow> wf_db (dm_db s')"
  by (auto simp: OnRetry_def OnDeadRequeue_def OnDeadDiscard_def dest: RequeueInterrupted_wf RequeueDead_wf Discard_wf
      split: if_splits sum.splits)

text \<open>A connection to a daemon in a given state: the bytes that come back are the line of its answer, none when it
  closes without one.\<close>

definition daemon_connection ::
  "(string \<Rightarrow> string) \<Rightarrow> (reply \<Rightarrow> string) \<Rightarrow> daemon Options \<Rightarrow> daemon \<times> bool \<Rightarrow> connection" where
  "daemon_connection quote why opts st =
     \<lparr>cn_dial = True, cn_deadline = True, cn_send = True,
      cn_recv = (\<lambda>line. case fst (handle opts line st) of None \<Rightarrow> [] | Some r \<Rightarrow> reply_text quote why r)\<rparr>"

lemma verb_exit_code:
  assumes "fst (handle opts (request @ [request_nl]) st) = Some r" and "flags rest = Some []"
  shows "runAdminVerb flags (daemon_connection quote why opts st) request rest = (if is_err r then 1 else 0)"
proof -
  obtain l where "first_line (reply_text quote why r) = Some l" "CutPrefix ''err '' l = None \<longleftrightarrow> \<not> is_err r" by (rule reply_line)
  with assms show ?thesis
    by (cases "CutPrefix ''err '' l") (simp_all add: runAdminVerb_def rejectLeftovers_def Request_def daemon_connection_def)
qed

definition id_hook :: "bool \<Rightarrow> int \<Rightarrow> string \<Rightarrow> int \<Rightarrow> daemon \<Rightarrow> hook_outcome \<times> daemon" where
  "id_hook ready now name =
     (if name = ''retry'' then OnRetry ready now else if name = ''dead-requeue'' then OnDeadRequeue ready now else OnDeadDiscard ready)"

abbreviation id_verbs :: "string set" where
  "id_verbs \<equiv> {''retry'', ''dead-requeue'', ''dead-discard''}"

lemma id_hook_contract: "name \<in> id_verbs \<Longrightarrow> admin_hook (id_hook ready now name)"
  using hr.admin_hook_axioms hq.admin_hook_axioms hx.admin_hook_axioms by (auto simp: id_hook_def)

lemma id_verb_dispatch:
  assumes "name \<in> id_verbs"
  shows "handle_verb (daemon_options ready now status) (name @ '' '' @ a) (s, dr) =
    (case handleIDVerb name a (Some (id_hook ready now name)) s of (r, s') \<Rightarrow> (r, (s', dr)))"
proof -
  have o: "op_OnRetry (daemon_options ready now status) = Some (id_hook ready now ''retry'')"
    "op_OnDeadRequeue (daemon_options ready now status) = Some (id_hook ready now ''dead-requeue'')"
    "op_OnDeadDiscard (daemon_options ready now status) = Some (id_hook ready now ''dead-discard'')"
    by (simp_all add: daemon_options_def id_hook_def)
  have v: "verb_arg ''retry'' (''dead-requeue'' @ '' '' @ a) = None" "verb_arg ''retry'' (''dead-discard'' @ '' '' @ a) = None"
    "verb_arg ''dead-requeue'' (''dead-discard'' @ '' '' @ a) = None" using verb_arg_other [of a] by simp_all
  from assms consider "name = ''retry''" | "name = ''dead-requeue''" | "name = ''dead-discard''" by blast
  then show ?thesis
    by cases (simp_all only: handle_verb_def o v verb_arg_own prod.case option.case)
qed

text \<open>What a request can change.\<close>

lemma handle_effect:
  assumes "handle (daemon_options ready now status) input (s, dr) = (r, (s', dr'))" and "(s', dr') \<noteq> (s, dr)"
  shows "\<exists>verb. read_line input = Some verb \<and>
    ((verb = ''poke'' \<and> s' = s\<lparr>dm_pokes := dm_pokes s + 1\<rparr> \<and> dr' = dr \<and> r = Some ROk) \<or>
     (verb = ''drain'' \<and> s' = s \<and> dr' \<and> r = Some ROkDraining) \<or>
     (\<exists>name arg i. name \<in> {''retry'', ''dead-requeue'', ''dead-discard''} \<and> verb = name @ '' '' @ arg \<and>
        ParseInt (TrimSpace arg) = Some i \<and> 0 < i \<and> id_hook ready now name i s = (HookOk, s') \<and> dr' = dr \<and> r = Some (ROkVerb name i)))"
proof -
  from assms obtain verb r1 where rl: "read_line input = Some verb" and hv: "handle_verb (daemon_options ready now status) verb (s, dr) = (r1, (s', dr'))"
    and r: "r = Some r1" by (auto simp: handle_def split: option.splits prod.splits)
  have idv: ?thesis if nm: "name \<in> id_verbs" and a: "verb_arg name verb = Some arg"
    and h: "handleIDVerb name arg (Some (id_hook ready now name)) s = (r1, s')" and d: "dr' = dr" for name arg
  proof -
    have "\<not> (is_err r1 \<and> s' = s)" using assms(2) d by blast
    from id_verb_arg [OF h a nm this id_hook_contract [OF nm]] obtain i where "verb = name @ '' '' @ arg"
      "ParseInt (TrimSpace arg) = Some i" "0 < i" "id_hook ready now name i s = (HookOk, s')" "r1 = ROkVerb name i" by blast
    with nm rl r d show ?thesis by blast
  qed
  show ?thesis
  proof (cases "verb_arg ''retry'' verb")
    case (Some arg)
    show ?thesis by (rule idv [OF _ Some]) (use hv Some in \<open>auto simp: handle_verb_def daemon_options_def id_hook_def split: prod.splits\<close>)
  next
    case n1: None
    show ?thesis
    proof (cases "verb_arg ''dead-requeue'' verb")
      case (Some arg)
      show ?thesis by (rule idv [OF _ Some]) (use hv n1 Some in \<open>auto simp: handle_verb_def daemon_options_def id_hook_def split: prod.splits\<close>)
    next
      case n2: None
      show ?thesis
      proof (cases "verb_arg ''dead-discard'' verb")
        case (Some arg)
        show ?thesis by (rule idv [OF _ Some]) (use hv n1 n2 Some in \<open>auto simp: handle_verb_def daemon_options_def id_hook_def split: prod.splits\<close>)
      next
        case None
        with hv n1 n2 assms(2) have "(verb = ''poke'' \<and> s' = s\<lparr>dm_pokes := dm_pokes s + 1\<rparr> \<and> dr' = dr \<and> r1 = ROk) \<or>
          (verb = ''drain'' \<and> s' = s \<and> dr' \<and> r1 = ROkDraining)"
          by (auto simp: handle_verb_def daemon_options_def OnPoke_def split: if_splits prod.splits hook_outcome.splits)
        with rl r show ?thesis by auto
      qed
    qed
  qed
qed

section \<open>Properties\<close>

text \<open>
  C34: the operator's decision reaches exactly the event it names.  The request the command line composes
  for a positive int64 id is read back by the daemon as that id and no other: the matching hook runs on
  it once, the answer tells whether it succeeded, a refusal leaves the daemon unchanged, and the exit code
  of the command says the same.
\<close>

theorem operator_verb_round_trip:
  assumes "0 < i" and "i < 2 ^ 63" and "name \<in> {''retry'', ''dead-requeue'', ''dead-discard''}" and "flags rest = Some []"
    and "id_hook ready now name i s = (oc, s')"
  shows "handle (daemon_options ready now status) (name @ '' '' @ dec_int i @ [request_nl]) (s, dr) =
      (if oc = HookOk then (Some (ROkVerb name i), (s', dr)) else (Some (RFailed name i), (s, dr))) \<and>
    (let cn = daemon_connection quote why (daemon_options ready now status) (s, dr) in
      (name = ''retry'' \<longrightarrow> runRetry flags cn (dec_int i # rest) = (if oc = HookOk then 0 else 1)) \<and>
      (name = ''dead-requeue'' \<longrightarrow> runDead flags cn (''requeue'' # dec_int i # rest) = (if oc = HookOk then 0 else 1)) \<and>
      (name = ''dead-discard'' \<longrightarrow> runDead flags cn (''discard'' # dec_int i # rest) = (if oc = HookOk then 0 else 1)))"
proof -
  have nm: "request_nl \<notin> set name" "length name < 200" using assms(3) by (auto simp: request_nl_def)
  have rl: "read_line (name @ '' '' @ dec_int i @ [request_nl]) = Some (name @ '' '' @ dec_int i)"
    using read_request [OF _ assms(2) nm] assms(1) by simp
  have p: "ParseInt (TrimSpace (dec_int i)) = Some i" using TrimSpace_dec ParseInt_dec assms(1,2) by simp
  have c: "cli_id (dec_int i) = Some i" using ParseInt_dec assms(1,2) by (simp add: cli_id_def)
  have np: "oc \<noteq> HookPanic" "oc = HookErr \<longrightarrow> s' = s"
    using admin_hook.no_panic [OF id_hook_contract [OF assms(3)], of ready now i s]
      admin_hook.refusal_keeps [OF id_hook_contract [OF assms(3)], of ready now i s s'] assms(5) by auto
  have "handleIDVerb name (dec_int i) (Some (id_hook ready now name)) s =
      (if oc = HookOk then (ROkVerb name i, s') else (RFailed name i, s))"
    using p assms(1,5) np by (cases oc) (simp_all add: handleIDVerb_def)
  then have h: "handle (daemon_options ready now status) (name @ '' '' @ dec_int i @ [request_nl]) (s, dr) =
      (if oc = HookOk then (Some (ROkVerb name i), (s', dr)) else (Some (RFailed name i), (s, dr)))"
    using rl id_verb_dispatch [OF assms(3)] by (simp add: handle_def)
  then have "runAdminVerb flags (daemon_connection quote why (daemon_options ready now status) (s, dr)) (name @ '' '' @ dec_int i) rest =
      (if oc = HookOk then 0 else 1)" using verb_exit_code [where request = "name @ '' '' @ dec_int i" and flags = flags and rest = rest, OF _ assms(4)]
    by (cases "oc = HookOk") simp_all
  with h c show ?thesis by (auto simp: runRetry_def runDead_def Let_def)
qed

definition ex_daemon :: daemon where
  "ex_daemon = \<lparr>dm_db = ex_dead_db, dm_queues = New, dm_pokes = 0\<rparr>"

theorem operator_verb_round_trip_witness:
  "runDead (\<lambda>a. Some a) (daemon_connection (\<lambda>s. s) (\<lambda>_. []) (daemon_options True 7 (\<lambda>_. (HookOk, []))) (ex_daemon, False)) [''requeue'', ''1''] = 0"
proof -
  have d: "dec_int 1 = ''1''" by code_simp
  have "fst (id_hook True 7 ''dead-requeue'' 1 ex_daemon) = HookOk"
    by (simp add: id_hook_def OnDeadRequeue_def ex_daemon_def ResolveDeadLetterRequeue_def ex_defs exec_defs rows_affected_def
        sql_update_def event_by_id_def split: option.split)
  then obtain s' where "id_hook True 7 ''dead-requeue'' 1 ex_daemon = (HookOk, s')" by (metis prod.collapse)
  from operator_verb_round_trip [OF _ _ _ _ this, of "\<lambda>a. Some a" "[]" "\<lambda>_. (HookOk, [])" False "\<lambda>s. s" "\<lambda>_. []"] show ?thesis
    by (simp add: d Let_def)
qed

text \<open>
  C35: the socket does nothing it was not asked.  Whatever bytes a client sends, the daemon changes only
  for a line that is poke, drain, or one of the three verbs with a space and a positive decimal int64
  id; in particular a garbled, truncated or overlong request, an id with trailing junk or out of range,
  and a status request change nothing, and no request breaks the store's invariant.
\<close>

theorem socket_acts_only_on_request:
  assumes "handle (daemon_options ready now status) input (s, dr) = (r, (s', dr'))" and "(s', dr') \<noteq> (s, dr)"
  shows "\<exists>verb. read_line input = Some verb \<and> (wf_db (dm_db s) \<longrightarrow> wf_db (dm_db s')) \<and>
    ((verb = ''poke'' \<and> s' = s\<lparr>dm_pokes := dm_pokes s + 1\<rparr> \<and> dr' = dr \<and> r = Some ROk) \<or>
     (verb = ''drain'' \<and> s' = s \<and> dr' \<and> r = Some ROkDraining) \<or>
     (\<exists>name arg i. name \<in> {''retry'', ''dead-requeue'', ''dead-discard''} \<and> verb = name @ '' '' @ arg \<and>
        ParseInt (TrimSpace arg) = Some i \<and> 0 < i \<and> id_hook ready now name i s = (HookOk, s') \<and> dr' = dr \<and> r = Some (ROkVerb name i)))"
proof -
  have "id_hook ready now name i s = (HookOk, s') \<Longrightarrow> wf_db (dm_db s) \<longrightarrow> wf_db (dm_db s')" for name i
    using hook_wf by (auto simp: id_hook_def split: if_splits)
  with handle_effect [OF assms] show ?thesis by fastforce
qed

theorem socket_acts_only_on_request_witness:
  "\<exists>r. handle (daemon_options True 7 (\<lambda>_. (HookOk, []))) (''poke'' @ [request_nl]) (ex_daemon, False) = (r, (ex_daemon\<lparr>dm_pokes := 1\<rparr>, False)) \<and> r = Some ROk"
proof -
  have rl: "read_line (''poke'' @ [request_nl]) = Some ''poke''" by (simp add: read_line_def maxRequestLine_def request_nl_def)
  have v: "verb_arg ''retry'' ''poke'' = None" "verb_arg ''dead-requeue'' ''poke'' = None" "verb_arg ''dead-discard'' ''poke'' = None"
    by (simp_all add: verb_arg_def CutPrefix_def has_prefix_def)
  have h: "handle (daemon_options True 7 (\<lambda>_. (HookOk, []))) (''poke'' @ [request_nl]) (ex_daemon, False) = (Some ROk, (ex_daemon\<lparr>dm_pokes := 1\<rparr>, False))"
    using rl v by (simp add: handle_def handle_verb_def daemon_options_def OnPoke_def ex_daemon_def)
  have "(ex_daemon\<lparr>dm_pokes := 1\<rparr>, False) \<noteq> (ex_daemon, False)" by (simp add: ex_daemon_def)
  from socket_acts_only_on_request [OF h this] rl h show ?thesis by auto
qed

end
