(* ===== verification/Gateway.thy ===== *)
theory Gateway
  imports Ingest Admin
begin

text \<open>
  The gateway connection: \<open>src/internal/adapter/discord/discord.go\<close>.  The connect loop of \<open>Run\<close> is a
  machine over the places where the loop blocks; its inputs are what the outside does there: \<open>Open\<close> returning,
  connections dropping and disconnect signals, the passing of time and cancellation.  Instants and delays are
  nanoseconds on a monotonic clock; the random jitter is part of the input.  Ghost fields record when each
  attempt that reached the gateway was dialed and how many sessions were discarded.  The message boundary takes discordgo's state cache and its REST fetch as
  a record.
\<close>

section \<open>Construction\<close>

datatype intent = IntentsDirectMessages | IntentsGuildMessages | IntentsMessageContent | IntentsGuilds | OtherIntent nat

definition intents :: "intent list" where
  "intents = [IntentsDirectMessages, IntentsGuildMessages, IntentsMessageContent, IntentsGuilds]"

text \<open>What the adapter sets on a discordgo session; a token is its runes.\<close>

record dg_session =
  dg_Token :: "nat list"
  dg_Intents :: "intent list"
  dg_ShouldReconnectOnError :: bool
  dg_SyncEvents :: bool

datatype adapter_error = TokenUnreadable | TokenEmpty | EmptyToken | NilHandler | NilLogger | SessionFailed

definition adopt :: "dg_session \<Rightarrow> dg_session" where
  "adopt s = s\<lparr>dg_Intents := intents, dg_ShouldReconnectOnError := False, dg_SyncEvents := True\<rparr>"

definition discord_New ::
  "(nat list \<Rightarrow> dg_session option) \<Rightarrow> nat list \<Rightarrow> bool \<Rightarrow> bool \<Rightarrow> adapter_error + dg_session" where
  "discord_New mk_session token handler logger =
     (if list_all is_space token then Inl EmptyToken
      else if \<not> handler then Inl NilHandler
      else if \<not> logger then Inl NilLogger
      else (case mk_session (runes ''Bot '' @ token) of None \<Rightarrow> Inl SessionFailed | Some s \<Rightarrow> Inr (adopt s)))"

definition resetSession :: "(nat list \<Rightarrow> dg_session option) \<Rightarrow> dg_session \<Rightarrow> adapter_error + dg_session" where
  "resetSession mk_session a = (case mk_session (dg_Token a) of None \<Rightarrow> Inl SessionFailed | Some s \<Rightarrow> Inr (adopt s))"

text \<open>The file is its contents, when it could be read.\<close>

definition ReadToken :: "string option \<Rightarrow> adapter_error + nat list" where
  "ReadToken contents =
     (case contents of
        None \<Rightarrow> Inl TokenUnreadable
      | Some data \<Rightarrow> if TrimSpace data = [] then Inl TokenEmpty else Inr (TrimSpace data))"

section \<open>Errors and delays\<close>

datatype open_result = OpenOk | AlreadyOpen | Unauthorized | CloseCode int | OtherErr

definition terminal :: "open_result \<Rightarrow> bool" where
  "terminal r = (case r of Unauthorized \<Rightarrow> True | CloseCode c \<Rightarrow> c \<in> {4004, 4012, 4013, 4014} | _ \<Rightarrow> False)"

definition staleSession :: "open_result \<Rightarrow> bool" where
  "staleSession r = (case r of CloseCode c \<Rightarrow> c \<in> {4007, 4009} | _ \<Rightarrow> False)"

definition backoffBase :: int where "backoffBase = 1000000000"
definition backoffCap :: int where "backoffCap = 60 * 1000000000"
definition healthyReset :: int where "healthyReset = 60 * 1000000000"

text \<open>\<open>rand.N(n)\<close> is a number below \<open>n\<close>, here the jitter modulo \<open>n\<close>.\<close>

definition backoffDelay :: "nat \<Rightarrow> nat \<Rightarrow> int" where
  "backoffDelay attempt jitter =
     (let d = (if attempt < 6 then min (backoffBase * 2 ^ attempt) backoffCap else backoffCap)
      in d + int jitter mod (d div 4 + 1))"

section \<open>The connect loop\<close>

text \<open>
  Where the loop stands: at its top, inside \<open>openCancellable\<close>, in the select over an open connection, in a
  back-off sleep (with its wake-up time and whether a cancelled sleep closes the session), or returned.
\<close>

datatype gw_end = EndCancelled | EndRefused | EndResetFailed

datatype gw_phase = Opening | Dialing | Watching | Sleeping int bool | Returned gw_end

text \<open>
  \<open>gw_live\<close> is the socket as discordgo holds it and \<open>gw_pending\<close> the one buffered disconnect signal; an
  abandoned \<open>Open\<close> still has its reaper (\<open>gw_reaper\<close>).
\<close>

record gateway =
  gw_phase :: gw_phase
  gw_attempt :: nat
  gw_connectedAt :: int
  gw_now :: int
  gw_live :: bool
  gw_pending :: bool
  gw_reaper :: bool
  gw_dialed :: int
  gw_opens :: "int list"
  gw_resets :: nat

text \<open>
  \<open>Proceed\<close> passes the context check at the top of the loop; \<open>Opened\<close> is \<open>Open\<close> returning, with the jitter
  and the outcome of a session rebuild; \<open>Signalled\<close> is the loop receiving the disconnect signal; \<open>Drop\<close> is
  the connection going down, \<open>Stray\<close> a duplicate disconnect event for a drop already handled; \<open>Cancelled\<close>
  is the loop observing its cancelled context.
\<close>

datatype gw_input = Elapse nat | Proceed | Opened open_result nat bool | Signalled nat | Drop | Stray | Cancelled

text \<open>discordgo's \<open>Close\<close> takes the socket down and emits a disconnect event.\<close>

definition close :: "gateway \<Rightarrow> gateway" where
  "close g = g\<lparr>gw_live := False, gw_pending := True\<rparr>"

definition back_off :: "nat \<Rightarrow> bool \<Rightarrow> gateway \<Rightarrow> gateway" where
  "back_off jitter closing g =
     g\<lparr>gw_phase := Sleeping (gw_now g + backoffDelay (gw_attempt g) jitter) closing, gw_attempt := Suc (gw_attempt g)\<rparr>"

text \<open>
  \<open>openCancellable\<close> returned without cancellation.  \<open>Open\<close> reports a socket that is already up, and only
  then, so that outcome is read off the session instead of taken from the input.
\<close>

definition after_open :: "open_result \<Rightarrow> nat \<Rightarrow> bool \<Rightarrow> gateway \<Rightarrow> gateway" where
  "after_open r jitter reset_ok g =
     (if gw_live g then g\<lparr>gw_phase := Watching\<rparr>
      else
        let g1 = g\<lparr>gw_opens := gw_opens g @ [gw_dialed g]\<rparr> in
        if r = OpenOk then g1\<lparr>gw_phase := Watching, gw_live := True, gw_connectedAt := gw_now g\<rparr>
        else if terminal r then g1\<lparr>gw_phase := Returned EndRefused\<rparr>
        else if staleSession r then
          (if \<not> reset_ok then g1\<lparr>gw_phase := Returned EndResetFailed\<rparr>
           else back_off jitter False (g1\<lparr>gw_resets := Suc (gw_resets g1)\<rparr>))
        else back_off jitter False g1)"

text \<open>The goroutine \<open>openCancellable\<close> leaves behind closes a handshake that succeeds late.\<close>

definition reap :: "open_result \<Rightarrow> gateway \<Rightarrow> gateway" where
  "reap r g = (if gw_live g \<or> r = OpenOk then close (g\<lparr>gw_reaper := False\<rparr>) else g\<lparr>gw_reaper := False\<rparr>)"

definition after_signal :: "nat \<Rightarrow> gateway \<Rightarrow> gateway" where
  "after_signal jitter g =
     (let g1 = g\<lparr>gw_pending := False\<rparr> in
      if gw_now g1 - gw_connectedAt g1 \<ge> healthyReset then g1\<lparr>gw_phase := Opening, gw_attempt := 0\<rparr>
      else back_off jitter True g1)"

definition elapse :: "nat \<Rightarrow> gateway \<Rightarrow> gateway" where
  "elapse n g =
     (let g1 = g\<lparr>gw_now := gw_now g + int n\<rparr> in
      case gw_phase g1 of Sleeping t _ \<Rightarrow> if t \<le> gw_now g1 then g1\<lparr>gw_phase := Opening\<rparr> else g1 | _ \<Rightarrow> g1)"

definition cancelled :: "gateway \<Rightarrow> gateway" where
  "cancelled g =
     (case gw_phase g of
        Opening \<Rightarrow> (close g)\<lparr>gw_phase := Returned EndCancelled\<rparr>
      | Dialing \<Rightarrow> g\<lparr>gw_phase := Returned EndCancelled, gw_reaper := True\<rparr>
      | Watching \<Rightarrow> (close g)\<lparr>gw_phase := Returned EndCancelled\<rparr>
      | Sleeping _ closing \<Rightarrow> (if closing then close g else g)\<lparr>gw_phase := Returned EndCancelled\<rparr>
      | Returned _ \<Rightarrow> g)"

text \<open>One turn of the loop, or of its surroundings; an input that does not fit the phase is not consumed.\<close>

definition Run_step :: "gw_input \<Rightarrow> gateway \<Rightarrow> gateway" where
  "Run_step i g =
     (case i of
        Elapse n \<Rightarrow> elapse n g
      | Proceed \<Rightarrow> if gw_phase g = Opening then g\<lparr>gw_phase := Dialing, gw_dialed := gw_now g\<rparr> else g
      | Opened r jitter reset_ok \<Rightarrow>
          if gw_phase g = Dialing then after_open r jitter reset_ok g else if gw_reaper g then reap r g else g
      | Signalled jitter \<Rightarrow> if gw_phase g = Watching \<and> gw_pending g then after_signal jitter g else g
      | Drop \<Rightarrow> if gw_live g then g\<lparr>gw_live := False, gw_pending := True\<rparr> else g
      | Stray \<Rightarrow> g\<lparr>gw_pending := True\<rparr>
      | Cancelled \<Rightarrow> cancelled g)"

definition gateway_start :: "int \<Rightarrow> gateway" where
  "gateway_start now =
     \<lparr>gw_phase = Opening, gw_attempt = 0, gw_connectedAt = 0, gw_now = now, gw_live = False, gw_pending = False,
      gw_reaper = False, gw_dialed = now, gw_opens = [], gw_resets = 0\<rparr>"

section \<open>The message boundary\<close>

datatype channel_kind = DirectMessage | GroupDM | Thread | OtherChannel

text \<open>The session: whether it has a state cache, the bot's user, the cached channels, the REST fetch and whether
  a fetched channel can be cached.\<close>

record session_view =
  sv_state :: bool
  sv_self :: "string option"
  sv_cache :: "string \<Rightarrow> channel_kind option"
  sv_fetch :: "string \<Rightarrow> channel_kind option"
  sv_addable :: bool

definition isThread :: "session_view \<Rightarrow> string \<Rightarrow> bool" where
  "isThread s channelID = (sv_state s \<and> sv_cache s channelID = Some Thread)"

definition isDirectMessage :: "session_view \<Rightarrow> string \<Rightarrow> bool \<times> session_view" where
  "isDirectMessage s channelID =
     (if \<not> sv_state s then (False, s)
      else (case sv_cache s channelID of
          Some k \<Rightarrow> (k = DirectMessage, s)
        | None \<Rightarrow>
            (case sv_fetch s channelID of
               None \<Rightarrow> (False, s)
             | Some k \<Rightarrow>
                 (k = DirectMessage, if sv_addable s then s\<lparr>sv_cache := (sv_cache s)(channelID \<mapsto> k)\<rparr> else s))))"

text \<open>The handler is given the message, or not.\<close>

definition onMessageCreate :: "bool \<Rightarrow> session_view \<Rightarrow> MessageCreate \<Rightarrow> bool \<times> session_view" where
  "onMessageCreate draining s m =
     (if mc_Author m \<noteq> None \<and> sv_state s \<and> sv_self s \<noteq> None \<and> mc_Author m = sv_self s then (False, s)
      else if mc_GuildID m \<noteq> [] \<and> \<not> isThread s (mc_ChannelID m) then (False, s)
      else if mc_GuildID m = [] then
        (case isDirectMessage s (mc_ChannelID m) of (ok, s') \<Rightarrow> (ok \<and> \<not> draining, s'))
      else (\<not> draining, s))"

text \<open>The adapter as the daemon wires it: what passes the boundary goes to the ingest handler.\<close>

definition receive_message :: "(event_Event \<Rightarrow> string option) \<Rightarrow> (string \<Rightarrow> mirror option) \<Rightarrow> bool \<Rightarrow> bool \<Rightarrow> string \<Rightarrow> int \<Rightarrow> bool
    \<Rightarrow> MessageCreate \<Rightarrow> session_view \<times> db \<times> Queues \<Rightarrow> session_view \<times> db \<times> Queues" where
  "receive_message marshal unmarshal tf ow auth now draining m st =
     (case st of (s, dq) \<Rightarrow>
       case onMessageCreate draining s m of (pass, s') \<Rightarrow>
         (s', if pass then discordIngest marshal unmarshal tf ow auth now (Some m) dq else dq))"

section \<open>The handler join\<close>

record join_state =
  js_draining :: bool
  js_running :: nat
  js_returned :: bool

inductive join_step :: "join_state \<Rightarrow> join_state \<Rightarrow> bool" where
  enter: "\<not> js_draining j \<Longrightarrow> join_step j (j\<lparr>js_running := Suc (js_running j)\<rparr>)"
| leave: "js_running j = Suc n \<Longrightarrow> join_step j (j\<lparr>js_running := n\<rparr>)"
| drain: "join_step j (j\<lparr>js_draining := True\<rparr>)"
| finish: "js_draining j \<Longrightarrow> js_running j = 0 \<Longrightarrow> join_step j (j\<lparr>js_returned := True\<rparr>)"

section \<open>Lemmas\<close>

lemma backoffDelay_bounds: "backoffBase \<le> backoffDelay attempt jitter" "backoffDelay attempt jitter \<le> backoffCap + backoffCap div 4"
proof -
  define d where "d = (if attempt < 6 then min (backoffBase * 2 ^ attempt) backoffCap else backoffCap)"
  have "(1::int) \<le> 2 ^ attempt" by simp
  then have d: "backoffBase \<le> d" "d \<le> backoffCap" by (auto simp: d_def backoffBase_def backoffCap_def min_def)
  have pos: "0 < d div 4 + 1" using d(1) by (simp add: backoffBase_def)
  have j: "0 \<le> int jitter mod (d div 4 + 1)" "int jitter mod (d div 4 + 1) \<le> d div 4"
    using pos_mod_bound [OF pos, of "int jitter"] pos_mod_sign [OF pos, of "int jitter"] by simp_all
  have e: "backoffDelay attempt jitter = d + int jitter mod (d div 4 + 1)" by (simp add: backoffDelay_def d_def Let_def)
  show "backoffBase \<le> backoffDelay attempt jitter" using d(1) j(1) unfolding e by linarith
  have "d div 4 \<le> backoffCap div 4" using d(2) by (simp add: zdiv_mono1)
  then show "backoffDelay attempt jitter \<le> backoffCap + backoffCap div 4" using d(2) j(2) unfolding e by linarith
qed

definition spaced :: "int list \<Rightarrow> bool" where
  "spaced ts \<longleftrightarrow> (\<forall>i. Suc i < length ts \<longrightarrow> ts ! i + backoffBase \<le> ts ! Suc i)"

text \<open>
  The last attempt lies a second behind whenever the next may be dialed; a live socket is watched, about to be
  looked at again, or about to be reaped; and a watched connection that is down has its signal waiting.
\<close>

definition gw_timed :: "gateway \<Rightarrow> bool" where
  "gw_timed g \<longleftrightarrow> (gw_opens g \<noteq> [] \<longrightarrow>
     (let t = last (gw_opens g) in
      case gw_phase g of
        Opening \<Rightarrow> t + backoffBase \<le> gw_now g
      | Dialing \<Rightarrow> t + backoffBase \<le> gw_dialed g
      | Watching \<Rightarrow> t \<le> gw_now g \<and> (t \<le> gw_connectedAt g \<or> t + backoffBase \<le> gw_now g)
      | Sleeping w _ \<Rightarrow> t + backoffBase \<le> w
      | Returned _ \<Rightarrow> True)) \<and>
   (gw_phase g = Dialing \<longrightarrow> gw_dialed g \<le> gw_now g)"

definition gw_watched :: "gateway \<Rightarrow> bool" where
  "gw_watched g \<longleftrightarrow>
     (case gw_phase g of
        Watching \<Rightarrow> gw_live g \<or> gw_pending g
      | Sleeping _ False \<Rightarrow> \<not> gw_live g
      | Returned _ \<Rightarrow> \<not> gw_live g \<or> gw_reaper g
      | _ \<Rightarrow> True)"

definition gw_ok :: "gateway \<Rightarrow> bool" where
  "gw_ok g \<longleftrightarrow> spaced (gw_opens g) \<and> gw_timed g \<and> gw_watched g"

lemma spaced_snoc:
  assumes "spaced ts" and "ts \<noteq> [] \<Longrightarrow> last ts + backoffBase \<le> t"
  shows "spaced (ts @ [t])"
  unfolding spaced_def
proof (intro allI impI)
  fix i
  assume i: "Suc i < length (ts @ [t])"
  show "(ts @ [t]) ! i + backoffBase \<le> (ts @ [t]) ! Suc i"
  proof (cases "Suc i < length ts")
    case True
    with assms(1) show ?thesis by (simp add: spaced_def nth_append)
  next
    case False
    with i have e: "length ts = Suc i" by simp
    then have ne: "ts \<noteq> []" by auto
    with assms(2) e show ?thesis by (simp add: nth_append last_conv_nth)
  qed
qed

lemma base_pos: "0 < backoffBase"
  by (simp add: backoffBase_def)

lemma back_off_ok:
  assumes "spaced (gw_opens g)" and "gw_opens g \<noteq> [] \<Longrightarrow> last (gw_opens g) \<le> gw_now g" and "closing \<or> \<not> gw_live g"
  shows "gw_ok (back_off jitter closing g)"
  using assms backoffDelay_bounds(1) [of "gw_attempt g" jitter]
  by (cases closing) (auto simp: gw_ok_def gw_timed_def gw_watched_def back_off_def Let_def)

lemma after_open_ok:
  assumes "gw_ok g" and "gw_phase g = Dialing"
  shows "gw_ok (after_open r jitter reset_ok g)"
proof (cases "gw_live g")
  case True
  with assms base_pos show ?thesis by (auto simp: after_open_def gw_ok_def gw_timed_def gw_watched_def Let_def)
next
  case False
  have sp: "spaced (gw_opens g @ [gw_dialed g])" using assms by (intro spaced_snoc) (auto simp: gw_ok_def gw_timed_def Let_def)
  have le: "gw_dialed g \<le> gw_now g" using assms by (simp add: gw_ok_def gw_timed_def)
  have b: "gw_ok (back_off jitter False (g\<lparr>gw_opens := gw_opens g @ [gw_dialed g], gw_resets := n\<rparr>))" for n
    using sp le False by (intro back_off_ok) auto
  have b': "gw_ok (back_off jitter False (g\<lparr>gw_opens := gw_opens g @ [gw_dialed g]\<rparr>))"
    using sp le False by (intro back_off_ok) auto
  have c: "gw_ok (g\<lparr>gw_opens := gw_opens g @ [gw_dialed g], gw_phase := Watching, gw_live := True, gw_connectedAt := gw_now g\<rparr>)"
    using sp le by (simp add: gw_ok_def gw_timed_def gw_watched_def Let_def)
  have d: "gw_ok (g\<lparr>gw_opens := gw_opens g @ [gw_dialed g], gw_phase := Returned e\<rparr>)" for e
    using sp False by (simp add: gw_ok_def gw_timed_def gw_watched_def)
  show ?thesis using b b' c d False by (simp add: after_open_def Let_def)
qed

lemma after_signal_ok:
  assumes "gw_ok g" and "gw_phase g = Watching"
  shows "gw_ok (after_signal jitter g)"
proof (cases "gw_now g - gw_connectedAt g \<ge> healthyReset")
  case True
  have "backoffBase \<le> healthyReset" by (simp add: backoffBase_def healthyReset_def)
  with True assms show ?thesis by (auto simp: after_signal_def gw_ok_def gw_timed_def gw_watched_def Let_def)
next
  case False
  have "gw_ok (back_off jitter True (g\<lparr>gw_pending := False\<rparr>))"
    using assms by (intro back_off_ok) (auto simp: gw_ok_def gw_timed_def Let_def)
  with False show ?thesis by (simp add: after_signal_def Let_def)
qed

lemma elapse_ok: "gw_ok g \<Longrightarrow> gw_ok (elapse n g)"
  by (cases "gw_phase g") (auto simp: elapse_def gw_ok_def gw_timed_def gw_watched_def Let_def split: bool.splits)

lemma cancelled_ok: "gw_ok g \<Longrightarrow> gw_ok (cancelled g)"
  by (cases "gw_phase g") (auto simp: cancelled_def close_def gw_ok_def gw_timed_def gw_watched_def split: bool.splits)

lemma reap_ok: "gw_ok g \<Longrightarrow> gw_phase g \<noteq> Dialing \<Longrightarrow> gw_reaper g \<Longrightarrow> gw_phase g = Returned e \<Longrightarrow> gw_ok (reap r g)"
  by (auto simp: reap_def close_def gw_ok_def gw_timed_def gw_watched_def)

text \<open>Only a returned loop leaves a reaper.\<close>

definition reaper_ok :: "gateway \<Rightarrow> bool" where
  "reaper_ok g \<longleftrightarrow> (gw_reaper g \<longrightarrow> (\<exists>e. gw_phase g = Returned e))"

lemma Run_step_reaper: "reaper_ok g \<Longrightarrow> reaper_ok (Run_step i g)"
  by (cases i; cases "gw_phase g")
     (auto simp: reaper_ok_def Run_step_def elapse_def after_open_def after_signal_def back_off_def reap_def close_def cancelled_def Let_def)

lemma Run_step_ok:
  assumes "gw_ok g" and "reaper_ok g"
  shows "gw_ok (Run_step i g)"
proof (cases i)
  case (Elapse n)
  with assms show ?thesis by (simp add: Run_step_def elapse_ok)
next
  case Proceed
  with assms show ?thesis by (auto simp: Run_step_def gw_ok_def gw_timed_def gw_watched_def Let_def)
next
  case (Opened r jitter reset_ok)
  show ?thesis
  proof (cases "gw_phase g = Dialing")
    case True
    with assms Opened after_open_ok show ?thesis by (simp add: Run_step_def)
  next
    case False
    with assms Opened reap_ok [of g _ r] show ?thesis by (auto simp: Run_step_def reaper_ok_def)
  qed
next
  case (Signalled jitter)
  with assms after_signal_ok show ?thesis by (simp add: Run_step_def)
next
  case Drop
  with assms show ?thesis
    by (cases "gw_phase g") (auto simp: Run_step_def gw_ok_def gw_timed_def gw_watched_def Let_def split: bool.splits)
next
  case Stray
  with assms show ?thesis
    by (cases "gw_phase g") (auto simp: Run_step_def gw_ok_def gw_timed_def gw_watched_def Let_def split: bool.splits)
next
  case Cancelled
  with assms show ?thesis by (simp add: Run_step_def cancelled_ok)
qed

lemma Run_steps_ok: "gw_ok g \<Longrightarrow> reaper_ok g \<Longrightarrow> gw_ok (fold Run_step is g) \<and> reaper_ok (fold Run_step is g)"
  by (induction "is" arbitrary: g) (simp_all add: Run_step_ok Run_step_reaper)

lemma gateway_start_ok: "gw_ok (gateway_start t)" "reaper_ok (gateway_start t)"
  by (simp_all add: gateway_start_def gw_ok_def reaper_ok_def spaced_def gw_timed_def gw_watched_def)

text \<open>A returned loop dials no more; what may still happen is the reaper's work and events of the platform.\<close>

lemma returned_step:
  "gw_phase g = Returned e \<Longrightarrow> gw_phase (Run_step i g) = Returned e \<and> gw_opens (Run_step i g) = gw_opens g"
  by (cases i) (auto simp: Run_step_def elapse_def reap_def close_def cancelled_def Let_def)

lemma returned_stays:
  "gw_phase g = Returned e \<Longrightarrow> gw_phase (fold Run_step is g) = Returned e \<and> gw_opens (fold Run_step is g) = gw_opens g"
  by (induction "is" arbitrary: g) (simp_all add: returned_step)

lemma reaped_step:
  "gw_phase g = Returned e \<Longrightarrow> \<not> gw_live g \<Longrightarrow> \<not> gw_reaper g \<Longrightarrow> \<not> gw_live (Run_step i g) \<and> \<not> gw_reaper (Run_step i g)"
  by (cases i) (auto simp: Run_step_def elapse_def cancelled_def Let_def)

lemma reaped_stays:
  "gw_phase g = Returned e \<Longrightarrow> \<not> gw_live g \<Longrightarrow> \<not> gw_reaper g \<Longrightarrow> \<not> gw_live (fold Run_step is g)"
  by (induction "is" arbitrary: g) (simp_all add: returned_step reaped_step)

lemma doubling_delay: "min (backoffBase * 2 ^ attempt) backoffCap \<le> backoffDelay attempt jitter"
proof -
  have "backoffCap \<le> backoffBase * 2 ^ attempt" if "\<not> attempt < 6"
  proof -
    have "(2::int) ^ 6 \<le> 2 ^ attempt" using that by (intro power_increasing) auto
    then show ?thesis by (simp add: backoffBase_def backoffCap_def)
  qed
  moreover have "0 \<le> int jitter mod (d div 4 + 1)" if "0 \<le> d" for d :: int
    using that by (intro pos_mod_sign) linarith
  moreover have "0 \<le> backoffBase * 2 ^ attempt" "0 \<le> backoffCap" by (simp_all add: backoffBase_def backoffCap_def)
  ultimately show ?thesis by (auto simp: backoffDelay_def Let_def min_def)
qed

lemma isDirectMessage_yes:
  "isDirectMessage s c = (True, s') \<Longrightarrow>
     sv_state s \<and> (sv_cache s c = Some DirectMessage \<or> sv_cache s c = None \<and> sv_fetch s c = Some DirectMessage)"
  by (auto simp: isDirectMessage_def split: if_splits option.splits)

lemma onMessageCreate_pass:
  "onMessageCreate draining s m = (True, s') \<Longrightarrow>
     \<not> draining \<and> sv_state s \<and> (mc_Author m = None \<or> mc_Author m \<noteq> sv_self s) \<and>
     (if mc_GuildID m = []
      then sv_cache s (mc_ChannelID m) = Some DirectMessage \<or>
           sv_cache s (mc_ChannelID m) = None \<and> sv_fetch s (mc_ChannelID m) = Some DirectMessage
      else sv_cache s (mc_ChannelID m) = Some Thread)"
  using isDirectMessage_yes [of s "mc_ChannelID m" s']
  by (cases "mc_GuildID m = []") (auto simp: onMessageCreate_def isThread_def split: prod.splits if_splits)

lemma isDirectMessage_cached:
  assumes "isDirectMessage s c = (b, s')" and "sv_addable s"
  shows "s' = s \<or> isDirectMessage (s'\<lparr>sv_fetch := f\<rparr>) c = (b, s'\<lparr>sv_fetch := f\<rparr>)"
  using assms by (auto simp: isDirectMessage_def split: if_splits option.splits)

lemma isDirectMessage_frame:
  "isDirectMessage s c = (b, s') \<Longrightarrow> sv_state s' = sv_state s \<and> sv_self s' = sv_self s"
  by (auto simp: isDirectMessage_def split: if_splits option.splits)

lemma onMessageCreate_cached:
  assumes "onMessageCreate draining s m = (b, s')"
  shows "sv_addable s \<longrightarrow> s' = s \<or> (\<forall>f. onMessageCreate draining (s'\<lparr>sv_fetch := f\<rparr>) m = (b, s'\<lparr>sv_fetch := f\<rparr>))"
proof (intro impI)
  assume add: "sv_addable s"
  obtain ok s1 where i: "isDirectMessage s (mc_ChannelID m) = (ok, s1)" by fastforce
  note c = isDirectMessage_cached [OF i add] and fr = isDirectMessage_frame [OF i]
  show "s' = s \<or> (\<forall>f. onMessageCreate draining (s'\<lparr>sv_fetch := f\<rparr>) m = (b, s'\<lparr>sv_fetch := f\<rparr>))"
  proof (cases "s' = s")
    case False
    with assms i have e: "s' = s1" "b = (ok \<and> \<not> draining)" "mc_GuildID m = []"
      and a: "\<not> (mc_Author m \<noteq> None \<and> sv_state s \<and> sv_self s \<noteq> None \<and> mc_Author m = sv_self s)"
      by (auto simp: onMessageCreate_def split: if_splits)
    from False c e(1) have "isDirectMessage (s'\<lparr>sv_fetch := f\<rparr>) (mc_ChannelID m) = (ok, s'\<lparr>sv_fetch := f\<rparr>)" for f by auto
    with e a fr show ?thesis by (auto simp: onMessageCreate_def)
  qed simp
qed

inductive_cases join_stepE: "join_step j k"

definition join_ok :: "join_state \<Rightarrow> bool" where
  "join_ok j \<longleftrightarrow> (js_returned j \<longrightarrow> js_draining j \<and> js_running j = 0)"

lemma join_step_ok: "join_step j k \<Longrightarrow> join_ok j \<Longrightarrow> join_ok k"
  by (induction rule: join_step.induct) (auto simp: join_ok_def)

lemma join_step_draining: "join_step j k \<Longrightarrow> js_draining j \<Longrightarrow> js_draining k \<and> js_running k \<le> js_running j"
  by (induction rule: join_step.induct) auto

interpretation jd: step_invariant join_step "\<lambda>k. js_draining k \<and> js_running k \<le> n"
  by unfold_locales (use join_step_draining in fastforce)

lemma join_steps_draining: "join_step\<^sup>*\<^sup>* j k \<Longrightarrow> js_draining j \<Longrightarrow> js_draining k \<and> js_running k \<le> js_running j"
  using jd.steps_inv [of j k "js_running j"] by simp

interpretation jm: step_invariant join_step join_ok
  by unfold_locales (rule join_step_ok)

section \<open>Properties\<close>


definition ex_gateway_run :: "gw_input list" where
  "ex_gateway_run =
     [Proceed, Opened OtherErr 7 True, Elapse 2000000000, Proceed, Elapse 5, Opened OpenOk 0 True, Elapse 9, Drop, Signalled 3,
      Elapse 4000000000, Proceed, Opened (CloseCode 4004) 0 True]"


text \<open>
  C38: no connection is left unsupervised.  However the loop is interleaved with drops, duplicate disconnect
  events and cancellation, a watched connection that is down always has its signal waiting; once the loop has
  returned the socket is down, or the abandoned dial's reaper is still to run, and after the reaper no later
  event finds a live socket again.
\<close>

theorem gateway_supervised:
  assumes "g = fold Run_step is (gateway_start t)"
  shows "(gw_phase g = Watching \<and> \<not> gw_live g \<longrightarrow>
       gw_pending g \<and> gw_phase (Run_step (Signalled jitter) g) \<noteq> Watching) \<and>
    (\<forall>e. gw_phase g = Returned e \<longrightarrow>
       (\<not> gw_live g \<or> gw_reaper g) \<and>
       (gw_reaper g \<longrightarrow> \<not> gw_live (fold Run_step later (Run_step (Opened r jitter reset_ok) g))) \<and>
       (\<not> gw_reaper g \<longrightarrow> \<not> gw_live (fold Run_step later g)))"
proof -
  have w: "gw_watched g" using Run_steps_ok [OF gateway_start_ok] by (simp add: assms gw_ok_def)
  have "gw_phase (Run_step (Signalled jitter) g) \<noteq> Watching" if "gw_phase g = Watching" "gw_pending g"
    using that by (simp add: Run_step_def after_signal_def back_off_def Let_def)
  moreover have "\<not> gw_live (fold Run_step later (Run_step (Opened r jitter reset_ok) g))"
    if "gw_phase g = Returned e" "gw_reaper g" for e
    using that by (intro reaped_stays [of _ e]) (auto simp: Run_step_def reap_def close_def)
  ultimately show ?thesis using w reaped_stays by (auto simp: gw_watched_def)
qed

theorem gateway_supervised_witness:
  "\<not> gw_live (fold Run_step [Proceed, Cancelled, Opened OpenOk 0 True, Stray] (gateway_start 0))"
proof -
  have "gw_phase (fold Run_step [Proceed, Cancelled] (gateway_start 0)) = Returned EndCancelled"
    "gw_reaper (fold Run_step [Proceed, Cancelled] (gateway_start 0))" by code_simp+
  with gateway_supervised [OF refl, of "[Proceed, Cancelled]" 0 0 "[Stray]" OpenOk True] show ?thesis by simp
qed

text \<open>
  C39: only one-to-one conversations and threads are recorded.  A message reaches the store only while the
  adapter is not draining, when it is not the bot's own, and when its channel is a thread of a guild or a
  direct message by the state cache or, failing that, by the platform; a channel that neither can classify, a
  group conversation or a plain guild channel leaves store and queues as they were.  A classified channel is
  answered from the cache from then on.
\<close>

theorem boundary_fails_closed:
  assumes "receive_message marshal unmarshal tf ow auth now draining m (s, d, q) = (s', d', q')"
  shows "((d', q') = discordIngest marshal unmarshal tf ow auth now (Some m) (d, q) \<and>
      \<not> draining \<and> sv_state s \<and> (mc_Author m = None \<or> mc_Author m \<noteq> sv_self s) \<and>
      (if mc_GuildID m = []
       then sv_cache s (mc_ChannelID m) = Some DirectMessage \<or>
            sv_cache s (mc_ChannelID m) = None \<and> sv_fetch s (mc_ChannelID m) = Some DirectMessage
       else sv_cache s (mc_ChannelID m) = Some Thread) \<or>
     (d', q') = (d, q)) \<and>
    (sv_addable s \<longrightarrow> s' = s \<or>
       (\<forall>f. onMessageCreate draining (s'\<lparr>sv_fetch := f\<rparr>) m = (fst (onMessageCreate draining s m), s'\<lparr>sv_fetch := f\<rparr>)))"
proof -
  obtain pass where o: "onMessageCreate draining s m = (pass, s')"
    and dq: "(d', q') = (if pass then discordIngest marshal unmarshal tf ow auth now (Some m) (d, q) else (d, q))"
    using assms by (auto simp: receive_message_def split: prod.splits)
  from dq onMessageCreate_pass [of draining s m s'] o onMessageCreate_cached [OF o] show ?thesis by (cases pass) simp_all
qed

definition ex_view :: session_view where
  "ex_view = \<lparr>sv_state = True, sv_self = Some ''99'', sv_cache = (\<lambda>_. None), sv_fetch = (\<lambda>_. Some GroupDM), sv_addable = True\<rparr>"

theorem boundary_fails_closed_witness:
  "snd (receive_message ex_marshal ex_unmarshal False False ''strong'' 50 False ex_message (ex_view, ex_seeded_db, New)) = (ex_seeded_db, New)"
proof -
  obtain s' d' q' where e: "receive_message ex_marshal ex_unmarshal False False ''strong'' 50 False ex_message (ex_view, ex_seeded_db, New) = (s', d', q')"
    by (metis prod_cases3)
  from boundary_fails_closed [OF e] show ?thesis unfolding e by (auto simp: ex_view_def ex_message_def split: if_splits)
qed

text \<open>
  No message handler outlives the adapter.  Whatever the order in which dispatches start and end around the
  drain, once \<open>Run\<close> has returned no handler is running and none is running in any later state, so the store may be
  closed; and from the moment of draining the number of running handlers only falls.
\<close>

lemma handlers_joined:
  assumes "join_step\<^sup>*\<^sup>* \<lparr>js_draining = False, js_running = 0, js_returned = False\<rparr> j" and "join_step\<^sup>*\<^sup>* j k"
  shows "(js_returned j \<longrightarrow> js_running j = 0 \<and> js_running k = 0) \<and> (js_draining j \<longrightarrow> js_running k \<le> js_running j)"
proof -
  have "join_ok j" using jm.steps_inv [OF assms(1)] by (simp add: join_ok_def)
  with join_steps_draining [OF assms(2)] show ?thesis by (auto simp: join_ok_def)
qed

lemma handlers_joined_example:
  "join_step\<^sup>*\<^sup>* \<lparr>js_draining = False, js_running = 0, js_returned = False\<rparr> \<lparr>js_draining = True, js_running = 0, js_returned = True\<rparr> \<and>
   (\<forall>k. join_step\<^sup>*\<^sup>* \<lparr>js_draining = True, js_running = 0, js_returned = True\<rparr> k \<longrightarrow> js_running k = 0)"
proof -
  have 1: "join_step \<lparr>js_draining = False, js_running = 0, js_returned = False\<rparr> \<lparr>js_draining = True, js_running = 0, js_returned = False\<rparr>"
    using join_step.drain [of "\<lparr>js_draining = False, js_running = 0, js_returned = False\<rparr>"] by simp
  have 2: "join_step \<lparr>js_draining = True, js_running = 0, js_returned = False\<rparr> \<lparr>js_draining = True, js_running = 0, js_returned = True\<rparr>"
    using join_step.finish [of "\<lparr>js_draining = True, js_running = 0, js_returned = False\<rparr>"] by simp
  from 1 2 have r: "join_step\<^sup>*\<^sup>* \<lparr>js_draining = False, js_running = 0, js_returned = False\<rparr> \<lparr>js_draining = True, js_running = 0, js_returned = True\<rparr>"
    by (meson converse_rtranclp_into_rtranclp rtranclp.rtrancl_refl)
  with handlers_joined [OF r] show ?thesis by simp
qed

end
