(* ===== verification/Lifecycle.thy ===== *)
theory Lifecycle
  imports Gateway
begin

text \<open>
  How the daemon stops: the end of \<open>runDaemon\<close> in \<open>src/internal/cli/daemon.go\<close>.  The main goroutine serves,
  cancels, waits for the adapter, the pump and the drains in this order, and closes the store.  Around it run the
  adapter with its message handlers (the join of \<open>Gateway\<close>), the outbox pump, the admin handlers that \<open>Serve\<close>
  itself waits for, the drain goroutines of \<open>Router\<close>, and anything that enqueues at any time: ingest, operator
  verbs, and the retry timers, which nobody stops.  The context of the daemon is the cancellation flag of the
  queues.
\<close>

section \<open>The step relation\<close>

datatype main_pc = Wiring | Serving | AwaitAdapter | AwaitPump | AwaitTurns | Closing | Closed

text \<open>\<open>lf_late\<close> marks a start refused after the queues were rebuilt, which returns without waiting.\<close>

record life =
  lf_pc :: main_pc
  lf_join :: join_state
  lf_pump :: bool
  lf_admin :: nat
  lf_queues :: Queues
  lf_late :: bool

definition life_cancel :: "life \<Rightarrow> life" where
  "life_cancel l = l\<lparr>lf_queues := (lf_queues l)\<lparr>q_cancelled := True\<rparr>\<rparr>"

inductive life_step :: "life \<Rightarrow> life \<Rightarrow> bool" where
  wired: "lf_pc l = Wiring \<Longrightarrow>
    life_step l (l\<lparr>lf_pc := Serving, lf_pump := sender, lf_join := \<lparr>js_draining = \<not> adapter, js_running = 0, js_returned = \<not> adapter\<rparr>\<rparr>)"
| late_refusal: "lf_pc l = Wiring \<Longrightarrow> life_step l ((life_cancel l)\<lparr>lf_pc := Closed, lf_late := True\<rparr>)"
| signal: "life_step l (life_cancel l)"
| enqueue: "life_step l (l\<lparr>lf_queues := Enqueue ev (lf_queues l)\<rparr>)"
| turn: "drain_step (lf_queues l) q \<Longrightarrow> life_step l (l\<lparr>lf_queues := q\<rparr>)"
| message: "lf_pc l \<noteq> Wiring \<Longrightarrow> \<not> lf_late l \<Longrightarrow> join_step (lf_join l) j \<Longrightarrow> life_step l (l\<lparr>lf_join := j\<rparr>)"
| admin_in: "lf_pc l = Serving \<Longrightarrow> life_step l (l\<lparr>lf_admin := Suc (lf_admin l)\<rparr>)"
| admin_out: "lf_admin l = Suc n \<Longrightarrow> life_step l (l\<lparr>lf_admin := n\<rparr>)"
| pump_end: "q_cancelled (lf_queues l) \<Longrightarrow> life_step l (l\<lparr>lf_pump := False\<rparr>)"
| served: "lf_pc l = Serving \<Longrightarrow> lf_admin l = 0 \<Longrightarrow> life_step l ((life_cancel l)\<lparr>lf_pc := AwaitAdapter\<rparr>)"
| adapter_joined: "lf_pc l = AwaitAdapter \<Longrightarrow> js_returned (lf_join l) \<Longrightarrow> life_step l (l\<lparr>lf_pc := AwaitPump\<rparr>)"
| pump_joined: "lf_pc l = AwaitPump \<Longrightarrow> \<not> lf_pump l \<Longrightarrow> life_step l (l\<lparr>lf_pc := AwaitTurns\<rparr>)"
| turns_joined: "lf_pc l = AwaitTurns \<Longrightarrow> q_drains (lf_queues l) = [] \<Longrightarrow> life_step l (l\<lparr>lf_pc := Closing\<rparr>)"
| closed: "lf_pc l = Closing \<Longrightarrow> life_step l (l\<lparr>lf_pc := Closed\<rparr>)"

text \<open>The daemon after a rebuild that left the queues \<open>q\<close>.\<close>

definition life_start :: "Queues \<Rightarrow> life" where
  "life_start q =
     \<lparr>lf_pc = Wiring, lf_join = \<lparr>js_draining = False, js_running = 0, js_returned = False\<rparr>, lf_pump = False, lf_admin = 0,
      lf_queues = q, lf_late = False\<rparr>"

text \<open>The exit status of a daemon that served: a terminal refusal of the gateway comes before a failed socket.\<close>

definition served_exit :: "bool \<Rightarrow> bool \<Rightarrow> int" where
  "served_exit adapter_failed serve_failed = (if adapter_failed then 3 else if serve_failed then 1 else 0)"

section \<open>The invariant\<close>

fun stage :: "main_pc \<Rightarrow> nat" where
  "stage Wiring = 0"
| "stage Serving = 1"
| "stage AwaitAdapter = 2"
| "stage AwaitPump = 3"
| "stage AwaitTurns = 4"
| "stage Closing = 5"
| "stage Closed = 6"

instantiation main_pc :: linorder
begin

definition less_eq_main_pc :: "main_pc \<Rightarrow> main_pc \<Rightarrow> bool" where
  "less_eq_main_pc p q \<longleftrightarrow> stage p \<le> stage q"

definition less_main_pc :: "main_pc \<Rightarrow> main_pc \<Rightarrow> bool" where
  "less_main_pc p q \<longleftrightarrow> stage p < stage q"

instance
proof
  fix p q :: main_pc
  show "p = q" if "p \<le> q" "q \<le> p"
    using that by (cases p; cases q) (simp_all add: less_eq_main_pc_def)
qed (auto simp: less_eq_main_pc_def less_main_pc_def)

end

lemmas pc_order [simp] = less_eq_main_pc_def less_main_pc_def

definition life_ok :: "life \<Rightarrow> bool" where
  "life_ok l \<longleftrightarrow> join_ok (lf_join l) \<and> (lf_late l \<longrightarrow> lf_pc l = Closed) \<and>
     (AwaitAdapter \<le> lf_pc l \<longrightarrow> q_cancelled (lf_queues l) \<and> lf_admin l = 0) \<and>
     (lf_pc l = Wiring \<longrightarrow> lf_admin l = 0) \<and>
     (\<not> lf_late l \<longrightarrow>
       (AwaitPump \<le> lf_pc l \<longrightarrow> js_returned (lf_join l)) \<and>
       (AwaitTurns \<le> lf_pc l \<longrightarrow> \<not> lf_pump l) \<and>
       (Closing \<le> lf_pc l \<longrightarrow> q_drains (lf_queues l) = []))"

lemma Enqueue_cancelled: "q_cancelled q \<Longrightarrow> Enqueue ev q = q"
  by (simp add: Enqueue_def Let_def)

lemma Enqueue_keeps_cancelled [simp]: "q_cancelled (Enqueue ev q) = q_cancelled q"
  by (simp add: Enqueue_def Let_def)

lemma drain_step_none: "drain_step q q' \<Longrightarrow> q_drains q \<noteq> []"
  by (induction rule: drain_step.induct) auto

lemma join_step_returned: "join_step j k \<Longrightarrow> js_returned j \<Longrightarrow> js_returned k"
  by (induction rule: join_step.induct) auto

lemma life_step_ok: "life_step l m \<Longrightarrow> life_ok l \<Longrightarrow> life_ok m"
proof (induction rule: life_step.induct)
  case (turn l q)
  then show ?case using drain_step_keeps [OF turn.hyps] drain_step_none [OF turn.hyps] by (auto simp: life_ok_def)
next
  case (message l j)
  then show ?case by (auto simp: life_ok_def dest: join_step_ok join_step_returned)
next
  case (enqueue l ev)
  then show ?case by (cases "q_cancelled (lf_queues l)") (auto simp: life_ok_def Enqueue_cancelled)
next
  case (admin_out l n)
  then show ?case by (cases "lf_pc l") (auto simp: life_ok_def)
qed (auto simp: life_ok_def life_cancel_def join_ok_def)

interpretation lm: step_invariant life_step life_ok
  by unfold_locales (rule life_step_ok)

lemma life_start_ok: "life_ok (life_start q)"
  by (simp add: life_ok_def life_start_def join_ok_def)

section \<open>Stopping is always possible\<close>

text \<open>With the context cancelled, the drains end one after the other once their turns have.\<close>

lemma cancelled_drains_end:
  "q_cancelled q \<Longrightarrow> \<exists>q'. drain_step\<^sup>*\<^sup>* q q' \<and> q_drains q' = [] \<and> q_cancelled q'"
proof (induction "length (q_drains q)" arbitrary: q)
  case 0
  then show ?case by (intro exI [of _ q]) simp
next
  case (Suc k)
  obtain t st where e: "q_drains q ! 0 = (t, st)" by fastforce
  define q1 where "q1 = (if st = AtLoop then q else q\<lparr>q_drains := (q_drains q)[0 := (t, AtLoop)]\<rparr>)"
  have q1: "q_cancelled q1" "length (q_drains q1) = Suc k" "snd (q_drains q1 ! 0) = AtLoop" "drain_step\<^sup>*\<^sup>* q q1"
  proof -
    show "q_cancelled q1" "length (q_drains q1) = Suc k" using Suc.prems Suc.hyps(2) by (simp_all add: q1_def)
    have "0 < length (q_drains q)" using Suc.hyps(2) by linarith
    then show "snd (q_drains q1 ! 0) = AtLoop" using e by (cases "st = AtLoop") (simp_all only: q1_def if_True if_False simp_thms, simp_all)
    show "drain_step\<^sup>*\<^sup>* q q1"
    proof (cases st)
      case (Running ev)
      with e Suc.hyps(2) have "drain_step q q1" by (auto simp: q1_def intro: drain_step.finish)
      then show ?thesis by simp
    qed (simp add: q1_def)
  qed
  have s: "drain_step q1 (drain_locked 0 q1)" using q1(2,3) by (intro drain_step.lock) simp_all
  have c: "q_cancelled (drain_locked 0 q1)" "k = length (q_drains (drain_locked 0 q1))"
    using q1(1,2) by (simp_all add: drain_locked_def Let_def)
  from Suc.hyps(1) [OF c(2) c(1)] obtain q' where "drain_step\<^sup>*\<^sup>* (drain_locked 0 q1) q'" "q_drains q' = []" "q_cancelled q'" by blast
  with q1(4) s show ?case by (meson converse_rtranclp_into_rtranclp rtranclp_trans)
qed

lemma life_turns: "drain_step\<^sup>*\<^sup>* q q' \<Longrightarrow> life_step\<^sup>*\<^sup>* (l\<lparr>lf_queues := q\<rparr>) (l\<lparr>lf_queues := q'\<rparr>)"
proof (induction rule: rtranclp_induct)
  case (step q' q'')
  have "life_step (l\<lparr>lf_queues := q'\<rparr>) (l\<lparr>lf_queues := q''\<rparr>)"
    using life_step.turn [of "l\<lparr>lf_queues := q'\<rparr>" q''] step.hyps(2) by simp
  with step.IH show ?case by (rule rtranclp.rtrancl_into_rtrancl)
qed simp

lemma life_admin_ends: "life_step\<^sup>*\<^sup>* l (l\<lparr>lf_admin := 0\<rparr>)"
proof (induction "lf_admin l" arbitrary: l)
  case 0
  then have "l\<lparr>lf_admin := 0\<rparr> = l" by simp
  then show ?case by simp
next
  case (Suc n)
  have "life_step l (l\<lparr>lf_admin := n\<rparr>)" using Suc.hyps(2) by (intro life_step.admin_out) simp
  moreover have "life_step\<^sup>*\<^sup>* (l\<lparr>lf_admin := n\<rparr>) (l\<lparr>lf_admin := 0\<rparr>)" using Suc.hyps(1) [of "l\<lparr>lf_admin := n\<rparr>"] by simp
  ultimately show ?case by (rule converse_rtranclp_into_rtranclp)
qed

lemma join_ends: "\<exists>k. join_step\<^sup>*\<^sup>* j k \<and> js_returned k"
proof -
  have r: "join_step\<^sup>*\<^sup>* j (j\<lparr>js_running := 0\<rparr>)" for j
  proof (induction "js_running j" arbitrary: j)
    case 0
    then have "j\<lparr>js_running := 0\<rparr> = j" by simp
    then show ?case by simp
  next
    case (Suc n)
    have "join_step j (j\<lparr>js_running := n\<rparr>)" using Suc.hyps(2) by (intro join_step.leave) simp
    moreover have "join_step\<^sup>*\<^sup>* (j\<lparr>js_running := n\<rparr>) (j\<lparr>js_running := 0\<rparr>)" using Suc.hyps(1) [of "j\<lparr>js_running := n\<rparr>"] by simp
    ultimately show ?case by (rule converse_rtranclp_into_rtranclp)
  qed
  let ?d = "j\<lparr>js_draining := True\<rparr>"
  let ?e = "?d\<lparr>js_running := 0\<rparr>"
  have "join_step j ?d" by (rule join_step.drain)
  moreover have "join_step\<^sup>*\<^sup>* ?d ?e" by (rule r)
  moreover have "join_step ?e (?e\<lparr>js_returned := True\<rparr>)" by (rule join_step.finish) simp_all
  ultimately have "join_step\<^sup>*\<^sup>* j (?e\<lparr>js_returned := True\<rparr>)"
    by (meson converse_rtranclp_into_rtranclp rtranclp.rtrancl_into_rtrancl)
  then show ?thesis by (intro exI [of _ "?e\<lparr>js_returned := True\<rparr>"]) simp
qed

lemma life_messages:
  assumes "lf_pc l \<noteq> Wiring" and "\<not> lf_late l"
  shows "join_step\<^sup>*\<^sup>* j k \<Longrightarrow> life_step\<^sup>*\<^sup>* (l\<lparr>lf_join := j\<rparr>) (l\<lparr>lf_join := k\<rparr>)"
proof (induction rule: rtranclp_induct)
  case (step k k')
  have "life_step (l\<lparr>lf_join := k\<rparr>) (l\<lparr>lf_join := k'\<rparr>)"
    using life_step.message [of "l\<lparr>lf_join := k\<rparr>" k'] step.hyps(2) assms by simp
  with step.IH show ?case by (rule rtranclp.rtrancl_into_rtrancl)
qed simp

lemma closing_closes: "lf_pc l = Closing \<Longrightarrow> \<exists>m. life_step\<^sup>*\<^sup>* l m \<and> lf_pc m = Closed"
proof -
  assume "lf_pc l = Closing"
  then have "life_step l (l\<lparr>lf_pc := Closed\<rparr>)" by (rule life_step.closed)
  then show ?thesis by (intro exI [of _ "l\<lparr>lf_pc := Closed\<rparr>"]) simp
qed

lemma await_turns_closes:
  assumes "lf_pc l = AwaitTurns" and "q_cancelled (lf_queues l)"
  shows "\<exists>m. life_step\<^sup>*\<^sup>* l m \<and> lf_pc m = Closed"
proof -
  from cancelled_drains_end [OF assms(2)] obtain q' where q': "drain_step\<^sup>*\<^sup>* (lf_queues l) q'" "q_drains q' = []" by blast
  let ?l = "l\<lparr>lf_queues := q'\<rparr>"
  have "life_step\<^sup>*\<^sup>* l ?l" using life_turns [OF q'(1), of l] by simp
  moreover have "life_step ?l (?l\<lparr>lf_pc := Closing\<rparr>)" using assms(1) q'(2) by (intro life_step.turns_joined) simp_all
  moreover obtain m where "life_step\<^sup>*\<^sup>* (?l\<lparr>lf_pc := Closing\<rparr>) m" "lf_pc m = Closed" using closing_closes [of "?l\<lparr>lf_pc := Closing\<rparr>"] by auto
  ultimately show ?thesis by (meson converse_rtranclp_into_rtranclp rtranclp_trans)
qed

lemma await_pump_closes:
  assumes "lf_pc l = AwaitPump" and "q_cancelled (lf_queues l)"
  shows "\<exists>m. life_step\<^sup>*\<^sup>* l m \<and> lf_pc m = Closed"
proof -
  let ?l = "l\<lparr>lf_pump := False\<rparr>"
  have "life_step l ?l" using assms(2) by (rule life_step.pump_end)
  moreover have "life_step ?l (?l\<lparr>lf_pc := AwaitTurns\<rparr>)" using assms(1) by (intro life_step.pump_joined) simp_all
  moreover obtain m where "life_step\<^sup>*\<^sup>* (?l\<lparr>lf_pc := AwaitTurns\<rparr>) m" "lf_pc m = Closed"
    using await_turns_closes [of "?l\<lparr>lf_pc := AwaitTurns\<rparr>"] assms(2) by auto
  ultimately show ?thesis by (meson converse_rtranclp_into_rtranclp)
qed

lemma await_adapter_closes:
  assumes "lf_pc l = AwaitAdapter" and "q_cancelled (lf_queues l)" and "\<not> lf_late l"
  shows "\<exists>m. life_step\<^sup>*\<^sup>* l m \<and> lf_pc m = Closed"
proof -
  obtain k where k: "join_step\<^sup>*\<^sup>* (lf_join l) k" "js_returned k" using join_ends by blast
  let ?l = "l\<lparr>lf_join := k\<rparr>"
  have "life_step\<^sup>*\<^sup>* l ?l" using life_messages [OF _ assms(3) k(1)] assms(1) by simp
  moreover have "life_step ?l (?l\<lparr>lf_pc := AwaitPump\<rparr>)" using assms(1) k(2) by (intro life_step.adapter_joined) simp_all
  moreover obtain m where "life_step\<^sup>*\<^sup>* (?l\<lparr>lf_pc := AwaitPump\<rparr>) m" "lf_pc m = Closed"
    using await_pump_closes [of "?l\<lparr>lf_pc := AwaitPump\<rparr>"] assms(2) by auto
  ultimately show ?thesis by (meson converse_rtranclp_into_rtranclp rtranclp_trans)
qed

lemma serving_closes:
  assumes "lf_pc l = Serving" and "\<not> lf_late l"
  shows "\<exists>m. life_step\<^sup>*\<^sup>* l m \<and> lf_pc m = Closed"
proof -
  let ?l = "l\<lparr>lf_admin := 0\<rparr>"
  let ?m = "(life_cancel ?l)\<lparr>lf_pc := AwaitAdapter\<rparr>"
  have "life_step\<^sup>*\<^sup>* l ?l" by (rule life_admin_ends)
  moreover have "life_step ?l ?m" using assms(1) by (intro life_step.served) simp_all
  moreover obtain m where "life_step\<^sup>*\<^sup>* ?m m" "lf_pc m = Closed"
    using await_adapter_closes [of ?m] assms(2) by (auto simp: life_cancel_def)
  ultimately show ?thesis by (meson converse_rtranclp_into_rtranclp rtranclp_trans)
qed

lemma shutdown_possible:
  assumes "life_ok l" and "lf_pc l \<noteq> Wiring" and "\<not> lf_late l"
  shows "\<exists>m. life_step\<^sup>*\<^sup>* l m \<and> lf_pc m = Closed"
proof -
  have c: "q_cancelled (lf_queues l)" if "AwaitAdapter \<le> lf_pc l" using assms(1) that by (simp add: life_ok_def)
  show ?thesis
  proof (cases "lf_pc l")
    case Closed
    then show ?thesis by blast
  qed (use assms c serving_closes await_adapter_closes await_pump_closes await_turns_closes closing_closes in auto)
qed

lemma closed_stays: "life_step\<^sup>*\<^sup>* l m \<Longrightarrow> lf_pc l = Closed \<Longrightarrow> lf_pc m = Closed \<and> lf_late m = lf_late l"
proof (induction rule: rtranclp_induct)
  case (step m m')
  from step.hyps(2) step.IH [OF step.prems] show ?case by (induction rule: life_step.induct) (auto simp: life_cancel_def)
qed simp

definition quiet :: "life \<Rightarrow> bool" where
  "quiet l \<longleftrightarrow> lf_admin l = 0 \<and> js_running (lf_join l) = 0 \<and> \<not> lf_pump l \<and> q_drains (lf_queues l) = []"

lemma closed_quiet: "life_ok l \<Longrightarrow> lf_pc l = Closed \<Longrightarrow> \<not> lf_late l \<Longrightarrow> quiet l"
  by (simp add: life_ok_def quiet_def join_ok_def)

section \<open>Properties\<close>

text \<open>
  C8: the store closes only under a quiet daemon.  Whatever the interleaving of messages, operator verbs, turns,
  retry timers and signals, once a daemon that came up has closed its store no message handler, admin handler,
  pump pass or turn is running and none runs in any later state; and from every state the shutdown can be
  carried through to the closed store.
\<close>

theorem shutdown_quiesces:
  assumes "life_step\<^sup>*\<^sup>* (life_start q) l" and "\<not> lf_late l"
  shows "(lf_pc l = Closed \<longrightarrow> (\<forall>m. life_step\<^sup>*\<^sup>* l m \<longrightarrow> quiet m)) \<and>
    (lf_pc l \<noteq> Wiring \<longrightarrow> (\<exists>m. life_step\<^sup>*\<^sup>* l m \<and> lf_pc m = Closed))"
proof -
  have ok: "life_ok l" by (rule lm.steps_inv [OF assms(1) life_start_ok])
  have "quiet m" if "lf_pc l = Closed" "life_step\<^sup>*\<^sup>* l m" for m
    using closed_quiet [OF lm.steps_inv [OF that(2) ok]] closed_stays [OF that(2,1)] assms(2) by simp
  with shutdown_possible [OF ok _ assms(2)] show ?thesis by blast
qed

theorem shutdown_quiesces_witness:
  "\<exists>l m. life_step\<^sup>*\<^sup>* (life_start New) l \<and> lf_pc l = Serving \<and> life_step\<^sup>*\<^sup>* l m \<and> lf_pc m = Closed"
proof -
  let ?l = "(life_start New)\<lparr>lf_pc := Serving, lf_pump := True, lf_join := \<lparr>js_draining = \<not> True, js_running = 0, js_returned = \<not> True\<rparr>\<rparr>"
  have "life_step (life_start New) ?l" by (rule life_step.wired) (simp add: life_start_def)
  then have r: "life_step\<^sup>*\<^sup>* (life_start New) ?l" by simp
  have "\<not> lf_late ?l" "lf_pc ?l = Serving" by (simp_all add: life_start_def)
  with shutdown_quiesces [OF r] r show ?thesis by auto
qed

text \<open>
  A start refused after the rebuild, when the adapter cannot be built a second time, does not wait: the store is
  closed while a turn the rebuild dispatched may still be running.
\<close>

lemma late_refusal_races:
  assumes "q_drains q \<noteq> []"
  shows "\<exists>l. life_step\<^sup>*\<^sup>* (life_start q) l \<and> lf_pc l = Closed \<and> q_drains (lf_queues l) \<noteq> []"
proof -
  let ?l = "(life_cancel (life_start q))\<lparr>lf_pc := Closed, lf_late := True\<rparr>"
  have "life_step (life_start q) ?l" by (rule life_step.late_refusal) (simp add: life_start_def)
  moreover have "q_drains (lf_queues ?l) \<noteq> []" using assms by (simp add: life_cancel_def life_start_def)
  ultimately show ?thesis by (intro exI [of _ ?l]) simp
qed

end
