(* ===== verification/Daemon.thy ===== *)
theory Daemon
  imports Gateway Engine_Run Store_Open
begin

text \<open>
  The life of the daemon: \<open>runDaemon\<close> of \<open>src/internal/cli/daemon.go\<close> from the lock to the readiness of its
  parts and from the end of serving to the closing of the store; the ownership part of
  \<open>src/internal/admin/admin.go\<close>; the command dispatch of \<open>src/internal/cli/cli.go\<close>.  Start-up is one function of
  the host (its file tree and the content of the database) and of an environment that says which calls fail,
  what files hold, how TOML decodes and what the pinned binary prints.  Shutdown is a step relation in which the
  main goroutine, the adapter, the pump, the admin handlers, the drains and late timers interleave.
\<close>

section \<open>Daemon ownership\<close>

datatype admin_call = LockOpen | LockFlock | ClaimLstat | ClaimRemove | SocketListen | SocketChmod

datatype admin_error =
    SocketPathTooLong | StateDirFailed | LockOpenFailed | AlreadyRunning | FlockFailed
  | ClaimLstatFailed | NotASocket | RemoveFailed | ListenFailed | ChmodFailed

definition maxSocketPath :: nat where "maxSocketPath = 103"

definition acquireLock :: "perm \<Rightarrow> (admin_call \<Rightarrow> bool) \<Rightarrow> bool \<Rightarrow> string \<Rightarrow> file_tree \<Rightarrow> admin_error option \<times> file_tree" where
  "acquireLock umask fails held path fs =
     (let lockPath = path @ ''.lock'' in
      if fails LockOpen then (Some LockOpenFailed, fs)
      else
        let fs1 = (if fs lockPath = None then fs(lockPath \<mapsto> \<lparr>in_kind = Regular, in_perm = mode_file AND NOT umask\<rparr>) else fs) in
        if held then (Some AlreadyRunning, fs1)
        else if fails LockFlock then (Some FlockFailed, fs1)
        else (None, fs1))"

definition admin_New ::
  "perm \<Rightarrow> (os_call \<Rightarrow> bool) \<Rightarrow> (admin_call \<Rightarrow> bool) \<Rightarrow> bool \<Rightarrow> string \<Rightarrow> file_tree \<Rightarrow> admin_error option \<times> file_tree" where
  "admin_New umask os_fails fails held path fs =
     (if length path > maxSocketPath then (Some SocketPathTooLong, fs)
      else (case MkdirAll umask os_fails (Dir path) fs of
          (False, fs1) \<Rightarrow> (Some StateDirFailed, fs1)
        | (True, fs1) \<Rightarrow> acquireLock umask fails held path fs1))"

definition claim :: "(admin_call \<Rightarrow> bool) \<Rightarrow> string \<Rightarrow> file_tree \<Rightarrow> admin_error option \<times> file_tree" where
  "claim fails path fs =
     (if fails ClaimLstat then (Some ClaimLstatFailed, fs)
      else (case fs path of
          None \<Rightarrow> (None, fs)
        | Some i \<Rightarrow>
            if in_kind i \<noteq> Socket then (Some NotASocket, fs)
            else if fails ClaimRemove then (Some RemoveFailed, fs)
            else (None, fs(path := None))))"

text \<open>\<open>Serve\<close> up to the readiness line: the stale socket goes, the new one is bound and made owner-only.\<close>

definition Serve_bind :: "perm \<Rightarrow> (admin_call \<Rightarrow> bool) \<Rightarrow> string \<Rightarrow> file_tree \<Rightarrow> admin_error option \<times> file_tree" where
  "Serve_bind umask fails path fs =
     (case claim fails path fs of
        (Some e, fs1) \<Rightarrow> (Some e, fs1)
      | (None, fs1) \<Rightarrow>
          if fails SocketListen then (Some ListenFailed, fs1)
          else if fails SocketChmod then (Some ChmodFailed, fs1)
          else (None, fs1(path \<mapsto> \<lparr>in_kind = Socket, in_perm = mode_file\<rparr>)))"

section \<open>Start-up checks\<close>

text \<open>The state directory by default: under \<open>APPROACH_HOME\<close>, else under the home directory, else relative.\<close>

definition defaultStateDir :: "string \<Rightarrow> string option \<Rightarrow> string" where
  "defaultStateDir approach_home user_home =
     (if approach_home \<noteq> [] then Join approach_home ''state''
      else (case user_home of None \<Rightarrow> ''state'' | Some h \<Rightarrow> Join_all [h, ''approach'', ''state'']))"

text \<open>Reading a file: its contents, that it is not there, or another error.\<close>

datatype file_read = Contents string | NotExist | ReadError

definition contents_of :: "file_read \<Rightarrow> string option" where
  "contents_of r = (case r of Contents s \<Rightarrow> Some s | _ \<Rightarrow> None)"

datatype load_error = FileMissing | FileUnreadable | FileInvalid "config_error list"

type_synonym toml_decoder = "string \<Rightarrow> Config \<Rightarrow> (Config \<times> metadata) option"

definition Load :: "(string \<Rightarrow> file_read) \<Rightarrow> toml_decoder \<Rightarrow> string \<Rightarrow> load_error + Config" where
  "Load read decode path =
     (case read path of
        NotExist \<Rightarrow> Inl FileMissing
      | ReadError \<Rightarrow> Inl FileUnreadable
      | Contents data \<Rightarrow> (case Configuration.Parse (decode data) of Inl es \<Rightarrow> Inl (FileInvalid es) | Inr c \<Rightarrow> Inr c))"

definition loadDaemonConfig :: "(string \<Rightarrow> file_read) \<Rightarrow> toml_decoder \<Rightarrow> string \<Rightarrow> string \<Rightarrow> load_error + Config option" where
  "loadDaemonConfig read decode path state =
     (let explicit = (path \<noteq> []); p = (if explicit then path else Join (Dir (Clean state)) ''approach.toml'') in
      case Load read decode p of
        Inl e \<Rightarrow> if \<not> explicit \<and> e = FileMissing then Inr None else Inl e
      | Inr c \<Rightarrow> Inr (Some c))"

text \<open>The credential of the configured Discord channel, when there is one.\<close>

definition discord_token_file :: "Config option \<Rightarrow> string option" where
  "discord_token_file cfg =
     (case cfg of
        None \<Rightarrow> None
      | Some c \<Rightarrow>
          (case map_of (C_Channels c) ''discord'' of
             None \<Rightarrow> None
           | Some ch \<Rightarrow> if Ch_TokenFile ch = [] then None else Some (Ch_TokenFile ch)))"

definition build_adapter ::
  "(string \<Rightarrow> file_read) \<Rightarrow> (nat list \<Rightarrow> dg_session option) \<Rightarrow> Config option \<Rightarrow> adapter_error + dg_session option" where
  "build_adapter read mk_session cfg =
     (case discord_token_file cfg of
        None \<Rightarrow> Inr None
      | Some file \<Rightarrow>
          (case ReadToken (contents_of (read file)) of
             Inl e \<Rightarrow> Inl e
           | Inr token \<Rightarrow> (case discord_New mk_session token True True of Inl e \<Rightarrow> Inl e | Inr a \<Rightarrow> Inr (Some a))))"

definition validateDiscordAdapter ::
  "(string \<Rightarrow> file_read) \<Rightarrow> (nat list \<Rightarrow> dg_session option) \<Rightarrow> Config option \<Rightarrow> adapter_error option" where
  "validateDiscordAdapter read mk_session cfg = (case build_adapter read mk_session cfg of Inl e \<Rightarrow> Some e | Inr _ \<Rightarrow> None)"

definition newDiscordRunner ::
  "(string \<Rightarrow> file_read) \<Rightarrow> (nat list \<Rightarrow> dg_session option) \<Rightarrow> Config option \<Rightarrow> adapter_error + dg_session option" where
  "newDiscordRunner read mk_session cfg = build_adapter read mk_session cfg"

definition verifyEnginePin :: "(string \<Rightarrow> bool \<times> string list) \<Rightarrow> Config option \<Rightarrow> version_error option" where
  "verifyEnginePin probe cfg =
     (case cfg of
        None \<Rightarrow> None
      | Some c \<Rightarrow> (case C_Engine c of None \<Rightarrow> None | Some e \<Rightarrow> VerifyVersion probe (En_Bin e) (En_Version e)))"

definition engine_of :: "Config \<Rightarrow> Engine \<Rightarrow> engine_Config" where
  "engine_of c e =
     \<lparr>ec_Bin = En_Bin e, ec_Model = M_Message (C_Models c), ec_MaxTurns = En_MaxTurns e,
      ec_TurnTimeout = En_TurnTimeout e, ec_recorder = True\<rparr>"

text \<open>The turn handler: the dormant one without an engine section, else the production one with its manager.\<close>

datatype turn_handler = PlaceholderTurn | ProductionTurn engine_Config Manager string

definition wire_handler :: "string \<Rightarrow> Config option \<Rightarrow> engine_config_error + turn_handler" where
  "wire_handler state cfg =
     (case cfg of
        None \<Rightarrow> Inr PlaceholderTurn
      | Some c \<Rightarrow>
          (case C_Engine c of
             None \<Rightarrow> Inr PlaceholderTurn
           | Some e \<Rightarrow>
               (case engine_New (engine_of c e) of
                  Inl x \<Rightarrow> Inl x
                | Inr eng \<Rightarrow>
                    Inr (ProductionTurn eng
                      (NewManager \<lparr>cfg_ActivationWindow = 0, cfg_IdleTTL = Se_IdleTTL (C_Sessions c), cfg_TurnCap = Se_TurnCap (C_Sessions c)\<rparr>)
                      (Dir (Clean state))))))"

section \<open>Start-up\<close>

record host =
  ho_fs :: file_tree
  ho_file :: "int \<times> db"

record boot_env =
  bt_open :: "db open_env"
  bt_admin :: "admin_call \<Rightarrow> bool"
  bt_held :: bool
  bt_read :: "string \<Rightarrow> file_read"
  bt_read_later :: "string \<Rightarrow> file_read"
  bt_decode :: toml_decoder
  bt_mk_session :: "nat list \<Rightarrow> dg_session option"
  bt_probe :: "string \<Rightarrow> bool \<times> string list"
  bt_scan_fails :: bool
  bt_park_fails :: "int \<Rightarrow> bool"
  bt_surface_fails :: "surface_call \<Rightarrow> bool"
  bt_now :: int

record booted =
  bo_config :: "Config option"
  bo_handler :: turn_handler
  bo_queues :: Queues
  bo_adapter :: "dg_session option"

definition exitUnrecoverable :: int where "exitUnrecoverable = 3"

text \<open>Once the store is open: seed, wire the handler, rebuild, build the adapter.\<close>

definition boot_store :: "boot_env \<Rightarrow> string \<Rightarrow> Config option \<Rightarrow> db \<Rightarrow> (int + booted) \<times> db" where
  "boot_store env state cfg d =
     (case seedIdentities cfg d of
        Inl _ \<Rightarrow> (Inl 1, d)
      | Inr d1 \<Rightarrow>
          (case wire_handler state cfg of
             Inl _ \<Rightarrow> (Inl exitUnrecoverable, d1)
           | Inr h \<Rightarrow>
               (case Rebuild (bt_scan_fails env) (bt_park_fails env) (SurfaceInterruptedCoordinated (bt_surface_fails env)) (bt_now env) (d1, New) of
                  (False, (d2, _)) \<Rightarrow> (Inl 1, d2)
                | (True, (d2, q)) \<Rightarrow>
                    (case newDiscordRunner (bt_read_later env) (bt_mk_session env) cfg of
                       Inl _ \<Rightarrow> (Inl exitUnrecoverable, d2)
                     | Inr a \<Rightarrow> (Inr \<lparr>bo_config = cfg, bo_handler = h, bo_queues = q, bo_adapter = a\<rparr>, d2)))))"

definition runDaemon_boot :: "boot_env \<Rightarrow> string \<Rightarrow> string \<Rightarrow> host \<Rightarrow> (int + booted) \<times> host" where
  "runDaemon_boot env state configPath h =
     (case admin_New (oe_umask (bt_open env)) (oe_fails (bt_open env)) (bt_admin env) (bt_held env) (Join state ''approach.sock'') (ho_fs h) of
        (Some _, fs1) \<Rightarrow> (Inl 1, h\<lparr>ho_fs := fs1\<rparr>)
      | (None, fs1) \<Rightarrow>
          (case loadDaemonConfig (bt_read env) (bt_decode env) configPath state of
             Inl _ \<Rightarrow> (Inl 1, h\<lparr>ho_fs := fs1\<rparr>)
           | Inr cfg \<Rightarrow>
               if validateDiscordAdapter (bt_read env) (bt_mk_session env) cfg \<noteq> None then (Inl exitUnrecoverable, h\<lparr>ho_fs := fs1\<rparr>)
               else if verifyEnginePin (bt_probe env) cfg \<noteq> None then (Inl exitUnrecoverable, h\<lparr>ho_fs := fs1\<rparr>)
               else (case Open (bt_open env) (Join state ''approach.db'') (fs1, ho_file h) of
                   (Some e, fs2, file) \<Rightarrow>
                     (Inl (if e = MigrateFailed SchemaTooNew then exitUnrecoverable else 1), \<lparr>ho_fs = fs2, ho_file = file\<rparr>)
                 | (None, fs2, file) \<Rightarrow>
                     (case boot_store env state cfg (snd file) of (r, d) \<Rightarrow>
                        (r, \<lparr>ho_fs = fs2, ho_file = (fst file, d)\<rparr>)))))"

section \<open>The status verb's spend fields\<close>

datatype spend_fields = SpendError | Spend rat nat nat "(rat \<times> string) option"

definition spendStatus :: "(rat list \<Rightarrow> rat) \<Rightarrow> rat \<Rightarrow> int \<Rightarrow> int \<Rightarrow> db \<Rightarrow> spend_fields" where
  "spendStatus fsum alarmUSD midnight now d =
     (case DailySpend fsum midnight (now + 1) d of
        Inl _ \<Rightarrow> SpendError
      | Inr s \<Rightarrow>
          Spend (SS_KnownUSD s) (SS_Turns s) (SS_UnknownTurns s)
            (if alarmUSD > 0 then Some (alarmUSD, if SS_KnownUSD s \<ge> alarmUSD then ''OVER'' else ''ok'') else None))"

section \<open>Commands\<close>

datatype command =
  CmdUsage | CmdVersion | CmdConfig "string list" | CmdDaemon "string list" | CmdVerb string "string list"
  | CmdRetry "string list" | CmdDead "string list"

definition cli_command :: "string list \<Rightarrow> command" where
  "cli_command args =
     (case args of
        [] \<Rightarrow> CmdUsage
      | a # rest \<Rightarrow>
          if a = ''version'' then CmdVersion
          else if a = ''config'' then CmdConfig rest
          else if a = ''daemon'' then CmdDaemon rest
          else if a \<in> {''poke'', ''status'', ''drain''} then CmdVerb a rest
          else if a = ''retry'' then CmdRetry rest
          else if a = ''dead'' then CmdDead rest
          else CmdUsage)"

definition runConfig :: "(string \<Rightarrow> file_read) \<Rightarrow> toml_decoder \<Rightarrow> string list \<Rightarrow> int" where
  "runConfig read decode args =
     (if length args \<noteq> 2 \<or> hd args \<noteq> ''check'' then 2
      else (case Load read decode (args ! 1) of Inl _ \<Rightarrow> 1 | Inr _ \<Rightarrow> 0))"

text \<open>The version of the main module in the build information, when there is any.\<close>

definition version :: "string option \<Rightarrow> string" where
  "version info = (case info of None \<Rightarrow> ''(unknown)'' | Some v \<Rightarrow> if v = [] then ''(unknown)'' else v)"

text \<open>The exit code of the client commands; running the daemon is the parameter.\<close>

definition Run ::
  "(string \<Rightarrow> file_read) \<Rightarrow> toml_decoder \<Rightarrow> (string list \<Rightarrow> string list option) \<Rightarrow> connection \<Rightarrow>
   (string list \<Rightarrow> int) \<Rightarrow> string list \<Rightarrow> int" where
  "Run read decode flags cn daemon args =
     (case cli_command args of
        CmdUsage \<Rightarrow> 2
      | CmdVersion \<Rightarrow> 0
      | CmdConfig rest \<Rightarrow> runConfig read decode rest
      | CmdDaemon rest \<Rightarrow> daemon rest
      | CmdVerb verb rest \<Rightarrow> runAdminVerb flags cn verb rest
      | CmdRetry rest \<Rightarrow> runRetry flags cn rest
      | CmdDead rest \<Rightarrow> runDead flags cn rest)"

section \<open>Lemmas\<close>

lemma acquireLock_keeps: "acquireLock umask fails held path fs = (e, fs') \<Longrightarrow> keeps_tree fs fs'"
  by (auto simp: acquireLock_def Let_def keeps_tree_def map_le_def split: if_splits)

lemma admin_New_keeps: "admin_New umask osf fails held path fs = (e, fs') \<Longrightarrow> keeps_tree fs fs'"
  by (auto simp: admin_New_def split: if_splits prod.splits bool.splits
      intro: keeps_tree_trans dest: MkdirAll_keeps acquireLock_keeps)

lemma admin_New_held: "held \<Longrightarrow> fst (admin_New umask osf fails held path fs) \<noteq> None"
  by (auto simp: admin_New_def acquireLock_def Let_def split: prod.splits bool.splits)

lemma park_rows_identities:
  assumes "notice_writer onPark"
  shows "identities (fst (park_rows pf onPark now evs d)) = identities d"
proof (induction evs arbitrary: d)
  case (Cons ev evs)
  have "identities d2 = identities d1" if "onPark ev d1 = Inr d2" for d1 d2
    using notice_writer.surf_insert [OF assms that] by auto
  with Cons show ?case by (auto simp: Let_def ParkEvent_eq split: sum.split)
qed simp

lemma Rebuild_identities:
  "Rebuild sf pf (SurfaceInterruptedCoordinated fails) now (d, q) = (ok, (d', q')) \<Longrightarrow> identities d' = identities d"
  using park_rows_identities [OF si.notice_writer_axioms, of pf fails now "UnprocessedEvents d" d]
  by (auto simp: Rebuild_def Let_def split: if_splits prod.splits)

lemma seeded_identities:
  assumes "seedIdentities cfg d = Inr d1"
  shows "d1 = d\<lparr>identities := map (identity_row_of \<circ> seed_identity) (case cfg of None \<Rightarrow> [] | Some c \<Rightarrow> C_Identities c)\<rparr>"
  using assms SeedIdentities_full_sync [of "case cfg of None \<Rightarrow> [] | Some c \<Rightarrow> map seed_identity (C_Identities c)" d]
  by (auto simp: seedIdentities_def split: option.splits)

lemma boot_store_InrE:
  assumes "boot_store env state cfg d = (Inr b, d')"
  obtains d1 h q a where "seedIdentities cfg d = Inr d1" "wire_handler state cfg = Inr h"
    "Rebuild (bt_scan_fails env) (bt_park_fails env) (SurfaceInterruptedCoordinated (bt_surface_fails env)) (bt_now env) (d1, New) = (True, (d', q))"
    "newDiscordRunner (bt_read_later env) (bt_mk_session env) cfg = Inr a"
    "b = \<lparr>bo_config = cfg, bo_handler = h, bo_queues = q, bo_adapter = a\<rparr>"
proof (cases "seedIdentities cfg d")
  case (Inr d1)
  note s = this
  show ?thesis
  proof (cases "wire_handler state cfg")
    case (Inr h)
    obtain ok d2 q where r: "Rebuild (bt_scan_fails env) (bt_park_fails env) (SurfaceInterruptedCoordinated (bt_surface_fails env)) (bt_now env) (d1, New) = (ok, (d2, q))"
      by (metis prod.collapse)
    show ?thesis
    proof (cases "newDiscordRunner (bt_read_later env) (bt_mk_session env) cfg")
      case (Inr a)
      with assms s \<open>wire_handler state cfg = Inr h\<close> r have "ok" "b = \<lparr>bo_config = cfg, bo_handler = h, bo_queues = q, bo_adapter = a\<rparr>" "d' = d2"
        by (simp_all add: boot_store_def split: bool.splits)
      with that s \<open>wire_handler state cfg = Inr h\<close> r Inr show ?thesis by simp
    qed (use assms s \<open>wire_handler state cfg = Inr h\<close> r in \<open>simp add: boot_store_def split: bool.splits\<close>)
  qed (use assms s in \<open>simp add: boot_store_def\<close>)
qed (use assms in \<open>simp add: boot_store_def\<close>)

text \<open>The checks that precede the store.\<close>

definition boot_checks :: "boot_env \<Rightarrow> string \<Rightarrow> string \<Rightarrow> Config option \<Rightarrow> bool" where
  "boot_checks env state path cfg \<longleftrightarrow> \<not> bt_held env \<and> loadDaemonConfig (bt_read env) (bt_decode env) path state = Inr cfg \<and>
     validateDiscordAdapter (bt_read env) (bt_mk_session env) cfg = None \<and> verifyEnginePin (bt_probe env) cfg = None"

lemma boot_cases:
  assumes "runDaemon_boot env state path h = (r, h')"
  obtains (early) c where "r = Inl c" "ho_file h' = ho_file h" "keeps_tree (ho_fs h) (ho_fs h')"
      "c = 1 \<or> c = exitUnrecoverable \<and> (\<exists>cfg. loadDaemonConfig (bt_read env) (bt_decode env) path state = Inr cfg \<and>
         (validateDiscordAdapter (bt_read env) (bt_mk_session env) cfg \<noteq> None \<or> verifyEnginePin (bt_probe env) cfg \<noteq> None))"
      "\<And>cfg. \<not> boot_checks env state path cfg \<or> fst (admin_New (oe_umask (bt_open env)) (oe_fails (bt_open env)) (bt_admin env) (bt_held env) (Join state ''approach.sock'') (ho_fs h)) \<noteq> None"
  | (open_store) cfg fs1 e fs2 content where "boot_checks env state path cfg" "keeps_tree (ho_fs h) fs1"
      "Open (bt_open env) (Join state ''approach.db'') (fs1, ho_file h) = (e, fs2, content)" "ho_fs h' = fs2"
      "case e of Some x \<Rightarrow> r = Inl (if x = MigrateFailed SchemaTooNew then exitUnrecoverable else 1) \<and> ho_file h' = content
       | None \<Rightarrow> (r, snd (ho_file h')) = boot_store env state cfg (snd content) \<and> fst (ho_file h') = fst content"
proof -
  obtain ae fs1 where an: "admin_New (oe_umask (bt_open env)) (oe_fails (bt_open env)) (bt_admin env) (bt_held env) (Join state ''approach.sock'') (ho_fs h) = (ae, fs1)"
    by fastforce
  note k = admin_New_keeps [OF an]
  note b = assms [unfolded runDaemon_boot_def an]
  show ?thesis
  proof (cases ae)
    case (Some x)
    with b k an show ?thesis by (intro early [of 1]) auto
  next
    case None
    have nh: "\<not> bt_held env"
      using admin_New_held [of "bt_held env" "oe_umask (bt_open env)" "oe_fails (bt_open env)" "bt_admin env" "Join state ''approach.sock''" "ho_fs h"] an None by auto
    show ?thesis
    proof (cases "loadDaemonConfig (bt_read env) (bt_decode env) path state")
      case (Inl e)
      with b k None show ?thesis by (intro early [of 1]) (auto simp: boot_checks_def)
    next
      case (Inr cfg)
      show ?thesis
      proof (cases "validateDiscordAdapter (bt_read env) (bt_mk_session env) cfg = None \<and> verifyEnginePin (bt_probe env) cfg = None")
        case False
        with b k None Inr show ?thesis by (intro early [of exitUnrecoverable]) (auto simp: boot_checks_def split: if_splits)
      next
        case True
        with Inr nh have c: "boot_checks env state path cfg" by (simp add: boot_checks_def)
        obtain e fs2 content where o: "Open (bt_open env) (Join state ''approach.db'') (fs1, ho_file h) = (e, fs2, content)" by (metis prod_cases3)
        obtain r1 d1 where bs: "boot_store env state cfg (snd content) = (r1, d1)" by fastforce
        from b None Inr True o bs have "ho_fs h' = fs2"
          "case e of Some x \<Rightarrow> r = Inl (if x = MigrateFailed SchemaTooNew then exitUnrecoverable else 1) \<and> ho_file h' = content
           | None \<Rightarrow> (r, snd (ho_file h')) = boot_store env state cfg (snd content) \<and> fst (ho_file h') = fst content"
          by (auto split: option.splits)
        with c k o show ?thesis by (intro open_store)
      qed
    qed
  qed
qed

lemma boot_store_codes:
  "fst (boot_store env state cfg d) = Inl c \<Longrightarrow> c = 1 \<or> c = exitUnrecoverable \<and>
     ((\<exists>x. wire_handler state cfg = Inl x) \<or> (\<exists>x. newDiscordRunner (bt_read_later env) (bt_mk_session env) cfg = Inl x))"
  by (auto simp: boot_store_def split: sum.splits prod.splits bool.splits)

text \<open>What a restart cannot fix: a credential or binary that fails its check, a database from a newer binary, an
  engine configuration with a hole.\<close>

definition unrecoverable :: "boot_env \<Rightarrow> string \<Rightarrow> string \<Rightarrow> host \<Rightarrow> bool" where
  "unrecoverable env state path h \<longleftrightarrow>
     (\<exists>cfg. loadDaemonConfig (bt_read env) (bt_decode env) path state = Inr cfg \<and>
        (validateDiscordAdapter (bt_read env) (bt_mk_session env) cfg \<noteq> None \<or> verifyEnginePin (bt_probe env) cfg \<noteq> None \<or>
         fst (migrate (oe_migrate (bt_open env)) (oe_statements (bt_open env)) (oe_files (bt_open env)) (ho_file h)) = Some SchemaTooNew \<or>
         (\<exists>x. wire_handler state cfg = Inl x) \<or> (\<exists>x. newDiscordRunner (bt_read_later env) (bt_mk_session env) cfg = Inl x)))"

lemma wired_engine:
  assumes "wire_handler state cfg = Inr (ProductionTurn eng m cwd)"
  shows "\<exists>c e. cfg = Some c \<and> C_Engine c = Some e \<and> eng = engine_of c e \<and> IsAbs (En_Bin e) \<and> 1 \<le> En_MaxTurns e \<and> 0 < En_TurnTimeout e"
  using assms by (auto simp: wire_handler_def engine_New_def engine_of_def split: option.splits if_splits sum.splits)

lemma built_adapter:
  assumes "newDiscordRunner read mk cfg = Inr a"
  shows "(a \<noteq> None) = (discord_token_file cfg \<noteq> None) \<and>
    (\<forall>s. a = Some s \<longrightarrow> dg_Intents s = intents \<and> \<not> dg_ShouldReconnectOnError s \<and> dg_SyncEvents s)"
  using assms by (auto simp: newDiscordRunner_def build_adapter_def discord_New_def adopt_def split: option.splits sum.splits if_splits)

section \<open>Properties\<close>

text \<open>
  C40: a refused start leaves the store alone.  Unless this process owns the lock, the configuration loaded, the
  credential gives an adapter and the pinned binary reports its pin, the start is refused with the content of the
  database unchanged.  No start changes anything that exists in the file tree, and the exit status that tells the
  supervisor not to restart is given only for what a restart cannot fix.
\<close>

theorem refused_start_keeps_store:
  assumes "runDaemon_boot env state path h = (r, h')"
  shows "keeps_tree (ho_fs h) (ho_fs h') \<and>
    (\<forall>c. r = Inl c \<longrightarrow> c = 1 \<or> c = exitUnrecoverable \<and> unrecoverable env state path h) \<and>
    ((\<nexists>cfg. boot_checks env state path cfg) \<longrightarrow> (\<exists>c. r = Inl c) \<and> ho_file h' = ho_file h)"
  using assms
proof (cases rule: boot_cases)
  case (early c)
  then show ?thesis by (auto simp: unrecoverable_def)
next
  case (open_store cfg fs1 e fs2 content)
  have k: "keeps_tree (ho_fs h) (ho_fs h')"
    using open_store(2,4) Open_stages(1) [OF open_store(3)] by (auto intro: keeps_tree_trans)
  have cfg: "loadDaemonConfig (bt_read env) (bt_decode env) path state = Inr cfg" using open_store(1) by (simp add: boot_checks_def)
  show ?thesis
  proof (cases e)
    case None
    with open_store(5) have "boot_store env state cfg (snd content) = (r, snd (ho_file h'))" by simp
    then have "\<forall>c. r = Inl c \<longrightarrow> c = 1 \<or> c = exitUnrecoverable \<and> unrecoverable env state path h"
      using boot_store_codes [of env state cfg "snd content"] cfg by (auto simp: unrecoverable_def)
    with k open_store(1) show ?thesis by blast
  next
    case (Some x)
    with open_store(5) have r: "r = Inl (if x = MigrateFailed SchemaTooNew then exitUnrecoverable else 1)" by simp
    have "unrecoverable env state path h" if "x = MigrateFailed SchemaTooNew"
      using Open_stages(3) [OF open_store(3)] Some that cfg by (auto simp: unrecoverable_def)
    with r k open_store(1) show ?thesis by auto
  qed
qed

definition ex_boot_env :: boot_env where
  "ex_boot_env = \<lparr>bt_open = \<lparr>oe_umask = 18, oe_fails = (\<lambda>_. False), oe_pragma = map_of wanted_pragmas,
       oe_migrate = \<lparr>me_wait_cancelled = False, me_one_connection = False, me_conn_fails = False, me_begin_fails = False,
         me_commit_fails = False, me_fails = (\<lambda>_. False)\<rparr>, oe_statements = (\<lambda>_. []), oe_files = []\<rparr>,
     bt_admin = (\<lambda>_. False), bt_held = False, bt_read = (\<lambda>_. NotExist), bt_read_later = (\<lambda>_. NotExist),
     bt_decode = (\<lambda>_ _. None), bt_mk_session = (\<lambda>_. None), bt_probe = (\<lambda>_. (True, [])), bt_scan_fails = False,
     bt_park_fails = (\<lambda>_. False), bt_surface_fails = (\<lambda>_. False), bt_now = 70\<rparr>"

definition ex_host :: host where
  "ex_host = \<lparr>ho_fs = ex_tree, ho_file = (0, ex_turn_db)\<rparr>"

theorem refused_start_keeps_store_witness:
  "snd (runDaemon_boot ex_boot_env ''/a/state'' ''/a/given.toml'' ex_host) =
     ex_host\<lparr>ho_fs := ho_fs (snd (runDaemon_boot ex_boot_env ''/a/state'' ''/a/given.toml'' ex_host))\<rparr>"
proof -
  obtain r h' where b: "runDaemon_boot ex_boot_env ''/a/state'' ''/a/given.toml'' ex_host = (r, h')" by fastforce
  have "\<nexists>cfg. boot_checks ex_boot_env ''/a/state'' ''/a/given.toml'' cfg"
    by (simp add: boot_checks_def ex_boot_env_def loadDaemonConfig_def Load_def)
  with refused_start_keeps_store [OF b] have "ho_file h' = ho_file ex_host" by simp
  then have "h' = ex_host\<lparr>ho_fs := ho_fs h'\<rparr>" by simp
  then show ?thesis unfolding b by (simp only: snd_conv)
qed



end
