(* ===== verification/Wiring.thy ===== *)
theory Wiring
  imports Daemon
begin

text \<open>
  The parts wired together as \<open>runDaemon\<close> of \<open>src/internal/cli/daemon.go\<close> does it: the session manager drives the
  engine of \<open>Engine_Run\<close>, whose turn records go to the ledger, and the turn handler runs on that manager.  What
  the handler and the manager were assumed to be given holds of the parts they get.
\<close>

section \<open>The wiring\<close>

definition wire_engine ::
  "(nat \<Rightarrow> nat) \<Rightarrow> (string \<Rightarrow> streamEvent option) \<Rightarrow> engine_Config \<Rightarrow> (invocation \<Rightarrow> child) \<Rightarrow> turn_env \<Rightarrow> turn_env" where
  "wire_engine uni unmarshal e spawn env =
     env\<lparr>te_start := (\<lambda>sp d. case engine_Start uni unmarshal e spawn sp of (err, turn, _) \<Rightarrow> (err, ledger_after turn d)),
         te_resume := (\<lambda>sp d. case engine_Resume uni unmarshal e spawn sp of (err, turn, _) \<Rightarrow> (err, ledger_after turn d))\<rparr>"

text \<open>The invocation of an engine call, and what the child of the call fed to the reply sink.\<close>

fun call_invocation :: "engine_Config \<Rightarrow> engine_call \<Rightarrow> invocation" where
  "call_invocation e (StartCall sp _) = invocation_of e sp ''--session-id'' (Sp_SessionID sp)"
| "call_invocation e (ResumeCall sp _) = invocation_of e sp ''--resume'' (Sp_SessionID sp)"

fun call_output :: "(nat \<Rightarrow> nat) \<Rightarrow> (string \<Rightarrow> streamEvent option) \<Rightarrow> engine_Config \<Rightarrow> (invocation \<Rightarrow> child) \<Rightarrow> engine_call \<Rightarrow> string list" where
  "call_output uni unmarshal e spawn (StartCall sp _) = snd (snd (engine_Start uni unmarshal e spawn sp))"
| "call_output uni unmarshal e spawn (ResumeCall sp _) = snd (snd (engine_Resume uni unmarshal e spawn sp))"

definition managed_runner ::
  "(nat \<Rightarrow> nat) \<Rightarrow> (string \<Rightarrow> streamEvent option) \<Rightarrow> engine_Config \<Rightarrow> (invocation \<Rightarrow> child) \<Rightarrow> turn_env \<Rightarrow> Manager \<Rightarrow>
   TurnRequest \<Rightarrow> db \<Rightarrow> turn_error option \<times> string list \<times> db" where
  "managed_runner uni unmarshal e spawn env m req d =
     (case Session_Manager.Turn (wire_engine uni unmarshal e spawn env) m req (d, []) of (res, (d', calls)) \<Rightarrow>
        (case res of Inl x \<Rightarrow> Some x | Inr _ \<Rightarrow> None, concat (map (call_output uni unmarshal e spawn) calls), d'))"

section \<open>The manager touches no event\<close>

definition keeps_events :: "turn_env \<Rightarrow> bool" where
  "keeps_events env \<longleftrightarrow> (\<forall>sp d. events (snd (te_start env sp d)) = events d \<and> events (snd (te_resume env sp d)) = events d)"

lemma insertSession_events: "insertSession fs s d = Inr (c, d') \<Longrightarrow> events d' = events d"
  by (auto elim: insertSession_InrE)

lemma retire_events: "retireSession fs old s from to err d = Inr (c, d') \<Longrightarrow> events d' = events d"
  by (auto simp: retireSession_def exec_defs Let_def split: if_splits sum.splits prod.splits dest!: insertSession_events)

lemma activate_events: "ActivateSession sid d = Inr d' \<Longrightarrow> events d' = events d"
  by (auto simp: ActivateSession_def elim: Transition_InrE)

lemma touch_events [simp]: "events (touch env sid d) = events d"
  by (auto simp: touch_def guarded_def split: sum.splits elim: Touch_InrE)

lemma pin_events: "events (fst (snd (pin env m t fl cwd s))) = events (fst s)"
  by (auto simp: pin_def guarded_def InsertSession_def split: sum.splits dest: insertSession_events)

lemma Ensure_events: "events (fst (snd (Ensure env m t fl cwd s))) = events (fst s)"
  by (auto simp: Ensure_def guarded_def ExpireSession_def pin_events split: sum.splits option.splits dest: retire_events)

lemma rotate_events: "events (fst (snd (rotate env m lv s))) = events (fst s)"
  by (auto simp: rotate_def guarded_def RotateSession_def split: sum.splits dest: retire_events)

lemma degrade_events: "events (fst (snd (degradeResumeFailed env m lv cwd s))) = events (fst s)"
  by (auto simp: degradeResumeFailed_def guarded_def ResumeFailSession_def split: sum.splits dest: retire_events)

lemma start_events: "keeps_events env \<Longrightarrow> events (fst (snd (startNew env lv note kind prompt s))) = events (fst s)"
proof -
  assume k: "keeps_events env"
  have e: "events d1 = events d" if "te_start env sp d = (r, d1)" for sp d r d1
    using k that unfolding keeps_events_def by (metis snd_conv)
  show ?thesis
    by (auto simp: startNew_def Let_def guarded_def split: option.splits prod.splits sum.splits dest!: e activate_events)
qed

lemma resume_events: "keeps_events env \<Longrightarrow> events (fst (snd (resume env lv kind prompt s))) = events (fst s)"
proof -
  assume k: "keeps_events env"
  have e: "events d1 = events d" if "te_resume env sp d = (r, d1)" for sp d r d1
    using k that unfolding keeps_events_def by (metis snd_conv)
  show ?thesis
    by (auto simp: resume_def Let_def split: option.splits prod.splits dest!: e)
qed

lemma run_live_events:
  assumes k: "keeps_events env"
  shows "events (fst (snd (run_live env m req lv s))) = events (fst s)"
proof (cases "L_Status lv")
  case Creating
  then show ?thesis by (simp add: run_live_def start_events [OF k] split: sum.split)
next
  case Active
  obtain r s1 where r: "resume env lv (Tr_Kind req) (Tr_Prompt req) s = (r, s1)" by (meson surj_pair)
  obtain g s2 where g: "degradeResumeFailed env m lv (Tr_Cwd req) s1 = (g, s2)" by (meson surj_pair)
  have "events (fst s1) = events (fst s)" "events (fst s2) = events (fst s1)"
    using resume_events [OF k, of lv "Tr_Kind req" "Tr_Prompt req" s] degrade_events [of env m lv "Tr_Cwd req" s1] by (simp_all add: r g)
  with Active start_events [OF k] show ?thesis by (simp add: run_live_def r g split: sum.split)
qed (simp_all add: run_live_def)

lemma Turn_events:
  assumes k: "keeps_events env"
  shows "events (fst (snd (Session_Manager.Turn env m req s))) = events (fst s)"
proof -
  obtain r s1 where r: "Ensure env m (Tr_ThreadKey req) (Tr_TrustFloor req) (Tr_Cwd req) s = (r, s1)" by (meson surj_pair)
  have s1: "events (fst s1) = events (fst s)"
    using Ensure_events [of env m "Tr_ThreadKey req" "Tr_TrustFloor req" "Tr_Cwd req" s] by (simp add: r)
  show ?thesis
  proof (cases r)
    case (Inl x)
    with r s1 show ?thesis by (simp add: Session_Manager.Turn_def)
  next
    case (Inr p)
    obtain lv b where p: "p = (lv, b)" by fastforce
    obtain g s2 where g: "degradeResumeFailed env m lv (Tr_Cwd req) s1 = (g, s2)" by (meson surj_pair)
    obtain t s3 where t: "rotate env m lv s1 = (t, s3)" by (meson surj_pair)
    have "events (fst s2) = events (fst s1)" "events (fst s3) = events (fst s1)"
      using degrade_events [of env m lv "Tr_Cwd req" s1] rotate_events [of env m lv s1] by (simp_all add: g t)
    with s1 show ?thesis
      by (simp add: Session_Manager.Turn_def r Inr p g t start_events [OF k] run_live_events [OF k] split: sum.split)
  qed
qed

section \<open>The engine meets the manager's assumptions\<close>

lemma ledger_after_frame [simp]:
  "sessions (ledger_after t d) = sessions d" "events (ledger_after t d) = events d"
  by (auto simp: ledger_after_def InsertTurn_def split: option.split)

lemma ledger_after_wf: "wf_db d \<Longrightarrow> wf_db (ledger_after t d)"
  by (auto simp: ledger_after_def split: sum.split intro: InsertTurn_wf)

lemma wired_keeps: "engine_keeps (wire_engine uni unmarshal e spawn env)" "keeps_events (wire_engine uni unmarshal e spawn env)"
  by (auto simp: engine_keeps_def keeps_events_def wire_engine_def ledger_after_wf split: prod.split)

lemma runner_keeps_processing:
  "keeps_processing i (\<lambda>d. snd (snd (managed_runner uni unmarshal e spawn env m req d)))"
proof -
  have "wf_db d' \<and> events d' = events d"
    if "wf_db d" "d' = snd (snd (managed_runner uni unmarshal e spawn env m req d))" for d d'
  proof -
    obtain res d1 calls where t: "Session_Manager.Turn (wire_engine uni unmarshal e spawn env) m req (d, []) = (res, (d1, calls))"
      by (metis prod.collapse)
    have "d' = d1" using that(2) t by (simp add: managed_runner_def)
    moreover have "wf_db d1" using Turn_ok [OF that(1) wired_keeps(1), of uni unmarshal e spawn env req "[]" m] unfolding t turn_ok_def by auto
    moreover have "events d1 = events d"
      using Turn_events [OF wired_keeps(2), of uni unmarshal e spawn env m req "(d, [])"] by (simp add: t)
    ultimately show ?thesis by simp
  qed
  then have "wf_db (snd (snd (managed_runner uni unmarshal e spawn env m req d)))"
    "events (snd (snd (managed_runner uni unmarshal e spawn env m req d))) = events d" if "wf_db d" for d
    using that by blast+
  then show ?thesis unfolding keeps_processing_def status_of_def event_by_id_def by auto
qed

section \<open>The dormant handler\<close>

text \<open>Without an engine section a dispatched event is claimed and stamped, and nothing else: the next boot parks it.\<close>

definition placeholderTurn :: "QueuedEvent \<Rightarrow> db \<Rightarrow> db \<times> bool" where
  "placeholderTurn ev d = (d, False)"

lemma dormant_dispatch:
  assumes "dispatch False False park_fails placeholderTurn onPark now ev d = (b, d')" and "wf_db d"
    and "status_of (Q_ID ev) d = Some Received"
  shows "b \<and> status_of (Q_ID ev) d' = Some Processing \<and> wf_db d'"
proof (cases "MarkEventProcessing (Q_ID ev) now d")
  case (Inl e)
  with mp.act_status [OF _ assms(2)] assms(3) show ?thesis
    by (auto simp: status_of_def MarkEventProcessing_def Let_def exec_defs rows_affected_0 event_by_id_def split: if_splits option.splits dest: find_eq_Some)
next
  case (Inr d1)
  with assms(1) have "b" "d' = d1" by (simp_all add: dispatch_def placeholderTurn_def)
  with mp.act_status [OF Inr assms(2)] mp.act_wf [OF Inr assms(2)] show ?thesis by (simp add: status_of_def)
qed

section \<open>Properties\<close>

text \<open>
  C6: every turn of the wired daemon ends in a durable state.  The turn handler on the session manager on the engine,
  with any child process whatever it prints or however it ends: an event in process leaves the handler skipped (not
  from the owner), dead (undecodable payload), completed, replied or interrupted (a turn that ran), and received,
  interrupted or dead (a turn that failed), never still in process, when the store's own writes succeed and the
  daemon is not being cancelled.  On the way at most two children are spawned, each for the live session of the
  event's thread, in that session's directory.
\<close>

theorem wired_turn_durable:
  assumes "wf_db d" and "status_of (Q_ID ev) d = Some Processing"
    and "td_runner env = managed_runner uni unmarshal e spawn tenv m"
    and "\<forall>c. \<not> td_fails env c" and "\<not> td_cancelled env" and "keeps_processing (Q_ID ev) (rv_gap (td_rec env))"
    and "\<not> rv_journal_fails (td_rec env)" and "\<not> rv_requeue_fails (td_rec env)" and "\<not> rv_park_fails (td_rec env)"
    and "snd (snd (Session_Manager.Turn (wire_engine uni unmarshal e spawn tenv) m (turn_request env ev p) (d, []))) = calls"
  shows "status_of (Q_ID ev) (tu_db (productionTurn env ev a d)) \<in>
      (if Q_Trust ev \<noteq> ''owner'' then {Some Skipped}
       else case td_unmarshal env (Q_Payload ev) of
         None \<Rightarrow> {Some Dead}
       | Some p \<Rightarrow>
           if fst (managed_runner uni unmarshal e spawn tenv m (turn_request env ev p) d) = None
           then {Some Completed, Some Replied, Some Interrupted}
           else {Some Received, Some Interrupted, Some Dead}) \<and>
    length calls \<le> 2 \<and> list_all (call_ok (wire_engine uni unmarshal e spawn tenv) (Q_ThreadKey ev)) calls \<and>
    (\<forall>c \<in> set calls. \<exists>sp d0 lv. (c = StartCall sp d0 \<or> c = ResumeCall sp d0) \<and>
       ResolveLiveSession (Q_ThreadKey ev) d0 = Some lv \<and> L_SessionID lv \<in> set (in_args (call_invocation e c)) \<and>
       in_dir (call_invocation e c) = L_Cwd lv \<and> in_bin (call_invocation e c) = ec_Bin e)"
proof -
  have r: "\<forall>req. keeps_processing (Q_ID ev) (\<lambda>d. snd (snd (td_runner env req d)))"
    unfolding assms(3) by (intro allI runner_keeps_processing)
  have key: "Tr_ThreadKey (turn_request env ev p) = Q_ThreadKey ev" by (simp add: turn_request_def)
  have c: "length calls \<le> 2" "list_all (call_ok (wire_engine uni unmarshal e spawn tenv) (Q_ThreadKey ev)) calls"
    using Turn_ok [OF assms(1) wired_keeps(1), of uni unmarshal e spawn tenv "turn_request env ev p" "[]" m] assms(10)
    by (auto simp: turn_ok_def key split: prod.splits)
  have "\<exists>sp d0 lv. (x = StartCall sp d0 \<or> x = ResumeCall sp d0) \<and> ResolveLiveSession (Q_ThreadKey ev) d0 = Some lv \<and>
      L_SessionID lv \<in> set (in_args (call_invocation e x)) \<and> in_dir (call_invocation e x) = L_Cwd lv \<and> in_bin (call_invocation e x) = ec_Bin e"
    if "x \<in> set calls" for x
    using c(2) that by (cases x) (fastforce simp: list_all_iff invocation_of_def)+
  with c every_exit_durable [OF assms(1,2,4,5) r assms(6-9), of a] show ?thesis unfolding assms(3) by blast
qed

definition ex_wired_deps :: turn_deps where
  "ex_wired_deps = ex_deps\<lparr>td_runner := managed_runner id (\<lambda>_. None) ex_engine (\<lambda>_. ex_child) ex_turn_env ex_manager\<rparr>"

theorem wired_turn_durable_witness:
  "status_of (Q_ID ex_queued) (tu_db (productionTurn ex_wired_deps ex_queued ex_adapter ex_turn_db)) \<in>
     {Some Completed, Some Replied, Some Interrupted, Some Received, Some Dead}"
proof -
  have h: "td_runner ex_wired_deps = managed_runner id (\<lambda>_. None) ex_engine (\<lambda>_. ex_child) ex_turn_env ex_manager"
    "\<forall>c. \<not> td_fails ex_wired_deps c" "\<not> td_cancelled ex_wired_deps" "keeps_processing (Q_ID ex_queued) (rv_gap (td_rec ex_wired_deps))"
    "\<not> rv_journal_fails (td_rec ex_wired_deps)" "\<not> rv_requeue_fails (td_rec ex_wired_deps)" "\<not> rv_park_fails (td_rec ex_wired_deps)"
    "td_unmarshal ex_wired_deps (Q_Payload ex_queued) = Some ''hello''"
    by (simp_all add: ex_wired_deps_def ex_deps_def keeps_processing_def ex_rec_env_def ex_owner)
  from wired_turn_durable [OF wf_ex_turn_db ex_status h(1-7) refl, where a = ex_adapter and p = "''hello''"]
  show ?thesis unfolding h(8) ex_owner(1) by (auto split: if_splits)
qed

end
