(* ===== verification/Admin_Serve.thy ===== *)
theory Admin_Serve
  imports Lifecycle Store_Machine Admin "HOL-Library.Multiset"
begin

text \<open>
  The serving loop of the admin socket: \<open>Serve\<close> of \<open>src/internal/admin/admin.go\<close> once the socket is bound.  Four
  kinds of goroutine share it: the accept loop, the watcher that turns a cancelled context or a drain request
  into a closed listener, one handler per connection, and the rest of the daemon, which changes its state at any
  time.  A connection is the bytes that arrive on it before its deadline.  The locale \<open>admin_service\<close> is what the
  loop needs of the daemon around it; it is interpreted on the daemon's own hooks and moves.
\<close>

section \<open>The goroutines of Serve\<close>

datatype watcher = Selecting | Closing_Listener | Watcher_Gone

text \<open>\<open>Joining\<close> is the deferred wait for the handlers; the flag tells whether \<open>Serve\<close> returns an error.\<close>

datatype serve_pc = Accepting | Joining bool | Served bool

record 's serve =
  srv_state :: 's
  srv_drain :: bool
  srv_stopping :: bool
  srv_listening :: bool
  srv_exit :: bool
  srv_watcher :: watcher
  srv_pc :: serve_pc
  srv_handlers :: "string list"
  srv_accepted :: "string list"
  srv_answers :: "(string \<times> reply option) list"

definition serve_start :: "'s \<Rightarrow> 's serve" where
  "serve_start s =
     \<lparr>srv_state = s, srv_drain = False, srv_stopping = False, srv_listening = True, srv_exit = False, srv_watcher = Selecting,
      srv_pc = Accepting, srv_handlers = [], srv_accepted = [], srv_answers = []\<rparr>"

text \<open>The handler of connection \<open>i\<close> answers and is done.  \<open>now\<close> is the clock the hooks read.\<close>

definition handler_done :: "(int \<Rightarrow> 's Options) \<Rightarrow> int \<Rightarrow> nat \<Rightarrow> 's serve \<Rightarrow> 's serve" where
  "handler_done opts now i v =
     (let input = srv_handlers v ! i in
      case handle (opts now) input (srv_state v, srv_drain v) of
        (r, (s', dr)) \<Rightarrow>
          v\<lparr>srv_state := s', srv_drain := dr, srv_handlers := take i (srv_handlers v) @ drop (Suc i) (srv_handlers v),
            srv_answers := srv_answers v @ [(input, r)]\<rparr>)"

text \<open>The moves no one can withhold: handlers, the watcher, the failing accept on a closed listener, the join.\<close>

inductive serve_own :: "(int \<Rightarrow> 's Options) \<Rightarrow> ('s \<Rightarrow> bool) \<Rightarrow> 's serve \<Rightarrow> 's serve \<Rightarrow> bool" for opts ctx where
  handled: "i < length (srv_handlers v) \<Longrightarrow> serve_own opts ctx v (handler_done opts now i v)"
| woken: "srv_watcher v = Selecting \<Longrightarrow> ctx (srv_state v) \<or> srv_drain v \<Longrightarrow>
    serve_own opts ctx v (v\<lparr>srv_watcher := Closing_Listener, srv_stopping := True\<rparr>)"
| closed: "srv_watcher v = Closing_Listener \<Longrightarrow> serve_own opts ctx v (v\<lparr>srv_watcher := Watcher_Gone, srv_listening := False\<rparr>)"
| released: "srv_watcher v = Selecting \<Longrightarrow> srv_exit v \<Longrightarrow> serve_own opts ctx v (v\<lparr>srv_watcher := Watcher_Gone\<rparr>)"
| stopped: "srv_pc v = Accepting \<Longrightarrow> \<not> srv_listening v \<Longrightarrow> serve_own opts ctx v (v\<lparr>srv_pc := Joining (\<not> srv_stopping v)\<rparr>)"
| joined: "srv_pc v = Joining e \<Longrightarrow> srv_handlers v = [] \<Longrightarrow> serve_own opts ctx v (v\<lparr>srv_pc := Served e, srv_exit := True\<rparr>)"

text \<open>All moves: also a connection, an accept the system fails, and whatever the rest of the daemon does.\<close>

inductive serve_step ::
  "(int \<Rightarrow> 's Options) \<Rightarrow> ('s \<Rightarrow> bool) \<Rightarrow> ('s \<Rightarrow> 's \<Rightarrow> bool) \<Rightarrow> 's serve \<Rightarrow> 's serve \<Rightarrow> bool" for opts ctx env where
  own: "serve_own opts ctx v w \<Longrightarrow> serve_step opts ctx env v w"
| accept: "srv_pc v = Accepting \<Longrightarrow> srv_listening v \<Longrightarrow>
    serve_step opts ctx env v (v\<lparr>srv_handlers := srv_handlers v @ [input], srv_accepted := srv_accepted v @ [input]\<rparr>)"
| accept_error: "srv_pc v = Accepting \<Longrightarrow> srv_listening v \<Longrightarrow>
    serve_step opts ctx env v (v\<lparr>srv_pc := Joining (\<not> srv_stopping v)\<rparr>)"
| outside: "env (srv_state v) s \<Longrightarrow> serve_step opts ctx env v (v\<lparr>srv_state := s\<rparr>)"

inductive_cases serve_ownE: "serve_own opts ctx v w"

section \<open>The invariant\<close>

lemma handle_keeps_drain: "handle opts input (s, dr) = (r, (s', dr')) \<Longrightarrow> dr \<Longrightarrow> dr'"
  by (auto simp: handle_def handle_verb_def split: option.splits prod.splits if_splits hook_outcome.splits)

lemma handler_done_sel [simp]:
  "srv_stopping (handler_done opts now i v) = srv_stopping v" "srv_listening (handler_done opts now i v) = srv_listening v"
  "srv_exit (handler_done opts now i v) = srv_exit v" "srv_watcher (handler_done opts now i v) = srv_watcher v"
  "srv_pc (handler_done opts now i v) = srv_pc v" "srv_accepted (handler_done opts now i v) = srv_accepted v"
  "srv_handlers (handler_done opts now i v) = take i (srv_handlers v) @ drop (Suc i) (srv_handlers v)"
  "map fst (srv_answers (handler_done opts now i v)) = map fst (srv_answers v) @ [srv_handlers v ! i]"
  by (auto simp: handler_done_def Let_def split: prod.splits)

lemma handler_done_drain: "srv_drain v \<Longrightarrow> srv_drain (handler_done opts now i v)"
  by (auto simp: handler_done_def Let_def split: prod.splits dest: handle_keeps_drain)

lemma mset_remove_nth: "i < length xs \<Longrightarrow> add_mset (xs ! i) (mset (take i xs @ drop (Suc i) xs)) = mset xs"
  by (metis id_take_nth_drop mset_append mset.simps(2) union_mset_add_mset_right)

text \<open>What stopping rests on, when the listener is closed, and that each connection has one fate.\<close>

definition serve_ok :: "('s \<Rightarrow> bool) \<Rightarrow> 's serve \<Rightarrow> bool" where
  "serve_ok ctx v \<longleftrightarrow>
     (srv_stopping v \<longrightarrow> ctx (srv_state v) \<or> srv_drain v) \<and> (\<not> srv_listening v \<longrightarrow> srv_stopping v) \<and>
     (srv_watcher v = Selecting \<longrightarrow> \<not> srv_stopping v) \<and> (srv_watcher v = Closing_Listener \<longrightarrow> srv_stopping v) \<and>
     (srv_watcher v = Watcher_Gone \<longrightarrow> srv_exit v \<or> \<not> srv_listening v) \<and>
     (srv_exit v \<longleftrightarrow> (\<exists>e. srv_pc v = Served e)) \<and> (srv_exit v \<longrightarrow> srv_handlers v = []) \<and>
     (srv_pc v = Joining False \<or> srv_pc v = Served False \<longrightarrow> srv_stopping v) \<and>
     mset (srv_accepted v) = mset (srv_handlers v) + mset (map fst (srv_answers v))"

lemma serve_start_ok: "serve_ok ctx (serve_start s)"
  by (simp add: serve_ok_def serve_start_def)

locale admin_service =
  fixes opts :: "int \<Rightarrow> 's Options" and ctx :: "'s \<Rightarrow> bool" and env :: "'s \<Rightarrow> 's \<Rightarrow> bool"
  assumes env_ctx: "env s s' \<Longrightarrow> ctx s \<Longrightarrow> ctx s'"
    and handle_ctx: "handle (opts now) input (s, dr) = (r, (s', dr')) \<Longrightarrow> ctx s \<Longrightarrow> ctx s'"
begin

lemma handler_done_ctx: "ctx (srv_state v) \<Longrightarrow> ctx (srv_state (handler_done opts now i v))"
  by (auto simp: handler_done_def Let_def split: prod.splits dest: handle_ctx)

lemma own_ok: "serve_own opts ctx v w \<Longrightarrow> serve_ok ctx v \<Longrightarrow> serve_ok ctx w"
proof (induction rule: serve_own.induct)
  case (handled i v now)
  have "mset (srv_accepted v) = mset (take i (srv_handlers v) @ drop (Suc i) (srv_handlers v)) +
      mset (map fst (srv_answers v) @ [srv_handlers v ! i])"
    using handled mset_remove_nth [OF handled.hyps] by (auto simp: serve_ok_def)
  moreover have "\<not> srv_exit v" using handled by (auto simp: serve_ok_def)
  ultimately show ?case
    using handled.prems handler_done_ctx [of v now i] handler_done_drain [of v opts now i] unfolding serve_ok_def handler_done_sel by blast
qed (auto simp: serve_ok_def)

lemma step_ok: "serve_step opts ctx env v w \<Longrightarrow> serve_ok ctx v \<Longrightarrow> serve_ok ctx w"
proof (induction rule: serve_step.induct)
  case (own v w)
  then show ?case by (simp add: own_ok)
next
  case (outside v s)
  then show ?case using env_ctx [OF outside.hyps] by (auto simp: serve_ok_def)
qed (auto simp: serve_ok_def)

lemma steps_ok: "(serve_step opts ctx env)\<^sup>*\<^sup>* v w \<Longrightarrow> serve_ok ctx v \<Longrightarrow> serve_ok ctx w"
  by (induction rule: rtranclp_induct) (auto intro: step_ok)

end

section \<open>Stopping\<close>

text \<open>How many moves are left at most before \<open>Serve\<close> has returned and its watcher is gone.\<close>

fun watcher_left :: "watcher \<Rightarrow> nat" where
  "watcher_left Selecting = 2"
| "watcher_left Closing_Listener = 1"
| "watcher_left Watcher_Gone = 0"

fun pc_left :: "serve_pc \<Rightarrow> nat" where
  "pc_left Accepting = 2"
| "pc_left (Joining _) = 1"
| "pc_left (Served _) = 0"

definition moves_left :: "'s serve \<Rightarrow> nat" where
  "moves_left v = watcher_left (srv_watcher v) + pc_left (srv_pc v) + length (srv_handlers v)"

lemma own_decreases: "serve_own opts ctx v w \<Longrightarrow> moves_left w < moves_left v"
  by (induction rule: serve_own.induct) (auto simp: moves_left_def)

lemma own_enabled:
  assumes "serve_ok ctx v" and "ctx (srv_state v) \<or> srv_drain v" and "moves_left v \<noteq> 0"
  shows "\<exists>w. serve_own opts ctx v w"
proof (cases "srv_handlers v")
  case (Cons x xs)
  then have "serve_own opts ctx v (handler_done opts 0 0 v)" by (intro serve_own.handled) simp
  then show ?thesis ..
next
  case Nil
  show ?thesis
  proof (cases "srv_watcher v")
    case Selecting
    with assms(2) show ?thesis by (blast intro: serve_own.woken)
  next
    case Closing_Listener
    then show ?thesis by (blast intro: serve_own.closed)
  next
    case Watcher_Gone
    with assms(3) Nil have p: "pc_left (srv_pc v) \<noteq> 0" by (simp add: moves_left_def)
    show ?thesis
    proof (cases "srv_pc v")
      case Accepting
      with Watcher_Gone assms(1) have "\<not> srv_listening v" by (auto simp: serve_ok_def)
      with Accepting show ?thesis by (blast intro: serve_own.stopped)
    next
      case (Joining e)
      with Nil show ?thesis by (blast intro: serve_own.joined)
    qed (use p in simp)
  qed
qed

context admin_service
begin

lemma own_asked:
  assumes "serve_own opts ctx v w" and "ctx (srv_state v) \<or> srv_drain v"
  shows "ctx (srv_state w) \<or> srv_drain w"
  using assms by (induction rule: serve_own.induct) (auto dest: handler_done_ctx handler_done_drain)

text \<open>Asked to stop, it has stopped after at most \<open>moves_left\<close> moves of its own, whichever they are.\<close>

lemma own_runs_out:
  assumes "serve_ok ctx v" and "ctx (srv_state v) \<or> srv_drain v"
  shows "\<exists>w. (serve_own opts ctx)\<^sup>*\<^sup>* v w \<and> moves_left w = 0"
  using assms
proof (induction "moves_left v" arbitrary: v rule: less_induct)
  case less
  show ?case
  proof (cases "moves_left v = 0")
    case False
    then obtain w where w: "serve_own opts ctx v w" using own_enabled less.prems by blast
    with own_decreases [OF w] own_ok [OF w] own_asked [OF w] less obtain x where
      "(serve_own opts ctx)\<^sup>*\<^sup>* w x" "moves_left x = 0" by blast
    with w show ?thesis by (meson converse_rtranclp_into_rtranclp)
  qed blast
qed

end

lemma no_moves_left: "moves_left v = 0 \<Longrightarrow> (\<exists>e. srv_pc v = Served e) \<and> srv_handlers v = [] \<and> srv_watcher v = Watcher_Gone"
  by (cases "srv_watcher v"; cases "srv_pc v") (auto simp: moves_left_def)

text \<open>No accept of the system has failed so far.\<close>

definition accepting_cleanly :: "'s serve \<Rightarrow> bool" where
  "accepting_cleanly v \<longleftrightarrow> srv_pc v \<in> {Accepting, Joining False, Served False}"

lemma own_clean: "serve_own opts ctx v w \<Longrightarrow> serve_ok ctx v \<Longrightarrow> accepting_cleanly v \<Longrightarrow> accepting_cleanly w"
  by (induction rule: serve_own.induct) (auto simp: accepting_cleanly_def serve_ok_def)

lemma own_bounded: "(serve_own opts ctx ^^ n) v w \<Longrightarrow> n + moves_left w \<le> moves_left v"
proof (induction n arbitrary: w)
  case (Suc n)
  then obtain x where "(serve_own opts ctx ^^ n) v x" "serve_own opts ctx x w" by auto
  with Suc.IH [of x] own_decreases [of opts ctx x w] show ?case by linarith
qed simp

context admin_service
begin

lemma own_steps_keep:
  assumes "(serve_own opts ctx)\<^sup>*\<^sup>* v w" and "serve_ok ctx v" and "ctx (srv_state v) \<or> srv_drain v"
  shows "serve_ok ctx w \<and> (ctx (srv_state w) \<or> srv_drain w) \<and> (accepting_cleanly v \<longrightarrow> accepting_cleanly w)"
  using assms
proof (induction rule: rtranclp_induct)
  case (step w x)
  with own_ok own_asked own_clean show ?case by blast
qed simp

text \<open>A run of its own moves that cannot go on has returned.\<close>

lemma stuck_served:
  assumes "(serve_own opts ctx)\<^sup>*\<^sup>* v w" and "serve_ok ctx v" and "ctx (srv_state v) \<or> srv_drain v" and "\<nexists>x. serve_own opts ctx w x"
  shows "\<exists>e. srv_pc w = Served e \<and> srv_handlers w = [] \<and> (accepting_cleanly v \<longrightarrow> \<not> e)"
proof -
  note k = own_steps_keep [OF assms(1-3)]
  with own_enabled assms(4) have "moves_left w = 0" by blast
  with no_moves_left [of w] k show ?thesis by (auto simp: accepting_cleanly_def)
qed

end

section \<open>The daemon around the socket\<close>

definition daemon_ctx :: "daemon \<Rightarrow> bool" where
  "daemon_ctx s = q_cancelled (dm_queues s)"

definition daemon_opts :: "(daemon \<Rightarrow> hook_outcome \<times> string) \<Rightarrow> int \<Rightarrow> daemon Options" where
  "daemon_opts status now = daemon_options True now status"

text \<open>What the rest of the daemon does meanwhile: a signal or a fatal adapter cancels the context, ingest and retry
  timers enqueue, turns run, and any of them writes to the store.\<close>

inductive daemon_env :: "daemon \<Rightarrow> daemon \<Rightarrow> bool" where
  cancel: "daemon_env s (s\<lparr>dm_queues := (dm_queues s)\<lparr>q_cancelled := True\<rparr>\<rparr>)"
| enqueue: "daemon_env s (s\<lparr>dm_queues := Enqueue ev (dm_queues s)\<rparr>)"
| turn: "drain_step (dm_queues s) q \<Longrightarrow> daemon_env s (s\<lparr>dm_queues := q\<rparr>)"
| store: "store_step (dm_db s) d \<Longrightarrow> daemon_env s (s\<lparr>dm_db := d\<rparr>)"

lemma id_hook_queues:
  "id_hook ready now name i s = (HookOk, s') \<Longrightarrow> dm_queues s' = dm_queues s \<or> (\<exists>ev. dm_queues s' = Enqueue ev (dm_queues s))"
  by (auto simp: id_hook_def OnRetry_def OnDeadRequeue_def OnDeadDiscard_def Readmit_def split: if_splits sum.splits)

lemma handle_queues:
  assumes "handle (daemon_opts status now) input (s, dr) = (r, (s', dr'))"
  shows "dm_queues s' = dm_queues s \<or> (\<exists>ev. dm_queues s' = Enqueue ev (dm_queues s))"
proof (cases "(s', dr') = (s, dr)")
  case False
  from handle_effect [OF assms [unfolded daemon_opts_def] False] id_hook_queues [of True now _ _ s s'] show ?thesis by auto
qed simp

lemma handle_wf:
  assumes "handle (daemon_opts status now) input (s, dr) = (r, (s', dr'))" and "wf_db (dm_db s)"
  shows "wf_db (dm_db s')"
proof (cases "(s', dr') = (s, dr)")
  case False
  have "id_hook True now name i s = (HookOk, s') \<Longrightarrow> wf_db (dm_db s')" for name i
    using hook_wf assms(2) by (auto simp: id_hook_def split: if_splits)
  with handle_effect [OF assms(1) [unfolded daemon_opts_def] False] assms(2) show ?thesis by auto
qed (use assms in simp)

interpretation dv: admin_service "daemon_opts status" daemon_ctx daemon_env
proof
  show "daemon_ctx s'" if "daemon_env s s'" "daemon_ctx s" for s s'
    using that by (induction rule: daemon_env.induct) (auto simp: daemon_ctx_def dest: drain_step_keeps)
  show "daemon_ctx s'" if "handle (daemon_opts status now) input (s, dr) = (r, (s', dr'))" "daemon_ctx s" for now input s dr r s' dr'
    using handle_queues [OF that(1)] that(2) by (auto simp: daemon_ctx_def)
qed

abbreviation daemon_serve_step :: "(daemon \<Rightarrow> hook_outcome \<times> string) \<Rightarrow> daemon serve \<Rightarrow> daemon serve \<Rightarrow> bool" where
  "daemon_serve_step status \<equiv> serve_step (daemon_opts status) daemon_ctx daemon_env"

abbreviation daemon_serve_own :: "(daemon \<Rightarrow> hook_outcome \<times> string) \<Rightarrow> daemon serve \<Rightarrow> daemon serve \<Rightarrow> bool" where
  "daemon_serve_own status \<equiv> serve_own (daemon_opts status) daemon_ctx"

lemma handler_done_wf: "wf_db (dm_db (srv_state v)) \<Longrightarrow> wf_db (dm_db (srv_state (handler_done (daemon_opts status) now i v)))"
  by (auto simp: handler_done_def Let_def split: prod.splits dest: handle_wf)

lemma serve_wf: "daemon_serve_step status v w \<Longrightarrow> wf_db (dm_db (srv_state v)) \<Longrightarrow> wf_db (dm_db (srv_state w))"
proof (induction rule: serve_step.induct)
  case (own v w)
  then show ?case by (induction rule: serve_own.induct) (auto simp: handler_done_wf)
next
  case (outside v s)
  from outside.hyps have "wf_db (dm_db (srv_state v)) \<longrightarrow> wf_db (dm_db s)"
    by (induction rule: daemon_env.induct) (auto dest: step_wf)
  with outside.prems show ?case by simp
qed auto

interpretation sw: step_invariant "daemon_serve_step status" "\<lambda>v. wf_db (dm_db (srv_state v))"
  by unfold_locales (rule serve_wf)

section \<open>The socket as the shutdown sees it\<close>

text \<open>\<open>Lifecycle\<close> knows the socket as a number of running handlers.\<close>

definition serve_sim :: "daemon serve \<Rightarrow> life \<Rightarrow> bool" where
  "serve_sim v l \<longleftrightarrow> lf_pc l = Serving \<and> lf_admin l = length (srv_handlers v) \<and> lf_queues l = dm_queues (srv_state v)"

lemma sim_queues:
  assumes "serve_sim v l" and "dm_queues s' = dm_queues (srv_state v) \<or> (\<exists>ev. dm_queues s' = Enqueue ev (dm_queues (srv_state v)))"
  shows "\<exists>m. life_step\<^sup>*\<^sup>* l m \<and> lf_pc m = Serving \<and> lf_admin m = lf_admin l \<and> lf_queues m = dm_queues s'"
proof (cases "dm_queues s' = dm_queues (srv_state v)")
  case True
  with assms(1) show ?thesis by (intro exI [of _ l]) (simp add: serve_sim_def)
next
  case False
  with assms(2) obtain ev where ev: "dm_queues s' = Enqueue ev (dm_queues (srv_state v))" by blast
  have "life_step l (l\<lparr>lf_queues := Enqueue ev (lf_queues l)\<rparr>)" by (rule life_step.enqueue)
  with ev assms(1) show ?thesis
    by (intro exI [of _ "l\<lparr>lf_queues := Enqueue ev (lf_queues l)\<rparr>"]) (simp add: serve_sim_def)
qed

lemma sim_handled:
  assumes "serve_sim v l" and "i < length (srv_handlers v)"
  shows "\<exists>m. life_step\<^sup>*\<^sup>* l m \<and> serve_sim (handler_done (daemon_opts status) now i v) m"
proof -
  let ?w = "handler_done (daemon_opts status) now i v"
  have "dm_queues (srv_state ?w) = dm_queues (srv_state v) \<or> (\<exists>ev. dm_queues (srv_state ?w) = Enqueue ev (dm_queues (srv_state v)))"
    by (auto simp: handler_done_def Let_def split: prod.splits dest: handle_queues)
  from sim_queues [OF assms(1) this] obtain m where m: "life_step\<^sup>*\<^sup>* l m" "lf_pc m = Serving" "lf_admin m = lf_admin l"
    "lf_queues m = dm_queues (srv_state ?w)" by blast
  have n: "lf_admin m = Suc (length (srv_handlers ?w))" using m(3) assms by (simp add: serve_sim_def)
  have "life_step m (m\<lparr>lf_admin := length (srv_handlers ?w)\<rparr>)" by (rule life_step.admin_out [OF n])
  with m(1) have "life_step\<^sup>*\<^sup>* l (m\<lparr>lf_admin := length (srv_handlers ?w)\<rparr>)" by simp
  with m(2,4) show ?thesis by (intro exI [of _ "m\<lparr>lf_admin := length (srv_handlers ?w)\<rparr>"]) (simp add: serve_sim_def)
qed

lemma sim_env:
  assumes "serve_sim v l" and "daemon_env (srv_state v) s"
  shows "\<exists>m. life_step\<^sup>*\<^sup>* l m \<and> serve_sim (v\<lparr>srv_state := s\<rparr>) m"
  using assms(2)
proof cases
  case cancel
  have "life_step l (life_cancel l)" by (rule life_step.signal)
  with assms(1) cancel show ?thesis by (intro exI [of _ "life_cancel l"]) (simp add: serve_sim_def life_cancel_def)
next
  case (enqueue ev)
  from sim_queues [OF assms(1), of s] enqueue obtain m where "life_step\<^sup>*\<^sup>* l m" "lf_pc m = Serving" "lf_admin m = lf_admin l"
    "lf_queues m = dm_queues s" by auto
  with assms(1) show ?thesis by (intro exI [of _ m]) (simp add: serve_sim_def)
next
  case (turn q)
  have "life_step l (l\<lparr>lf_queues := q\<rparr>)" using turn(2) assms(1) by (intro life_step.turn) (simp add: serve_sim_def)
  with assms(1) turn show ?thesis by (intro exI [of _ "l\<lparr>lf_queues := q\<rparr>"]) (simp add: serve_sim_def)
next
  case (store d)
  with assms(1) show ?thesis by (intro exI [of _ l]) (simp add: serve_sim_def)
qed

lemma sim_step:
  assumes "daemon_serve_step status v w" and "serve_sim v l"
  shows "\<exists>m. life_step\<^sup>*\<^sup>* l m \<and> serve_sim w m"
  using assms
proof (induction rule: serve_step.induct)
  case (own v w)
  then show ?case
  proof (induction rule: serve_own.induct)
    case (handled i v now)
    then show ?case using sim_handled by blast
  qed (intro exI [of _ l], simp add: serve_sim_def)+
next
  case (accept v input)
  have "life_step l (l\<lparr>lf_admin := Suc (lf_admin l)\<rparr>)" using accept.prems by (intro life_step.admin_in) (simp add: serve_sim_def)
  with accept.prems show ?case by (intro exI [of _ "l\<lparr>lf_admin := Suc (lf_admin l)\<rparr>"]) (simp add: serve_sim_def)
next
  case (accept_error v)
  then show ?case by (intro exI [of _ l]) (simp add: serve_sim_def)
next
  case (outside v s)
  then show ?case using sim_env by blast
qed

lemma sim_steps:
  assumes "(daemon_serve_step status)\<^sup>*\<^sup>* v w" and "serve_sim v l"
  shows "\<exists>m. life_step\<^sup>*\<^sup>* l m \<and> serve_sim w m"
  using assms
proof (induction rule: rtranclp_induct)
  case (step w x)
  then obtain m where "life_step\<^sup>*\<^sup>* l m" "serve_sim w m" by blast
  with sim_step [OF step.hyps(2)] show ?case by (meson rtranclp_trans)
qed blast

section \<open>Properties\<close>

text \<open>
  C36: serving ends when asked, and only then, with every accepted request answered.  Whatever connects, fails or
  changes around it: \<open>Serve\<close> has returned only when no handler runs and each accepted connection had its one
  answer or cut-off; it returns without error only after a drain request or a cancelled context; the store's
  invariant holds throughout.  Once asked to stop, every run of its own moves is bounded, and one that can go no
  further has returned, without error unless an accept had failed before.
\<close>

theorem serve_ends_when_asked:
  assumes "(daemon_serve_step status)\<^sup>*\<^sup>* (serve_start s) v"
  shows "(\<forall>e. srv_pc v = Served e \<longrightarrow> srv_handlers v = [] \<and> mset (map fst (srv_answers v)) = mset (srv_accepted v) \<and>
      (\<not> e \<longrightarrow> daemon_ctx (srv_state v) \<or> srv_drain v)) \<and>
    (wf_db (dm_db s) \<longrightarrow> wf_db (dm_db (srv_state v))) \<and>
    (\<forall>n w. (daemon_serve_own status ^^ n) v w \<longrightarrow> n \<le> moves_left v) \<and>
    (daemon_ctx (srv_state v) \<or> srv_drain v \<longrightarrow>
      (\<forall>w. (daemon_serve_own status)\<^sup>*\<^sup>* v w \<and> (\<nexists>x. daemon_serve_own status w x) \<longrightarrow>
        (\<exists>e. srv_pc w = Served e \<and> srv_handlers w = [] \<and> (accepting_cleanly v \<longrightarrow> \<not> e))))"
proof -
  have ok: "serve_ok daemon_ctx v" by (rule dv.steps_ok [OF assms serve_start_ok])
  have "srv_handlers v = [] \<and> mset (map fst (srv_answers v)) = mset (srv_accepted v) \<and> (\<not> e \<longrightarrow> daemon_ctx (srv_state v) \<or> srv_drain v)"
    if "srv_pc v = Served e" for e
    using ok that by (auto simp: serve_ok_def)
  moreover have "wf_db (dm_db (srv_state v))" if "wf_db (dm_db s)"
    using sw.steps_inv [OF assms] that by (simp add: serve_start_def)
  moreover have "n \<le> moves_left v" if "(daemon_serve_own status ^^ n) v w" for n w
    using own_bounded [OF that] by linarith
  ultimately show ?thesis using dv.stuck_served [OF _ ok] by blast
qed

text \<open>A run with one connection that asks to drain.\<close>

definition ex_drain_line :: string where "ex_drain_line = ''drain'' @ [request_nl]"

lemma ex_drain: "handle (daemon_opts st now) ex_drain_line (s, dr) = (Some ROkDraining, (s, True))"
proof -
  have "verb_arg ''retry'' ''drain'' = None" "verb_arg ''dead-requeue'' ''drain'' = None" "verb_arg ''dead-discard'' ''drain'' = None"
    by (simp_all add: verb_arg_def CutPrefix_def has_prefix_def)
  moreover have "read_line ex_drain_line = Some ''drain''" by (simp add: ex_drain_line_def read_line_def maxRequestLine_def request_nl_def)
  ultimately show ?thesis by (simp add: handle_def handle_verb_def)
qed

definition ex_drained :: "daemon serve" where
  "ex_drained = (serve_start ex_daemon)\<lparr>srv_drain := True, srv_accepted := [ex_drain_line], srv_answers := [(ex_drain_line, Some ROkDraining)]\<rparr>"

lemma ex_drained_run: "(daemon_serve_step status)\<^sup>*\<^sup>* (serve_start ex_daemon) ex_drained"
proof -
  let ?v = "(serve_start ex_daemon)\<lparr>srv_handlers := srv_handlers (serve_start ex_daemon) @ [ex_drain_line],
    srv_accepted := srv_accepted (serve_start ex_daemon) @ [ex_drain_line]\<rparr>"
  have "daemon_serve_step status (serve_start ex_daemon) ?v" by (rule serve_step.accept) (simp_all add: serve_start_def)
  moreover have "handler_done (daemon_opts status) 0 0 ?v = ex_drained"
    by (simp add: handler_done_def serve_start_def ex_drain ex_drained_def)
  then have "daemon_serve_step status ?v ex_drained"
    using serve_own.handled [of 0 ?v "daemon_opts status" daemon_ctx 0] by (auto intro: serve_step.own simp: serve_start_def)
  ultimately show ?thesis by (meson converse_rtranclp_into_rtranclp rtranclp.rtrancl_refl)
qed

theorem serve_ends_when_asked_witness:
  "\<exists>w. (daemon_serve_own (\<lambda>_. (HookOk, [])))\<^sup>*\<^sup>* ex_drained w \<and> srv_pc w = Served False"
proof -
  let ?st = "\<lambda>_. (HookOk, [])"
  have ok: "serve_ok daemon_ctx ex_drained" using dv.steps_ok [OF ex_drained_run serve_start_ok] .
  have a: "daemon_ctx (srv_state ex_drained) \<or> srv_drain ex_drained" by (simp add: ex_drained_def)
  from dv.own_runs_out [OF ok a, of ?st] obtain w where w: "(daemon_serve_own ?st)\<^sup>*\<^sup>* ex_drained w" "moves_left w = 0" by blast
  have "\<nexists>x. daemon_serve_own ?st w x" using own_decreases [of "daemon_opts ?st" daemon_ctx w] w(2) by fastforce
  moreover have "accepting_cleanly ex_drained" by (simp add: accepting_cleanly_def ex_drained_def serve_start_def)
  ultimately obtain e where "srv_pc w = Served e" "\<not> e"
    using serve_ends_when_asked [OF ex_drained_run, of ?st, THEN conjunct2, THEN conjunct2, THEN conjunct2] w(1) a by blast
  with w(1) show ?thesis by auto
qed

text \<open>
  C10: the socket behaves as the shutdown expects of it.  Every run of the serving loop with the daemon around it
  is matched by a run of the life of the daemon that has the same queues and as many admin handlers as the loop
  has; when \<open>Serve\<close> has returned that life can go on to stop the adapter, and has no handler left.
\<close>

theorem serve_refines_lifecycle:
  assumes "(daemon_serve_step status)\<^sup>*\<^sup>* (serve_start s) v" and "lf_pc l = Serving" and "lf_admin l = 0" and "lf_queues l = dm_queues s"
  shows "\<exists>m. life_step\<^sup>*\<^sup>* l m \<and> lf_pc m = Serving \<and> lf_admin m = length (srv_handlers v) \<and> lf_queues m = dm_queues (srv_state v) \<and>
    (\<forall>e. srv_pc v = Served e \<longrightarrow> life_step m ((life_cancel m)\<lparr>lf_pc := AwaitAdapter\<rparr>) \<and> lf_admin m = 0)"
proof -
  have "serve_sim (serve_start s) l" using assms(2-4) by (simp add: serve_sim_def serve_start_def)
  from sim_steps [OF assms(1) this] obtain m where m: "life_step\<^sup>*\<^sup>* l m" "serve_sim v m" by blast
  have ok: "serve_ok daemon_ctx v" by (rule dv.steps_ok [OF assms(1) serve_start_ok])
  have "life_step m ((life_cancel m)\<lparr>lf_pc := AwaitAdapter\<rparr>) \<and> lf_admin m = 0" if "srv_pc v = Served e" for e
    using that ok m(2) life_step.served [of m] by (auto simp: serve_ok_def serve_sim_def)
  with m show ?thesis by (auto simp: serve_sim_def)
qed

theorem serve_refines_lifecycle_witness:
  "\<exists>m. life_step\<^sup>*\<^sup>* ((life_start New)\<lparr>lf_pc := Serving\<rparr>) m \<and> lf_admin m = 0 \<and> lf_queues m = New"
proof -
  have q: "dm_queues ex_daemon = New" by (simp add: ex_daemon_def)
  from serve_refines_lifecycle [OF ex_drained_run, of "(life_start New)\<lparr>lf_pc := Serving\<rparr>"]
  show ?thesis by (auto simp: life_start_def q ex_drained_def serve_start_def)
qed

end
