(* ===== verification/Ownership.thy ===== *)
theory Ownership
  imports Lifecycle Daemon
begin

text \<open>
  One daemon per state directory: the ownership part of \<open>src/internal/admin/admin.go\<close> (\<open>Server\<close>, \<open>New\<close>, \<open>Close\<close>,
  \<open>claim\<close>) under any number of processes, in the order in which \<open>runDaemon\<close> of \<open>src/internal/cli/daemon.go\<close>
  takes and, by its deferred calls, gives back what it owns: the lock, the store, the socket.  A process may die
  at any point; the kernel then drops its lock.  The last section is \<open>runDaemon\<close> as a whole, seen as an exit code.
\<close>

section \<open>The server's lock\<close>

record Server =
  sr_path :: string
  sr_lock :: bool

text \<open>The result is whether \<open>Close\<close> returned without error, whether the lock file was closed, and the server.\<close>

definition server_Close :: "bool \<Rightarrow> Server \<Rightarrow> bool \<times> bool \<times> Server" where
  "server_Close close_fails s =
     (if \<not> sr_lock s then (True, False, s) else (\<not> close_fails, True, s\<lparr>sr_lock := False\<rparr>))"

lemma server_Close_again:
  "server_Close f s = (ok, shut, s') \<Longrightarrow> \<not> sr_lock s' \<and> server_Close g s' = (True, False, s') \<and> (shut \<longleftrightarrow> sr_lock s)"
  by (auto simp: server_Close_def split: if_splits)

section \<open>Processes\<close>

datatype owner_phase = Fresh | Locked | InStore | Listening | Unlocking | Gone

text \<open>\<open>st_lock\<close> is the process whose open lock file the kernel has locked.\<close>

record site =
  st_host :: host
  st_lock :: "nat option"
  st_proc :: "nat \<Rightarrow> owner_phase"
  st_server :: "nat \<Rightarrow> Server"

definition socket_path :: "string \<Rightarrow> string" where
  "socket_path state = Join state ''approach.sock''"

definition holds :: "owner_phase \<Rightarrow> bool" where
  "holds p \<longleftrightarrow> p \<in> {Locked, InStore, Listening, Unlocking}"

definition has_store :: "owner_phase \<Rightarrow> bool" where
  "has_store p \<longleftrightarrow> p \<in> {InStore, Listening}"

definition set_phase :: "nat \<Rightarrow> owner_phase \<Rightarrow> site \<Rightarrow> site" where
  "set_phase p ph s = s\<lparr>st_proc := (st_proc s)(p := ph)\<rparr>"

definition set_fs :: "file_tree \<Rightarrow> site \<Rightarrow> site" where
  "set_fs fs s = s\<lparr>st_host := (st_host s)\<lparr>ho_fs := fs\<rparr>\<rparr>"

definition drop_lock :: "nat \<Rightarrow> site \<Rightarrow> site" where
  "drop_lock p s = s\<lparr>st_lock := (if st_lock s = Some p then None else st_lock s)\<rparr>"

inductive own_step :: "string \<Rightarrow> site \<Rightarrow> site \<Rightarrow> bool" for state where
  acquire: "st_proc s p = Fresh \<Longrightarrow> admin_New um osf af (st_lock s \<noteq> None) (socket_path state) (ho_fs (st_host s)) = (None, fs) \<Longrightarrow>
    own_step state s ((set_phase p Locked (set_fs fs s))\<lparr>st_lock := Some p, st_server := (st_server s)(p := \<lparr>sr_path = socket_path state, sr_lock = True\<rparr>)\<rparr>)"
| refuse: "st_proc s p = Fresh \<Longrightarrow> admin_New um osf af (st_lock s \<noteq> None) (socket_path state) (ho_fs (st_host s)) = (Some e, fs) \<Longrightarrow>
    own_step state s (set_phase p Gone (set_fs fs s))"
| give_up: "st_proc s p = Locked \<Longrightarrow> own_step state s (set_phase p Unlocking s)"
| open_store: "st_proc s p = Locked \<Longrightarrow>
    Open oe (Join state ''approach.db'') (ho_fs (st_host s), ho_file (st_host s)) = (e, fs, content) \<Longrightarrow>
    own_step state s (set_phase p (if e = None then InStore else Unlocking) (s\<lparr>st_host := \<lparr>ho_fs = fs, ho_file = content\<rparr>\<rparr>))"
| work: "has_store (st_proc s p) \<Longrightarrow> own_step state s (s\<lparr>st_host := (st_host s)\<lparr>ho_file := content\<rparr>\<rparr>)"
| bind: "st_proc s p = InStore \<Longrightarrow> Serve_bind um af (sr_path (st_server s p)) (ho_fs (st_host s)) = (e, fs) \<Longrightarrow>
    own_step state s (set_phase p (if e = None then Listening else InStore) (set_fs fs s))"
| unlisten: "st_proc s p = Listening \<Longrightarrow>
    own_step state s (set_phase p InStore (set_fs ((ho_fs (st_host s))(sr_path (st_server s p) := None)) s))"
| leave: "st_proc s p = Listening \<Longrightarrow> own_step state s (set_phase p InStore s)"
| close_store: "st_proc s p = InStore \<Longrightarrow> own_step state s (set_phase p Unlocking s)"
| unlock: "st_proc s p = Unlocking \<Longrightarrow> server_Close f (st_server s p) = (ok, shut, sv) \<Longrightarrow>
    own_step state s ((set_phase p Gone (if shut then drop_lock p s else s))\<lparr>st_server := (st_server s)(p := sv)\<rparr>)"
| crash: "own_step state s (set_phase p Gone (drop_lock p s))"

definition site_start :: "host \<Rightarrow> site" where
  "site_start h = \<lparr>st_host = h, st_lock = None, st_proc = (\<lambda>_. Fresh), st_server = (\<lambda>_. \<lparr>sr_path = [], sr_lock = False\<rparr>)\<rparr>"

section \<open>The invariant\<close>

definition owner_socket :: "string \<Rightarrow> file_tree \<Rightarrow> bool" where
  "owner_socket path fs \<longleftrightarrow> fs path = Some \<lparr>in_kind = Socket, in_perm = mode_file\<rparr>"

definition own_ok :: "string \<Rightarrow> site \<Rightarrow> bool" where
  "own_ok state s \<longleftrightarrow> (\<forall>p. (holds (st_proc s p) \<longleftrightarrow> st_lock s = Some p) \<and>
     (holds (st_proc s p) \<longrightarrow> st_server s p = \<lparr>sr_path = socket_path state, sr_lock = True\<rparr>) \<and>
     (st_proc s p = Listening \<longrightarrow> owner_socket (socket_path state) (ho_fs (st_host s))))"

lemma holds_simps [simp]: "holds Locked" "holds InStore" "holds Listening" "holds Unlocking" "\<not> holds Fresh" "\<not> holds Gone"
  by (simp_all add: holds_def)

lemmas site_defs = set_phase_def set_fs_def drop_lock_def

lemma owner_socket_keeps: "keeps_tree fs fs' \<Longrightarrow> owner_socket path fs \<Longrightarrow> owner_socket path fs'"
  unfolding owner_socket_def keeps_tree_def map_le_def by (metis domI)

lemma Serve_bind_socket: "Serve_bind um af path fs = (None, fs') \<Longrightarrow> owner_socket path fs'"
  by (auto simp: Serve_bind_def owner_socket_def split: prod.splits option.splits if_splits)

lemma only_holder: "own_ok state s \<Longrightarrow> holds (st_proc s p) \<Longrightarrow> holds (st_proc s q) \<Longrightarrow> p = q"
  unfolding own_ok_def by (metis option.inject)

lemma lone_holder:
  assumes "own_ok state s" and "holds (st_proc s p)" and "holds ph" and "ph = Listening \<longrightarrow> owner_socket (socket_path state) (ho_fs h)"
  shows "own_ok state (set_phase p ph (s\<lparr>st_host := h\<rparr>))"
  using assms only_holder [OF assms(1,2)] unfolding own_ok_def set_phase_def by (auto split: if_splits)

lemma next_phase:
  assumes "own_ok state s" and "holds (st_proc s p)" and "holds ph" and "ph \<noteq> Listening"
  shows "own_ok state (set_phase p ph s)"
proof -
  have "s\<lparr>st_host := st_host s\<rparr> = s" by simp
  with lone_holder [OF assms(1-3), of "st_host s"] assms(4) show ?thesis by simp
qed

lemma own_step_ok: "own_step state s t \<Longrightarrow> own_ok state s \<Longrightarrow> own_ok state t"
proof (induction rule: own_step.induct)
  case (acquire s p um osf af fs)
  have "st_lock s = None" using acquire.hyps(2) admin_New_held [of "st_lock s \<noteq> None" um osf af] by (metis fst_conv)
  then have "\<not> holds (st_proc s q)" for q using acquire.prems by (simp add: own_ok_def)
  then show ?case by (auto simp: own_ok_def site_defs holds_def)
next
  case (refuse s p um osf af e fs)
  note k = owner_socket_keeps [OF admin_New_keeps [OF refuse.hyps(2)]]
  show ?case using refuse.prems refuse.hyps(1) k by (auto simp: own_ok_def site_defs)
next
  case (open_store s p oe e fs content)
  from lone_holder [OF open_store.prems, of p "if e = None then InStore else Unlocking" "\<lparr>ho_fs = fs, ho_file = content\<rparr>"] open_store.hyps(1)
  show ?case by simp
next
  case (work s p content)
  then show ?case by (auto simp: own_ok_def)
next
  case (bind s p um af e fs)
  have "st_server s p = \<lparr>sr_path = socket_path state, sr_lock = True\<rparr>" using bind.prems bind.hyps(1) by (simp add: own_ok_def)
  with bind.hyps(2) have "e = None \<longrightarrow> owner_socket (socket_path state) fs" using Serve_bind_socket by auto
  with lone_holder [OF bind.prems, of p "if e = None then Listening else InStore" "(st_host s)\<lparr>ho_fs := fs\<rparr>"] bind.hyps(1)
  show ?case by (cases e) (simp_all add: set_fs_def)
next
  case (unlisten s p)
  from lone_holder [OF unlisten.prems, of p InStore "(st_host s)\<lparr>ho_fs := (ho_fs (st_host s))(sr_path (st_server s p) := None)\<rparr>"] unlisten.hyps
  show ?case by (simp add: set_fs_def)
next
  case (unlock s p f ok shut sv)
  have "shut" using unlock.hyps server_Close_again [OF unlock.hyps(2)] unlock.prems by (auto simp: own_ok_def)
  moreover have "st_lock s = Some p" using unlock.hyps(1) unlock.prems unfolding own_ok_def by (metis holds_simps(4))
  ultimately show ?case using unlock.prems by (auto simp: own_ok_def site_defs)
next
  case (crash s p)
  then show ?case by (auto simp: own_ok_def site_defs)
next
  case (give_up s p)
  then show ?case by (intro next_phase) simp_all
next
  case (leave s p)
  then show ?case by (intro next_phase) simp_all
next
  case (close_store s p)
  then show ?case by (intro next_phase) simp_all
qed

interpretation om: step_invariant "own_step state" "own_ok state"
  by unfold_locales (rule own_step_ok)

lemma site_start_ok: "own_ok state (site_start h)"
  by (simp add: own_ok_def site_start_def)

lemma holder_lock: "own_ok state s \<Longrightarrow> holds (st_proc s p) \<Longrightarrow> st_lock s = Some p"
  by (simp add: own_ok_def)

lemma has_store_holds: "has_store ph \<Longrightarrow> holds ph"
  by (auto simp: has_store_def)

lemma content_change:
  assumes "own_step state s t" and "ho_file (st_host t) \<noteq> ho_file (st_host s)"
  shows "\<exists>p. holds (st_proc s p)"
  using assms
proof (induction rule: own_step.induct)
  case (open_store s p oe e fs content)
  then have "holds (st_proc s p)" by simp
  then show ?case ..
next
  case (work s p content)
  then show ?case using has_store_holds by blast
qed (auto simp: site_defs split: if_splits)

section \<open>The daemon command\<close>

text \<open>How a booted daemon ends: a panic in the main loop, or what its adapter and its socket reported.  Parsing the flags
  is the parameter: the state directory, the configuration path and the arguments left over.\<close>

datatype daemon_end = Panicked | Drained bool bool

definition runDaemon ::
  "(string list \<Rightarrow> (string \<times> string \<times> string list) option) \<Rightarrow> boot_env \<Rightarrow> (booted \<Rightarrow> host \<Rightarrow> daemon_end) \<Rightarrow> string list \<Rightarrow> host \<Rightarrow> int" where
  "runDaemon flags env serve args h =
     (case flags args of
        None \<Rightarrow> 2
      | Some (state, configPath, leftovers) \<Rightarrow>
          if rejectLeftovers leftovers then 2
          else (case runDaemon_boot env state configPath h of
              (Inl c, _) \<Rightarrow> c
            | (Inr b, h') \<Rightarrow>
                (case serve b h' of
                   Panicked \<Rightarrow> 1
                 | Drained adapter_failed serve_failed \<Rightarrow> served_exit adapter_failed serve_failed)))"

lemma boot_refusal_code:
  assumes "runDaemon_boot env state path h = (Inl c, h')"
  shows "c = 1 \<or> c = exitUnrecoverable \<and> unrecoverable env state path h"
  using assms
proof (cases rule: boot_cases)
  case (early c)
  then show ?thesis by (auto simp: unrecoverable_def)
next
  case (open_store cfg fs1 e fs2 content)
  have cfg: "loadDaemonConfig (bt_read env) (bt_decode env) path state = Inr cfg" using open_store(1) by (simp add: boot_checks_def)
  show ?thesis
  proof (cases e)
    case None
    with open_store(5) have "boot_store env state cfg (snd content) = (Inl c, snd (ho_file h'))" by simp
    then show ?thesis using boot_store_codes [of env state cfg "snd content" c] cfg by (auto simp: unrecoverable_def)
  next
    case (Some x)
    then show ?thesis using open_store(5) Open_stages(3) [OF open_store(3)] cfg by (auto simp: unrecoverable_def split: if_splits)
  qed
qed

text \<open>The supervisor restarts on every failure but the code 3: that one is given only for what a restart cannot fix.\<close>

lemma runDaemon_code:
  assumes "flags args = Some (state, configPath, [])"
  shows "runDaemon flags env serve args h = 3 \<longrightarrow> unrecoverable env state configPath h \<or>
      (\<exists>b h' x. runDaemon_boot env state configPath h = (Inr b, h') \<and> serve b h' = Drained True x)"
    and "runDaemon flags env serve args h = 0 \<longleftrightarrow>
      (\<exists>b h'. runDaemon_boot env state configPath h = (Inr b, h') \<and> serve b h' = Drained False False)"
proof -
  obtain r h' where b: "runDaemon_boot env state configPath h = (r, h')" by fastforce
  note c = boot_refusal_code [of env state configPath h _ h']
  show "runDaemon flags env serve args h = 3 \<longrightarrow> unrecoverable env state configPath h \<or>
      (\<exists>b h' x. runDaemon_boot env state configPath h = (Inr b, h') \<and> serve b h' = Drained True x)"
    using assms b c by (cases r) (auto simp: runDaemon_def rejectLeftovers_def served_exit_def split: daemon_end.splits if_splits)
  show "runDaemon flags env serve args h = 0 \<longleftrightarrow>
      (\<exists>b h'. runDaemon_boot env state configPath h = (Inr b, h') \<and> serve b h' = Drained False False)"
    using assms b c by (cases r) (auto simp: runDaemon_def rejectLeftovers_def served_exit_def exitUnrecoverable_def split: daemon_end.splits if_splits)
qed

text \<open>The process: its exit status is what \<open>cli.Run\<close> makes of the arguments after the program's name.\<close>

definition approach_main ::
  "(string \<Rightarrow> file_read) \<Rightarrow> toml_decoder \<Rightarrow> (string list \<Rightarrow> string list option) \<Rightarrow> connection \<Rightarrow>
   (string list \<Rightarrow> (string \<times> string \<times> string list) option) \<Rightarrow> boot_env \<Rightarrow> (booted \<Rightarrow> host \<Rightarrow> daemon_end) \<Rightarrow> host \<Rightarrow> string list \<Rightarrow> int" where
  "approach_main read decode flags cn dflags env serve h argv =
     Run read decode flags cn (\<lambda>args. runDaemon dflags env serve args h) (drop 1 argv)"

lemma runDaemon_codes: "runDaemon flags env serve args h \<in> {0, 1, 2, 3}"
proof -
  have "c \<in> {1, 3}" if "runDaemon_boot env state path h = (Inl c, h')" for state path c h'
    using boot_refusal_code [OF that] by (auto simp: exitUnrecoverable_def)
  then show ?thesis
    by (auto simp: runDaemon_def served_exit_def split: option.splits prod.splits sum.splits daemon_end.splits)
qed

lemma main_codes: "approach_main read decode flags cn dflags env serve h argv \<in> {0, 1, 2, 3}"
proof -
  have v: "runAdminVerb flags cn request args \<in> {0, 1, 2, 3}" for request args
    by (simp add: runAdminVerb_def split: option.split sum.split)
  have "runRetry flags cn args \<in> {0, 1, 2, 3}" "runDead flags cn args \<in> {0, 1, 2, 3}" for args
    using v by (auto simp: runRetry_def runDead_def split: list.splits option.splits)
  moreover have "runConfig read decode args \<in> {0, 1, 2, 3}" for args by (simp add: runConfig_def split: sum.split)
  ultimately show ?thesis using v runDaemon_codes by (simp add: approach_main_def Run_def split: command.split)
qed

section \<open>Properties\<close>

text \<open>
  C9: one daemon per state directory.  Whatever the number of processes started on it, their interleaving and
  their crashes: a process has the store open only while it holds the lock, so at most one has; as long as one
  has, every further start is refused; the content of the database changes only while someone holds the lock; and
  the socket a daemon listens on is still its own owner-only socket, never unlinked by another start.
\<close>

theorem one_daemon_per_state:
  assumes "(own_step state)\<^sup>*\<^sup>* (site_start h) s"
  shows "(\<forall>p. has_store (st_proc s p) \<longrightarrow> st_lock s = Some p) \<and>
    (\<forall>p q. has_store (st_proc s p) \<and> has_store (st_proc s q) \<longrightarrow> p = q) \<and>
    (\<forall>p um osf af. has_store (st_proc s p) \<longrightarrow>
       fst (admin_New um osf af (st_lock s \<noteq> None) (socket_path state) (ho_fs (st_host s))) \<noteq> None) \<and>
    (\<forall>t. own_step state s t \<and> ho_file (st_host t) \<noteq> ho_file (st_host s) \<longrightarrow> (\<exists>p. st_lock s = Some p \<and> holds (st_proc s p))) \<and>
    (\<forall>p. st_proc s p = Listening \<longrightarrow> owner_socket (socket_path state) (ho_fs (st_host s)))"
proof -
  have ok: "own_ok state s" by (rule om.steps_inv [OF assms site_start_ok])
  have l: "st_lock s = Some p" if "has_store (st_proc s p)" for p using holder_lock [OF ok has_store_holds [OF that]] .
  moreover have "fst (admin_New um osf af (st_lock s \<noteq> None) (socket_path state) (ho_fs (st_host s))) \<noteq> None"
    if "has_store (st_proc s p)" for p um osf af
    by (rule admin_New_held) (simp add: l [OF that])
  moreover have "\<exists>p. st_lock s = Some p \<and> holds (st_proc s p)" if "own_step state s t" "ho_file (st_host t) \<noteq> ho_file (st_host s)" for t
    using content_change [OF that] holder_lock [OF ok] by blast
  moreover have "owner_socket (socket_path state) (ho_fs (st_host s))" if "st_proc s p = Listening" for p
    using ok that by (simp add: own_ok_def)
  moreover have "p = q" if "has_store (st_proc s p)" "has_store (st_proc s q)" for p q using l [OF that(1)] l [OF that(2)] by simp
  ultimately show ?thesis by blast
qed

theorem one_daemon_per_state_witness:
  "\<exists>s. (own_step ''/a/state'')\<^sup>*\<^sup>* (site_start ex_host) s \<and> st_lock s = Some 1 \<and>
     (\<forall>p q. has_store (st_proc s p) \<and> has_store (st_proc s q) \<longrightarrow> p = q)"
proof -
  let ?new = "\<lambda>h. admin_New 18 (\<lambda>_. False) (\<lambda>_. False) h (socket_path ''/a/state'') (ho_fs ex_host)"
  have "fst (?new False) = None" by code_simp
  then obtain fs where n: "?new False = (None, fs)" by (metis prod.collapse)
  let ?s = "(set_phase 1 Locked (set_fs fs (site_start ex_host)))\<lparr>st_lock := Some 1,
    st_server := (st_server (site_start ex_host))(1 := \<lparr>sr_path = socket_path ''/a/state'', sr_lock = True\<rparr>)\<rparr>"
  have "own_step ''/a/state'' (site_start ex_host) ?s"
    by (rule own_step.acquire [where um = 18 and osf = "\<lambda>_. False" and af = "\<lambda>_. False"]) (use n in \<open>simp_all add: site_start_def\<close>)
  then have r: "(own_step ''/a/state'')\<^sup>*\<^sup>* (site_start ex_host) ?s" by blast
  moreover have "st_lock ?s = Some 1" by simp
  ultimately show ?thesis using one_daemon_per_state [OF r] by blast
qed

end
