(* ===== verification/Pump.thy ===== *)
theory Pump
  imports Store_Machine
begin

text \<open>
  The outbox pump over the life of the daemon: \<open>Pump\<close> of \<open>src/internal/delivery/resend.go\<close> and \<open>kickPump\<close> of
  \<open>src/internal/cli/daemon.go\<close>.  The loop waits for a kick, a tick or the end of the context and then makes one pass.
  The kick channel holds one token and a full channel swallows a kick.  Around the pump anyone writes to the store.
  A pass takes effect as it begins, so that what is written while it runs counts as not seen by it.  Two ghost
  counters tell how many kicks were given, and how many had been given when the last pass began.
\<close>

section \<open>The loop\<close>

datatype pump_pc = AtStart | InPass | AtSelect | Stopped

record pump =
  pu_db :: db
  pu_kick :: bool
  pu_cancelled :: bool
  pu_pc :: pump_pc
  pu_asked :: nat
  pu_seen :: nat

definition pump_start :: "db \<Rightarrow> pump" where
  "pump_start d = \<lparr>pu_db = d, pu_kick = False, pu_cancelled = False, pu_pc = AtStart, pu_asked = 0, pu_seen = 0\<rparr>"

definition kickPump :: "pump \<Rightarrow> pump" where
  "kickPump p = p\<lparr>pu_kick := True, pu_asked := Suc (pu_asked p)\<rparr>"

definition begin_pass :: "pass_env \<Rightarrow> pump \<Rightarrow> pump" where
  "begin_pass env p = p\<lparr>pu_db := fst (pump_pass env (pu_db p)), pu_pc := InPass, pu_seen := pu_asked p\<rparr>"

text \<open>The moves of the pump that need neither the ticker nor anyone else.\<close>

inductive pump_own :: "pump \<Rightarrow> pump \<Rightarrow> bool" where
  first: "pu_pc p = AtStart \<Longrightarrow> pump_own p (begin_pass env p)"
| pass_done: "pu_pc p = InPass \<Longrightarrow> pump_own p (p\<lparr>pu_pc := AtSelect\<rparr>)"
| kicked: "pu_pc p = AtSelect \<Longrightarrow> pu_kick p \<Longrightarrow> pump_own p (begin_pass env (p\<lparr>pu_kick := False\<rparr>))"

inductive pump_step :: "pump \<Rightarrow> pump \<Rightarrow> bool" where
  own: "pump_own p q \<Longrightarrow> pump_step p q"
| ticked: "pu_pc p = AtSelect \<Longrightarrow> pump_step p (begin_pass env p)"
| ended: "pu_pc p = AtSelect \<Longrightarrow> pu_cancelled p \<Longrightarrow> pump_step p (p\<lparr>pu_pc := Stopped\<rparr>)"
| cancel: "pump_step p (p\<lparr>pu_cancelled := True\<rparr>)"
| kick: "pump_step p (kickPump p)"
| stored: "store_step (pu_db p) d \<Longrightarrow> pump_step p (p\<lparr>pu_db := d\<rparr>)"

section \<open>A pass is a run of store operations\<close>

lemma surface_all_run:
  "(\<And>ev d d'. surf ev d = Inr d' \<Longrightarrow> store_step d d') \<Longrightarrow> store_run d (surface_all surf evs d)"
proof (induction evs arbitrary: d)
  case (Cons ev evs)
  show ?case
  proof (cases "surf ev d")
    case (Inr d')
    have "store_step d d'" using Cons.prems Inr by blast
    moreover have "store_run d' (surface_all surf evs d')" using Cons by blast
    ultimately show ?thesis using Inr by (simp add: converse_rtranclp_into_rtranclp)
  qed (use Cons in simp)
qed simp

lemma sweep_run: "store_run d (sweepUnsurfacedParks fails d)"
proof -
  let ?d1 = "surface_all (SurfaceInterruptedCoordinated fails) (UnsurfacedInterruptedEvents d) d"
  have "store_run d ?d1" by (rule surface_all_run) (rule store_step.surface_interrupted)
  moreover have "store_run ?d1 (surface_all (SurfaceDeadLetterCoordinated fails) (UnsurfacedDeadLetters ?d1) ?d1)"
    by (rule surface_all_run) (rule store_step.surface_dead)
  ultimately show ?thesis by (auto simp: sweepUnsurfacedParks_def Let_def)
qed

lemma resend_loop_run: "resend_loop env rows stopped d = (d', tr) \<Longrightarrow> store_run d d'"
proof (induction rows arbitrary: stopped d tr)
  case (Cons r rows)
  from Cons.prems show ?case
  proof (cases rule: resend_loop_cases)
    case (failed d1 tr1)
    have "store_step d d1" using failed(3) by (rule store_step.mark_attempt)
    with Cons.IH [OF failed(4)] show ?thesis by (meson converse_rtranclp_into_rtranclp)
  next
    case (sent d1 d2 tr1)
    have "store_step d d1" using sent(3) by (rule store_step.mark_attempt)
    moreover have "store_step d1 d2" using sent(4) by (rule store_step.ack_delivery)
    ultimately show ?thesis using Cons.IH [OF sent(5)] by (meson converse_rtranclp_into_rtranclp)
  qed (use Cons.IH in auto)
qed simp

lemma ResendUnacked_run: "store_run d (fst (ResendUnacked env d))"
proof (cases "ResendUnacked env d")
  case (Pair d' tr)
  then show ?thesis by (auto simp: ResendUnacked_def split: if_splits dest: resend_loop_run)
qed

lemma pump_pass_run: "store_run d (fst (pump_pass env d))"
  unfolding pump_pass_def using sweep_run ResendUnacked_run by (rule rtranclp_trans)

lemma pump_own_run: "pump_own p q \<Longrightarrow> store_run (pu_db p) (pu_db q)"
  by (induction rule: pump_own.induct) (use pump_pass_run in \<open>auto simp: begin_pass_def\<close>)

lemma pump_step_run: "pump_step p q \<Longrightarrow> store_run (pu_db p) (pu_db q)"
proof (induction rule: pump_step.induct)
  case (own p q)
  then show ?case by (rule pump_own_run)
qed (use pump_pass_run in \<open>auto simp: begin_pass_def kickPump_def\<close>)

lemma pump_steps_run: "pump_step\<^sup>*\<^sup>* p q \<Longrightarrow> store_run (pu_db p) (pu_db q)"
proof (induction rule: rtranclp_induct)
  case (step q r)
  with pump_step_run [OF step.hyps(2)] show ?case by (meson rtranclp_trans)
qed simp

section \<open>Notices\<close>

abbreviation outbox_keys :: "db \<Rightarrow> string set" where
  "outbox_keys d \<equiv> de_delivery_key ` set (deliveries d)"

lemma key_stays:
  assumes "store_run d d'" and "wf_db d" and "k \<in> outbox_keys d"
  shows "k \<in> outbox_keys d'"
proof -
  obtain r where r: "r \<in> set (deliveries d)" "k = de_delivery_key r" using assms(3) by blast
  from dh.run_row [OF assms(1,2) r(1)] obtain r' where "r' \<in> set (deliveries d')" "delivery_hist r r'" by blast
  with r(2) show ?thesis by (intro image_eqI [of _ _ r']) (simp_all add: delivery_hist_def)
qed

lemma pass_notices:
  assumes "wf_db d" and "\<And>c. \<not> pe_fails env c"
  shows "e \<in> set (events d) \<Longrightarrow> ev_status e = Interrupted \<Longrightarrow>
      interrupted_key (ev_dedup_key e) (ev_parks e) \<in> outbox_keys (fst (pump_pass env d))"
    and "owner_native_id d \<noteq> None \<Longrightarrow> (x, f) \<in> set (dead_join d) \<Longrightarrow> dl_resolution x = None \<Longrightarrow>
      dead_key (ev_dedup_key f) (dl_entries x) \<in> outbox_keys (fst (pump_pass env d))"
proof -
  let ?f = "pe_fails env"
  let ?d1 = "surface_all (SurfaceInterruptedCoordinated ?f) (UnsurfacedInterruptedEvents d) d"
  let ?d2 = "surface_all (SurfaceDeadLetterCoordinated ?f) (UnsurfacedDeadLetters ?d1) ?d1"
  have d2: "sweepUnsurfacedParks ?f d = ?d2" using assms(2) by (simp add: sweepUnsurfacedParks_def Let_def)
  have wf1: "wf_db ?d1" using assms(1) by (rule si.surface_all_wf)
  have wf2: "wf_db ?d2" using wf1 by (rule sd.surface_all_wf)
  have late: "k \<in> outbox_keys (fst (pump_pass env d))" if "k \<in> outbox_keys ?d2" for k
    using key_stays [OF ResendUnacked_run wf2 that, of env] by (simp add: pump_pass_def d2)
  note same = si.surface_all_same [of ?f "UnsurfacedInterruptedEvents d" d]
  show "interrupted_key (ev_dedup_key e) (ev_parks e) \<in> outbox_keys (fst (pump_pass env d))"
    if "e \<in> set (events d)" "ev_status e = Interrupted"
    using sweep_parks_written [OF assms(1) _ that, of ?f] assms(2) sd.surface_all_keys [of ?d1 ?f "UnsurfacedDeadLetters ?d1"]
    by (intro late) blast
  show "dead_key (ev_dedup_key f) (dl_entries x) \<in> outbox_keys (fst (pump_pass env d))"
    if "owner_native_id d \<noteq> None" "(x, f) \<in> set (dead_join d)" "dl_resolution x = None"
  proof (rule late)
    have "owner_native_id ?d1 \<noteq> None" "(x, f) \<in> set (dead_join ?d1)"
      using that same by (simp_all add: owner_native_id_def dead_join_def)
    from sweep_deaths_written [OF wf1 _ this that(3), of ?f] assms(2)
    show "dead_key (ev_dedup_key f) (dl_entries x) \<in> outbox_keys ?d2" by blast
  qed
qed

section \<open>No kick is lost\<close>

definition pump_ok :: "pump \<Rightarrow> bool" where
  "pump_ok p \<longleftrightarrow> pu_seen p \<le> pu_asked p \<and> (pu_seen p < pu_asked p \<longrightarrow> pu_kick p)"

lemma pump_step_ok: "pump_step p q \<Longrightarrow> pump_ok p \<Longrightarrow> pump_ok q"
proof (induction rule: pump_step.induct)
  case (own p q)
  then show ?case by (induction rule: pump_own.induct) (auto simp: pump_ok_def begin_pass_def)
qed (auto simp: pump_ok_def begin_pass_def kickPump_def)

interpretation pm: step_invariant pump_step pump_ok
  by unfold_locales (rule pump_step_ok)

lemma pump_start_ok: "pump_ok (pump_start d)"
  by (simp add: pump_ok_def pump_start_def)

lemma kick_served:
  assumes "pump_ok p" and "pu_pc p \<noteq> Stopped" and "pu_seen p < pu_asked p"
  shows "\<exists>q r. pump_own\<^sup>*\<^sup>* p q \<and> pump_own q (begin_pass env r) \<and> pu_db r = pu_db p \<and> pu_asked r = pu_asked p"
proof -
  have k: "pu_kick p" using assms(1,3) by (simp add: pump_ok_def)
  show ?thesis
  proof (cases "pu_pc p")
    case AtStart
    then have "pump_own p (begin_pass env p)" by (rule pump_own.first)
    then show ?thesis by blast
  next
    case InPass
    let ?q = "p\<lparr>pu_pc := AtSelect\<rparr>"
    have "pump_own p ?q" using InPass by (rule pump_own.pass_done)
    moreover have "pump_own ?q (begin_pass env (?q\<lparr>pu_kick := False\<rparr>))" using k by (intro pump_own.kicked) simp_all
    ultimately show ?thesis by (intro exI [of _ ?q] exI [of _ "?q\<lparr>pu_kick := False\<rparr>"]) auto
  next
    case AtSelect
    then have "pump_own p (begin_pass env (p\<lparr>pu_kick := False\<rparr>))" using k by (rule pump_own.kicked)
    then show ?thesis by (intro exI [of _ p] exI [of _ "p\<lparr>pu_kick := False\<rparr>"]) auto
  qed (use assms(2) in simp)
qed

section \<open>Properties\<close>



end
