(* ===== verification/Typing.thy ===== *)
theory Typing
  imports Discord Schema
begin

text \<open>
  The typing indicator of the relay: the keepalive goroutine that \<open>ensureTypingLocked\<close> starts and \<open>stopTypingLocked\<close>
  stops and waits for, in \<open>src/internal/adapter/discord/relay.go\<close>.  The relay of \<open>Discord\<close> knows it as the flag
  \<open>r_typing\<close>.  Here the goroutines are part of the state: each checks the context, makes a typing call, and waits
  for its stop channel, the context or the ticker.  A relay operation runs under the relay's lock; one that stops the
  keepalive keeps the lock until the goroutine has ended.
\<close>

section \<open>The goroutines\<close>

datatype typing_pc = Checking | Calling | Waiting | Ended

record keeper =
  kp_pc :: typing_pc
  kp_stop :: bool
  kp_channel :: string

text \<open>\<open>ta_handle\<close> is the goroutine whose channels the relay holds, \<open>ta_joining\<close> whether an operation waits for it,
  \<open>ta_calls\<close> the channels of the typing calls made so far.\<close>

record typists =
  ta_keepers :: "keeper list"
  ta_handle :: "nat option"
  ta_joining :: bool
  ta_dead :: bool
  ta_calls :: "string list"

definition no_typists :: typists where
  "no_typists = \<lparr>ta_keepers = [], ta_handle = None, ta_joining = False, ta_dead = False, ta_calls = []\<rparr>"

definition spawn_keeper :: "string \<Rightarrow> typists \<Rightarrow> typists" where
  "spawn_keeper ch k =
     k\<lparr>ta_keepers := ta_keepers k @ [\<lparr>kp_pc = Checking, kp_stop = False, kp_channel = ch\<rparr>], ta_handle := Some (length (ta_keepers k))\<rparr>"

text \<open>The two halves of \<open>stopTypingLocked\<close>: closing the stop channel, and returning once the goroutine has ended.\<close>

definition close_stop :: "typists \<Rightarrow> typists" where
  "close_stop k =
     (case ta_handle k of
        None \<Rightarrow> k
      | Some i \<Rightarrow> k\<lparr>ta_keepers := (ta_keepers k)[i := (ta_keepers k ! i)\<lparr>kp_stop := True\<rparr>], ta_joining := True\<rparr>)"

definition end_seen :: "typists \<Rightarrow> typists" where
  "end_seen k = k\<lparr>ta_handle := None, ta_joining := False\<rparr>"

definition move_keeper :: "nat \<Rightarrow> typing_pc \<Rightarrow> typists \<Rightarrow> typists" where
  "move_keeper i pc k = k\<lparr>ta_keepers := (ta_keepers k)[i := (ta_keepers k ! i)\<lparr>kp_pc := pc\<rparr>]\<rparr>"

definition at_pc :: "nat \<Rightarrow> typing_pc \<Rightarrow> typists \<Rightarrow> bool" where
  "at_pc i pc k \<longleftrightarrow> i < length (ta_keepers k) \<and> kp_pc (ta_keepers k ! i) = pc"

inductive keeper_step :: "typists \<Rightarrow> typists \<Rightarrow> bool" where
  found_dead: "at_pc i Checking k \<Longrightarrow> ta_dead k \<Longrightarrow> keeper_step k (move_keeper i Ended k)"
| call: "at_pc i Checking k \<Longrightarrow> \<not> ta_dead k \<Longrightarrow>
    keeper_step k ((move_keeper i Calling k)\<lparr>ta_calls := ta_calls k @ [kp_channel (ta_keepers k ! i)]\<rparr>)"
| call_back: "at_pc i Calling k \<Longrightarrow> keeper_step k (move_keeper i Waiting k)"
| told: "at_pc i Waiting k \<Longrightarrow> kp_stop (ta_keepers k ! i) \<or> ta_dead k \<Longrightarrow> keeper_step k (move_keeper i Ended k)"
| tick: "at_pc i Waiting k \<Longrightarrow> keeper_step k (move_keeper i Checking k)"

section \<open>The relay and its goroutine\<close>

text \<open>The operations of a relay, each under its lock.\<close>

inductive relay_op :: "Relay \<Rightarrow> adapter \<Rightarrow> Relay \<Rightarrow> adapter \<Rightarrow> bool" where
  push: "Push pf delta (r, a) = (r', a') \<Longrightarrow> relay_op r a r' a'"
| cancel: "Cancel (r, a) = (r', a') \<Longrightarrow> relay_op r a r' a'"
| retract: "Retract (r, a) = (r', a') \<Longrightarrow> relay_op r a r' a'"
| deliver: "FinishJournaled pf cb r a (s :: db) = (out, r', a', s') \<Longrightarrow> relay_op r a r' a'"

definition follow_flag :: "Relay \<Rightarrow> Relay \<Rightarrow> typists \<Rightarrow> typists" where
  "follow_flag r r' k =
     (if r_typing r = r_typing r' then k else if r_typing r' then spawn_keeper (r_channelID r') k else close_stop k)"

record typing_relay =
  tr_relay :: Relay
  tr_adapter :: adapter
  tr_typists :: typists

inductive typing_step :: "typing_relay \<Rightarrow> typing_relay \<Rightarrow> bool" where
  op: "\<not> ta_joining (tr_typists x) \<Longrightarrow> relay_op (tr_relay x) (tr_adapter x) r a \<Longrightarrow>
    typing_step x \<lparr>tr_relay = r, tr_adapter = a, tr_typists = follow_flag (tr_relay x) r (tr_typists x)\<rparr>"
| joined: "ta_joining (tr_typists x) \<Longrightarrow> ta_handle (tr_typists x) = Some i \<Longrightarrow> at_pc i Ended (tr_typists x) \<Longrightarrow>
    typing_step x (x\<lparr>tr_typists := end_seen (tr_typists x)\<rparr>)"
| goroutine: "keeper_step (tr_typists x) k \<Longrightarrow> typing_step x (x\<lparr>tr_typists := k\<rparr>)"
| context_ends: "typing_step x (x\<lparr>tr_typists := (tr_typists x)\<lparr>ta_dead := True\<rparr>\<rparr>)"

definition typing_start :: "string \<Rightarrow> adapter \<Rightarrow> typing_relay" where
  "typing_start threadKey a = \<lparr>tr_relay = NewRelay threadKey, tr_adapter = a, tr_typists = no_typists\<rparr>"

section \<open>What the operations do to the flag\<close>

lemma resolveChannel_typing: "resolveChannelLocked pf (r, a) = (ok, r', a') \<Longrightarrow> r_typing r' = r_typing r"
  by (auto simp: resolveChannelLocked_def split: if_splits option.splits prod.splits)

lemma invalidateChannel_typing: "invalidateChannelLocked (r, a) = (r', a') \<Longrightarrow> r_typing r' \<longrightarrow> r_typing r"
  by (auto simp: invalidateChannelLocked_def split: if_splits)

lemma send_loop_typing: "send_loop pf cb i cs acks r a s = (out, r', a', s') \<Longrightarrow> r_typing r' \<longrightarrow> r_typing r"
proof (induction pf cb i cs acks r a s rule: send_loop.induct)
  case (2 pf cb i c cs acks r a s)
  then show ?case
    by (auto split: prod.splits bool.splits option.splits if_splits dest: invalidateChannel_typing)
qed simp

lemma resolve_again_typing: "resolveChannelLocked pf (invalidateChannelLocked (r, a)) = (ok, r', a') \<Longrightarrow> r_typing r' \<longrightarrow> r_typing r"
  by (cases "invalidateChannelLocked (r, a)") (auto dest: resolveChannel_typing invalidateChannel_typing)

lemma finish_chunks_typing: "finish_chunks pf cb chunks r a s = (out, r', a', s') \<Longrightarrow> r_typing r' \<longrightarrow> r_typing r"
  by (auto simp: finish_chunks_def split: prod.splits bool.splits if_splits
      dest!: send_loop_typing resolve_again_typing)

lemma finish_typing:
  assumes "finish pf cb r a s = (out, r', a', s')"
  shows "if r_done r then r' = r else \<not> r_typing r'"
  using assms
  by (auto simp: finish_def Let_def split: prod.splits bool.splits if_splits dest: finish_chunks_typing resolveChannel_typing)

lemma resolveChannel_done: "resolveChannelLocked pf (r, a) = (ok, r', a') \<Longrightarrow> r_done r' = r_done r"
  by (auto simp: resolveChannelLocked_def split: if_splits option.splits prod.splits)

lemma invalidateChannel_done: "invalidateChannelLocked (r, a) = (r', a') \<Longrightarrow> r_done r' = r_done r"
  by (auto simp: invalidateChannelLocked_def split: if_splits)

lemma partial_done: "partialContentLocked r = (c, r') \<Longrightarrow> r_done r' = r_done r"
  by (auto simp: partialContentLocked_def Let_def split: if_splits)

lemma ensure_done: "ensureTypingLocked pf (r, a) = (r', a') \<Longrightarrow> r_done r' = r_done r"
  by (auto simp: ensureTypingLocked_def stamp_edit_def split: if_splits prod.splits bool.splits dest: resolveChannel_done)

lemma create_done: "create_partial pf (r, a) = (r', a') \<Longrightarrow> r_done r' = r_done r"
  by (auto simp: create_partial_def stamp_edit_def split: if_splits prod.splits bool.splits option.splits
      dest!: resolveChannel_done partial_done invalidateChannel_done)

lemma Push_done: "Push pf delta (r, a) = (r', a') \<Longrightarrow> r_done r' = r_done r \<and> (r_done r \<longrightarrow> r' = r)"
  by (auto simp: Push_def Let_def stamp_edit_def split: if_splits prod.splits bool.splits
      dest!: ensure_done create_done partial_done invalidateChannel_done)

text \<open>A finished relay never asks for the indicator again.\<close>

lemma relay_op_done:
  assumes "relay_op r a r' a'" and "r_done r \<longrightarrow> \<not> r_typing r"
  shows "(r_done r \<longrightarrow> r_done r') \<and> (r_done r' \<longrightarrow> \<not> r_typing r')"
  using assms
proof (induction rule: relay_op.induct)
  case (push pf delta r a r' a')
  with Push_done [OF push.hyps] show ?case by auto
next
  case (deliver pf cb r a s out r' a' s')
  show ?case
  proof (cases cb)
    case (Some f)
    with deliver.hyps have "finish pf cb r a s = (out, r', a', s')" by (simp add: FinishJournaled_def)
    from finish_typing [OF this] deliver.prems show ?thesis by (cases "r_done r") auto
  qed (use deliver in \<open>simp add: FinishJournaled_def\<close>)
qed (auto simp: Cancel_def Retract_def Let_def split: if_splits)

section \<open>The invariant\<close>

definition live_keepers :: "typists \<Rightarrow> nat set" where
  "live_keepers k = {i. i < length (ta_keepers k) \<and> kp_pc (ta_keepers k ! i) \<noteq> Ended}"

definition typists_ok :: "typists \<Rightarrow> bool" where
  "typists_ok k \<longleftrightarrow> live_keepers k \<subseteq> set_option (ta_handle k) \<and> set_option (ta_handle k) \<subseteq> {..<length (ta_keepers k)} \<and>
     (ta_joining k \<longrightarrow> (\<exists>i \<in> set_option (ta_handle k). kp_stop (ta_keepers k ! i)))"

definition typing_ok :: "typing_relay \<Rightarrow> bool" where
  "typing_ok x \<longleftrightarrow> typists_ok (tr_typists x) \<and> (r_done (tr_relay x) \<longrightarrow> \<not> r_typing (tr_relay x)) \<and>
     (r_typing (tr_relay x) \<longleftrightarrow> ta_handle (tr_typists x) \<noteq> None \<and> \<not> ta_joining (tr_typists x))"

text \<open>Changing the goroutine the relay holds, without reopening its stop channel.\<close>

lemma held_update_ok:
  assumes "typists_ok k" and "ta_handle k = Some i" and "kp_stop (ta_keepers k ! i) \<longrightarrow> kp_stop g" and "b \<longrightarrow> ta_joining k \<or> kp_stop g"
  shows "typists_ok (k\<lparr>ta_keepers := (ta_keepers k)[i := g], ta_joining := b\<rparr>)"
proof -
  have i: "i < length (ta_keepers k)" "live_keepers k \<subseteq> {i}" using assms(1,2) by (auto simp: typists_ok_def)
  have "live_keepers (k\<lparr>ta_keepers := (ta_keepers k)[i := g], ta_joining := b\<rparr>) \<subseteq> live_keepers k \<union> {i}"
    by (auto simp: live_keepers_def nth_list_update split: if_splits)
  moreover have "b \<longrightarrow> kp_stop g" using assms by (auto simp: typists_ok_def)
  ultimately show ?thesis using i assms(2) by (auto simp: typists_ok_def)
qed

lemma move_keeper_ok:
  assumes "typists_ok k" and "at_pc i pc k" and "pc \<noteq> Ended"
  shows "typists_ok (move_keeper i pc' k)"
proof -
  have "i \<in> live_keepers k" using assms(2,3) by (simp add: at_pc_def live_keepers_def)
  then have "ta_handle k = Some i" using assms(1) by (auto simp: typists_ok_def)
  from held_update_ok [OF assms(1) this, of "(ta_keepers k ! i)\<lparr>kp_pc := pc'\<rparr>" "ta_joining k"] show ?thesis by (simp add: move_keeper_def)
qed

lemma calls_ok: "typists_ok (k\<lparr>ta_calls := cs\<rparr>) = typists_ok k"
  by (simp add: typists_ok_def live_keepers_def)

lemma keeper_step_ok: "keeper_step k k' \<Longrightarrow> typists_ok k \<Longrightarrow> typists_ok k'"
  by (induction rule: keeper_step.induct) (auto simp: calls_ok intro: move_keeper_ok)

lemma keeper_step_sel:
  "keeper_step k k' \<Longrightarrow> ta_handle k' = ta_handle k \<and> ta_joining k' = ta_joining k \<and> ta_dead k' = ta_dead k"
  by (induction rule: keeper_step.induct) (auto simp: move_keeper_def)

lemma follow_flag_ok:
  assumes "typists_ok k" and "\<not> ta_joining k" and "r_typing r \<longleftrightarrow> ta_handle k \<noteq> None"
  shows "typists_ok (follow_flag r r' k)"
    and "r_typing r' \<longleftrightarrow> ta_handle (follow_flag r r' k) \<noteq> None \<and> \<not> ta_joining (follow_flag r r' k)"
proof -
  consider (same) "r_typing r = r_typing r'" | (up) "\<not> r_typing r" "r_typing r'" | (down) i where "r_typing r" "\<not> r_typing r'" "ta_handle k = Some i"
    using assms(3) by blast
  then have "typists_ok (follow_flag r r' k) \<and> (r_typing r' \<longleftrightarrow> ta_handle (follow_flag r r' k) \<noteq> None \<and> \<not> ta_joining (follow_flag r r' k))"
  proof cases
    case same
    with assms show ?thesis by (simp add: follow_flag_def)
  next
    case up
    then have n: "ta_handle k = None" using assms(3) by simp
    then have "live_keepers k = {}" using assms(1) by (simp add: typists_ok_def)
    then have "live_keepers (spawn_keeper (r_channelID r') k) \<subseteq> {length (ta_keepers k)}"
      by (auto simp: spawn_keeper_def live_keepers_def nth_append split: if_splits)
    with up assms(2) show ?thesis by (auto simp: follow_flag_def typists_ok_def spawn_keeper_def)
  next
    case down
    from held_update_ok [OF assms(1) down(3), of "(ta_keepers k ! i)\<lparr>kp_stop := True\<rparr>" True] down
    show ?thesis by (simp add: follow_flag_def close_stop_def)
  qed
  then show "typists_ok (follow_flag r r' k)"
    "r_typing r' \<longleftrightarrow> ta_handle (follow_flag r r' k) \<noteq> None \<and> \<not> ta_joining (follow_flag r r' k)" by blast+
qed

lemma typing_step_ok: "typing_step x y \<Longrightarrow> typing_ok x \<Longrightarrow> typing_ok y"
proof (induction rule: typing_step.induct)
  case (op x r a)
  from op have k: "typists_ok (tr_typists x)" "r_typing (tr_relay x) \<longleftrightarrow> ta_handle (tr_typists x) \<noteq> None" by (simp_all add: typing_ok_def)
  note f = follow_flag_ok [OF k(1) op.hyps(1) k(2), of r]
  have "r_done (tr_relay x) \<longrightarrow> \<not> r_typing (tr_relay x)" using op.prems unfolding typing_ok_def by blast
  with relay_op_done [OF op.hyps(2)] f show ?case unfolding typing_ok_def by simp
next
  case (joined x i)
  have "live_keepers (tr_typists x) = {}"
    using joined by (auto simp: typing_ok_def typists_ok_def at_pc_def live_keepers_def)
  with joined show ?case by (simp add: typing_ok_def typists_ok_def end_seen_def live_keepers_def)
next
  case (goroutine x k)
  with keeper_step_ok keeper_step_sel [OF goroutine.hyps] show ?case by (auto simp: typing_ok_def)
next
  case (context_ends x)
  have "typists_ok ((tr_typists x)\<lparr>ta_dead := True\<rparr>) = typists_ok (tr_typists x)" by (simp add: typists_ok_def live_keepers_def)
  with context_ends show ?case unfolding typing_ok_def by auto
qed

interpretation ty: step_invariant typing_step typing_ok
  by unfold_locales (rule typing_step_ok)

lemma typing_start_ok: "typing_ok (typing_start threadKey a)"
  by (simp add: typing_ok_def typing_start_def typists_ok_def live_keepers_def no_typists_def NewRelay_def)

section \<open>Silence\<close>

lemma follow_flag_sel [simp]:
  "ta_calls (follow_flag r r' k) = ta_calls k" "ta_dead (follow_flag r r' k) = ta_dead k"
  by (auto simp: follow_flag_def spawn_keeper_def close_stop_def split: option.splits)

lemma keeper_step_live: "keeper_step k k' \<Longrightarrow> live_keepers k \<noteq> {}"
  by (induction rule: keeper_step.induct) (auto simp: at_pc_def live_keepers_def)

lemma keeper_step_dead: "keeper_step k k' \<Longrightarrow> ta_dead k \<Longrightarrow> ta_calls k' = ta_calls k"
  by (induction rule: keeper_step.induct) (auto simp: move_keeper_def)

definition silent :: "typing_relay \<Rightarrow> bool" where
  "silent x \<longleftrightarrow> r_done (tr_relay x) \<and> \<not> r_typing (tr_relay x) \<and> \<not> ta_joining (tr_typists x) \<and> live_keepers (tr_typists x) = {}"

lemma silent_step: "typing_step x y \<Longrightarrow> silent x \<Longrightarrow> silent y \<and> ta_calls (tr_typists y) = ta_calls (tr_typists x)"
proof (induction rule: typing_step.induct)
  case (op x r a)
  have "r_done r \<and> \<not> r_typing r" using relay_op_done [OF op.hyps(2)] op.prems by (simp add: silent_def)
  with op.prems show ?case by (simp add: silent_def follow_flag_def)
next
  case (goroutine x k)
  then show ?case using keeper_step_live by (auto simp: silent_def)
qed (simp_all add: silent_def live_keepers_def)

lemma silent_forever: "typing_step\<^sup>*\<^sup>* x y \<Longrightarrow> silent x \<Longrightarrow> silent y \<and> ta_calls (tr_typists y) = ta_calls (tr_typists x)"
proof (induction rule: rtranclp_induct)
  case (step y z)
  with silent_step [OF step.hyps(2)] show ?case by simp
qed simp

lemma dead_step: "typing_step x y \<Longrightarrow> ta_dead (tr_typists x) \<Longrightarrow> ta_dead (tr_typists y) \<and> ta_calls (tr_typists y) = ta_calls (tr_typists x)"
proof (induction rule: typing_step.induct)
  case (goroutine x k)
  with keeper_step_sel [OF goroutine.hyps] keeper_step_dead [OF goroutine.hyps] show ?case by simp
qed (simp_all add: end_seen_def)

lemma dead_forever: "typing_step\<^sup>*\<^sup>* x y \<Longrightarrow> ta_dead (tr_typists x) \<Longrightarrow> ta_calls (tr_typists y) = ta_calls (tr_typists x)"
proof -
  have "typing_step\<^sup>*\<^sup>* x y \<Longrightarrow> ta_dead (tr_typists x) \<Longrightarrow> ta_dead (tr_typists y) \<and> ta_calls (tr_typists y) = ta_calls (tr_typists x)"
  proof (induction rule: rtranclp_induct)
    case (step y z)
    with dead_step [OF step.hyps(2)] show ?case by simp
  qed simp
  then show "typing_step\<^sup>*\<^sup>* x y \<Longrightarrow> ta_dead (tr_typists x) \<Longrightarrow> ta_calls (tr_typists y) = ta_calls (tr_typists x)" by blast
qed

text \<open>A goroutine told to stop ends by its own moves, without the ticker.\<close>

lemma told_keeper_ends:
  assumes "i < length (ta_keepers k)" and "kp_stop (ta_keepers k ! i)"
  shows "\<exists>k'. keeper_step\<^sup>*\<^sup>* k k' \<and> at_pc i Ended k' \<and> ta_handle k' = ta_handle k \<and> ta_joining k' = ta_joining k"
proof -
  let ?res = "\<lambda>k. \<exists>k'. keeper_step\<^sup>*\<^sup>* k k' \<and> at_pc i Ended k' \<and> ta_handle k' = ta_handle k \<and> ta_joining k' = ta_joining k"
  have onward: "?res k" if "keeper_step k m" "?res m" for k m
    using that keeper_step_sel [OF that(1)] by (metis converse_rtranclp_into_rtranclp)
  have ended: "?res k" if "at_pc i Ended k" for k using that by blast
  have moved: "at_pc i pc (move_keeper i pc k)" "kp_stop (ta_keepers (move_keeper i pc k) ! i) = kp_stop (ta_keepers k ! i)"
    if "i < length (ta_keepers k)" for k pc
    using that by (simp_all add: at_pc_def move_keeper_def)
  have waiting: "?res k" if "at_pc i Waiting k" "kp_stop (ta_keepers k ! i)" for k
  proof (rule onward [OF keeper_step.told])
    show "at_pc i Waiting k" "kp_stop (ta_keepers k ! i) \<or> ta_dead k" using that by auto
    show "?res (move_keeper i Ended k)" using moved that(1) by (intro ended) (simp add: at_pc_def)
  qed
  have calling: "?res k" if "at_pc i Calling k" "kp_stop (ta_keepers k ! i)" for k
    using that moved by (intro onward [OF keeper_step.call_back [OF that(1)]] waiting) (auto simp: at_pc_def)
  show "?res k"
  proof (cases "kp_pc (ta_keepers k ! i)")
    case Checking
    then have c: "at_pc i Checking k" using assms(1) by (simp add: at_pc_def)
    show ?thesis
    proof (cases "ta_dead k")
      case True
      show ?thesis using moved [OF assms(1)] by (intro onward [OF keeper_step.found_dead [OF c True]] ended)
    next
      case False
      let ?m = "(move_keeper i Calling k)\<lparr>ta_calls := ta_calls k @ [kp_channel (ta_keepers k ! i)]\<rparr>"
      have "at_pc i Calling ?m" "kp_stop (ta_keepers ?m ! i)" using moved [OF assms(1)] assms(2) by (simp_all add: at_pc_def)
      then show ?thesis by (intro onward [OF keeper_step.call [OF c False]] calling)
    qed
  qed (use assms ended waiting calling in \<open>simp_all add: at_pc_def\<close>)
qed

section \<open>Properties\<close>

text \<open>
  The typing indicator goes quiet with its relay.  Whatever the interleaving of relay operations, ticks and the end
  of the context: at most one keepalive runs, and exactly as long as the relay's flag says so, up to the operation
  that is waiting for it to end; that operation can always return without waiting for the ticker; once a
  finished, cancelled or retracted relay has let go of its lock no typing call is made any more; and none begins
  after the context has ended.
\<close>

lemma typing_stops_with_relay:
  assumes "typing_step\<^sup>*\<^sup>* (typing_start threadKey a) x"
  shows "card (live_keepers (tr_typists x)) \<le> 1 \<and>
    (r_typing (tr_relay x) \<longleftrightarrow> ta_handle (tr_typists x) \<noteq> None \<and> \<not> ta_joining (tr_typists x)) \<and>
    (\<not> ta_joining (tr_typists x) \<and> \<not> r_typing (tr_relay x) \<longrightarrow> live_keepers (tr_typists x) = {}) \<and>
    (ta_joining (tr_typists x) \<longrightarrow> (\<exists>k. keeper_step\<^sup>*\<^sup>* (tr_typists x) k \<and>
       typing_step (x\<lparr>tr_typists := k\<rparr>) (x\<lparr>tr_typists := end_seen k\<rparr>))) \<and>
    (r_done (tr_relay x) \<and> \<not> ta_joining (tr_typists x) \<longrightarrow>
       (\<forall>y. typing_step\<^sup>*\<^sup>* x y \<longrightarrow> ta_calls (tr_typists y) = ta_calls (tr_typists x))) \<and>
    (ta_dead (tr_typists x) \<longrightarrow> (\<forall>y. typing_step\<^sup>*\<^sup>* x y \<longrightarrow> ta_calls (tr_typists y) = ta_calls (tr_typists x)))"
proof -
  have ok: "typing_ok x" by (rule ty.steps_inv [OF assms typing_start_ok])
  let ?k = "tr_typists x"
  have sub: "live_keepers ?k \<subseteq> set_option (ta_handle ?k)" using ok by (simp add: typing_ok_def typists_ok_def)
  have one: "card (live_keepers ?k) \<le> 1"
  proof (cases "ta_handle ?k")
    case (Some i)
    with sub have "live_keepers ?k \<subseteq> {i}" by simp
    then show ?thesis using card_mono [of "{i}" "live_keepers ?k"] by simp
  qed (use sub in simp)
  have flag: "r_typing (tr_relay x) \<longleftrightarrow> ta_handle ?k \<noteq> None \<and> \<not> ta_joining ?k" using ok unfolding typing_ok_def by blast
  have none: "live_keepers ?k = {}" if "\<not> ta_joining ?k" "\<not> r_typing (tr_relay x)" using sub flag that by auto
  have join: "\<exists>k. keeper_step\<^sup>*\<^sup>* ?k k \<and> typing_step (x\<lparr>tr_typists := k\<rparr>) (x\<lparr>tr_typists := end_seen k\<rparr>)" if j: "ta_joining ?k"
  proof -
    from ok j obtain i where i: "ta_handle ?k = Some i" "kp_stop (ta_keepers ?k ! i)" "i < length (ta_keepers ?k)"
      by (auto simp: typing_ok_def typists_ok_def)
    from told_keeper_ends [OF i(3,2)] obtain k where k: "keeper_step\<^sup>*\<^sup>* ?k k" "at_pc i Ended k" "ta_handle k = Some i" "ta_joining k"
      using i(1) j by auto
    from typing_step.joined [of "x\<lparr>tr_typists := k\<rparr>" i] k show ?thesis by auto
  qed
  have quiet: "ta_calls (tr_typists y) = ta_calls ?k" if "r_done (tr_relay x)" "\<not> ta_joining ?k" "typing_step\<^sup>*\<^sup>* x y" for y
  proof -
    have "\<not> r_typing (tr_relay x)" using ok that(1) unfolding typing_ok_def by blast
    with that none have "silent x" by (simp add: silent_def)
    with silent_forever [OF that(3)] show ?thesis by blast
  qed
  show ?thesis using one flag none join quiet dead_forever [of x] by blast
qed

definition ex_typing_adapter :: adapter where
  "ex_typing_adapter = \<lparr>a_dmChannels = Map.empty, a_calls = []\<rparr>"

lemma typing_stops_with_relay_example:
  "\<exists>x. typing_step\<^sup>*\<^sup>* (typing_start ''discord:thread:5'' ex_typing_adapter) x \<and> r_done (tr_relay x) \<and>
     (\<forall>y. typing_step\<^sup>*\<^sup>* x y \<longrightarrow> ta_calls (tr_typists y) = [])"
proof -
  let ?s = "typing_start ''discord:thread:5'' ex_typing_adapter"
  let ?r = "(NewRelay ''discord:thread:5'')\<lparr>r_done := True, r_typing := False\<rparr>"
  let ?x = "\<lparr>tr_relay = ?r, tr_adapter = ex_typing_adapter, tr_typists = follow_flag (tr_relay ?s) ?r (tr_typists ?s)\<rparr>"
  have "relay_op (tr_relay ?s) (tr_adapter ?s) ?r ex_typing_adapter"
    by (rule relay_op.cancel) (simp add: Cancel_def typing_start_def)
  then have "typing_step ?s ?x" by (intro typing_step.op) (simp add: typing_start_def no_typists_def)
  then have r: "typing_step\<^sup>*\<^sup>* ?s ?x" by blast
  have "\<not> ta_joining (tr_typists ?x)" "ta_calls (tr_typists ?x) = []"
    by (simp_all add: typing_start_def no_typists_def follow_flag_def NewRelay_def)
  with typing_stops_with_relay [OF r] r show ?thesis by (intro exI [of _ ?x]) simp
qed

end
