(* ===== verification/Process_Group.thy ===== *)
theory Process_Group
  imports Engine_Run
begin

text \<open>
  The teardown of a turn's child: the part of \<open>run\<close> in \<open>src/internal/engine/engine.go\<close> around \<open>cmd.Run\<close>, with
  \<open>termGroup\<close>.  The child leads a process group of its own; when its context ends the group is sent a TERM, after a
  grace period the leader is killed, and after the command has returned what is left of the group is sent a KILL.
  What the processes do meanwhile (exit, spawn others, leave the group) is a parameter; the rules by which
  \<open>os/exec\<close> turns the exit, the result of \<open>Cancel\<close> and the state of the output pipes into an error are modelled.
\<close>

section \<open>Signals to a group\<close>

datatype process_state = Running | Zombie | Reaped

record process =
  ps_in_group :: bool
  ps_traps_term :: bool
  ps_state :: process_state

datatype signal = SIGTERM | SIGKILL

datatype kill_result = Delivered | ESRCH | KillFailed

definition dies_of :: "signal \<Rightarrow> process \<Rightarrow> bool" where
  "dies_of sig p \<longleftrightarrow> ps_in_group p \<and> ps_state p = Running \<and> (sig = SIGKILL \<or> \<not> ps_traps_term p)"

text \<open>\<open>kill(2)\<close> on a group: there is no such group once every member has been reaped.\<close>

definition kill_group :: "signal \<Rightarrow> process list \<Rightarrow> kill_result \<times> process list" where
  "kill_group sig ps =
     (if \<forall>p \<in> set ps. ps_in_group p \<longrightarrow> ps_state p = Reaped then (ESRCH, ps)
      else (Delivered, map (\<lambda>p. if dies_of sig p then p\<lparr>ps_state := Zombie\<rparr> else p) ps))"

datatype cancel_result = CancelOk | ErrProcessDone | CancelFailed

definition termGroup :: "kill_result \<Rightarrow> cancel_result" where
  "termGroup k = (case k of ESRCH \<Rightarrow> ErrProcessDone | Delivered \<Rightarrow> CancelOk | KillFailed \<Rightarrow> CancelFailed)"

section \<open>One child\<close>

text \<open>\<open>cl_noticed\<close>: the exit of the leader was noticed before the context ended, so that \<open>Cancel\<close> was not called;
  \<open>cl_ctx\<close>: the context when the command has returned; \<open>cl_pipes\<close>: the output pipes were closed within the grace
  period; \<open>cl_grace\<close>: what becomes of the processes until the command has returned.\<close>

record child_life =
  cl_ctx :: ctx_end
  cl_noticed :: bool
  cl_exit_ok :: bool
  cl_pipes :: bool
  cl_grace :: "process list \<Rightarrow> process list"

text \<open>The error of \<open>cmd.Run\<close>: the exit status first, then what \<open>Cancel\<close> reported, then pipes left open.\<close>

definition cmd_failed :: "bool \<Rightarrow> cancel_result option \<Rightarrow> bool \<Rightarrow> bool" where
  "cmd_failed exit_ok cancel pipes_closed \<longleftrightarrow>
     \<not> exit_ok \<or> (case cancel of None \<Rightarrow> False | Some ErrProcessDone \<Rightarrow> False | Some _ \<Rightarrow> True) \<or> \<not> pipes_closed"

definition cancel_called :: "child_life \<Rightarrow> bool" where
  "cancel_called l \<longleftrightarrow> cl_ctx l \<noteq> Alive \<and> \<not> cl_noticed l"

definition run_child :: "child_life \<Rightarrow> process list \<Rightarrow> bool \<times> process list" where
  "run_child l ps =
     (let (k, ps1) = (if cancel_called l then kill_group SIGTERM ps else (ESRCH, ps));
          failed = cmd_failed (cl_exit_ok l) (if cancel_called l then Some (termGroup k) else None) (cl_pipes l);
          ps2 = cl_grace l ps1
      in (failed, if cl_ctx l \<noteq> Alive then snd (kill_group SIGKILL ps2) else ps2))"

text \<open>The child as the engine sees it.\<close>

definition child_of :: "child_life \<Rightarrow> process list \<Rightarrow> string list \<Rightarrow> string list \<Rightarrow> int \<Rightarrow> int \<Rightarrow> child" where
  "child_of l ps out err ts elapsed =
     \<lparr>ch_stdout = out, ch_stderr = err, ch_failed = fst (run_child l ps), ch_ctx = cl_ctx l, ch_ts = ts, ch_elapsed = elapsed\<rparr>"

section \<open>Lemmas\<close>

lemma kill_group_none_running: "p \<in> set (snd (kill_group SIGKILL ps)) \<Longrightarrow> ps_in_group p \<Longrightarrow> ps_state p \<noteq> Running"
  by (auto simp: kill_group_def dies_of_def split: if_splits)

lemma kill_group_outside: "filter (\<lambda>p. \<not> ps_in_group p) (snd (kill_group sig ps)) = filter (\<lambda>p. \<not> ps_in_group p) ps"
proof -
  have "filter (\<lambda>p. \<not> ps_in_group p) (map (\<lambda>p. if dies_of sig p then p\<lparr>ps_state := Zombie\<rparr> else p) ps) = filter (\<lambda>p. \<not> ps_in_group p) ps"
    by (induction ps) (auto simp: dies_of_def)
  then show ?thesis by (simp add: kill_group_def)
qed

lemma reaped_group: "\<forall>p \<in> set ps. ps_in_group p \<longrightarrow> ps_state p = Reaped \<Longrightarrow> kill_group sig ps = (ESRCH, ps)"
  by (simp add: kill_group_def)

text \<open>
  A tool process that the child leaves behind with the output pipes open makes a turn fail whose child exited with
  success within its time, and nothing is done about that process.
\<close>

lemma lingering_process_fails_turn:
  assumes "cl_ctx l = Alive" and "cl_exit_ok l" and "\<not> cl_pipes l"
  shows "run_child l ps = (True, cl_grace l ps)" and "T_Outcome (record_turn spec s (child_of l ps out err ts el)) = ''error''"
proof -
  show r: "run_child l ps = (True, cl_grace l ps)" using assms by (simp add: run_child_def cancel_called_def cmd_failed_def)
  show "T_Outcome (record_turn spec s (child_of l ps out err ts el)) = ''error''"
    using r assms(1) by (simp add: record_turn_def child_of_def Let_def)
qed

section \<open>Properties\<close>


definition ex_group :: "process list" where
  "ex_group = [\<lparr>ps_in_group = True, ps_traps_term = False, ps_state = Running\<rparr>, \<lparr>ps_in_group = True, ps_traps_term = True, ps_state = Running\<rparr>,
     \<lparr>ps_in_group = False, ps_traps_term = False, ps_state = Running\<rparr>]"

definition ex_killed :: child_life where
  "ex_killed = \<lparr>cl_ctx = Deadline, cl_noticed = False, cl_exit_ok = False, cl_pipes = True, cl_grace = (\<lambda>ps. ps)\<rparr>"


end
