(* ===== verification/Spec2Isabelle.thy ===== *)
theory Spec2Isabelle
  imports Store_Machine Delivery InFlight Recovery Router Session_Manager Turn_Path Ingest Policy_Walk Engine_Run
    Migrate Store_Open Admin Gateway Lifecycle Daemon Wiring Admin_Serve Ownership Pump Typing Process_Group
begin

text \<open>
  A verification development for the approach daemon, a personal agent harness written in Go.

  \<^bold>\<open>The program.\<close>  One daemon owns a state directory.  The Discord adapter receives messages and hands those
  inside its boundary to ingest, which stamps the sender's trust from the identities table and writes an event
  row before anything else happens.  The router keeps one queue per conversation thread over those rows and runs
  one turn at a time per thread.  A turn goes to the session manager, which keeps one live session of the command
  line engine per thread, starts, resumes, rotates or degrades it, and spawns the child process.  The reply is
  streamed to the platform by a relay and at the same time composed as rows of an outbox; what the relay did not
  land is sent by the pump, at least once and in order per target.  A failed turn is retried only when the
  journal of tool attempts proves that nothing irreversible happened, else it is parked or dead-lettered, with a
  notice to a human.  The operator acts through a Unix socket.

  \<^bold>\<open>How it is modelled.\<close>  The database is the record \<open>db\<close> of \<open>Schema\<close>, one list of rows per table with the
  constraints, indexes and triggers of the migrations as predicates; each Go function that runs SQL is a function
  from \<open>db\<close> to an error or a result and a new \<open>db\<close>.  In-memory components are records with one function per
  method.  Where goroutines interleave, the state is a record and the moves are an \<open>inductive\<close> step relation.
  Calls that can fail from outside (a driver error, a network call, a system call) fail as a parameter says, so
  each error branch of the source is a branch here.  Machine integers matter in three places and are kept
  there: the FNV hash of the ingest shards and the random bytes of a session identity are words, the durations of
  the session manager wrap at 64 bits, file permissions are nine bits.  Everything else that the source keeps in
  an int64 is a row identity, a counter or a clock far from its limits, and is an \<open>int\<close>.

  \<^bold>\<open>Theories and sources\<close> (under \<open>src/internal\<close>).
  \<^item> \<open>Prelude\<close>: tables as lists (select, insert, update with their counts), strings, decimal rendering, and the
    locales \<open>row_lifecycle\<close> and \<open>keyed_insert\<close> that the tables share.
  \<^item> \<open>Trust\<close>: \<open>trust/trust.go\<close>, the levels, stamping, taint and floor.
  \<^item> \<open>Schema\<close>, \<open>Invariants\<close>: the tables of \<open>store/migrations\<close>, the invariant \<open>wf_db\<close> of the whole store and the
    relation \<open>db_evolves\<close> of what may happen to a row over time.
  \<^item> \<open>Store_Events\<close> (\<open>store/events.go\<close>, \<open>queue.go\<close>, \<open>retry.go\<close>), \<open>Store_Dead\<close> (\<open>dead_letters.go\<close>), \<open>Store_Attempts\<close>
    (\<open>tool_attempts.go\<close>), \<open>Store_Outbox\<close> (\<open>deliveries.go\<close>), \<open>Store_Sessions\<close> (\<open>sessions.go\<close>,
    \<open>session_lifecycle.go\<close>, \<open>rotation.go\<close>, \<open>tainted.go\<close>), \<open>Store_Identities\<close> (\<open>identities.go\<close>, \<open>turns.go\<close>): every
    statement with its guards, what each does on every branch, and that it keeps the invariant.
  \<^item> \<open>Store_Machine\<close>: all store operations as one machine; every reachable store is well-formed, and events,
    sessions and deliveries refine their abstract lifecycles over any run.
  \<^item> \<open>Delivery\<close> (\<open>delivery/surface.go\<close>, \<open>resend.go\<close>) and \<open>InFlight\<close> (\<open>inflight.go\<close>): notices, the sweep, the
    resend pass in order per target, claims and exclusive reference-counted gates.
  \<^item> \<open>Pump\<close> (\<open>Pump\<close> of \<open>delivery/resend.go\<close>, \<open>kickPump\<close> of \<open>cli/daemon.go\<close>): the loop around the passes; a pass is a
    run of store operations, no kick is lost, a kicked notice is in the outbox after the next pass.
  \<^item> \<open>Recovery\<close> (\<open>recovery/recovery.go\<close>): engine failures; never a blind retry.
  \<^item> \<open>Router\<close> (\<open>router/router.go\<close>): queues, drains, ingest locks, rebuild, dispatch.
  \<^item> \<open>Session_Manager\<close> (\<open>session/*.go\<close>): ensure, mint, start, resume, rotate, degrade.
  \<^item> \<open>Runes\<close>, \<open>Discord\<close> (\<open>adapter/discord/normalize.go\<close>, \<open>send.go\<close>, \<open>relay.go\<close>, \<open>event/event.go\<close>): UTF-8 decoding as
    Go does it, splitting of replies, normalization, channel resolution, the streaming relay.
  \<^item> \<open>Typing\<close> (the keepalive of \<open>relay.go\<close>): the goroutine behind the relay's typing flag; at most one runs, and none
    makes a call once the relay is finished or its context has ended.
  \<^item> \<open>Turn_Path\<close> (\<open>cli/turn.go\<close>): the router's handler from the admission gate to the acks.
  \<^item> \<open>Configuration\<close> (\<open>config/config.go\<close>) and \<open>Ingest\<close> (\<open>cli/ingest.go\<close>): strict parsing, the policy matrix, and
    the path from the file over seeding and stamping to the turn handler.
  \<^item> \<open>Paths\<close>, \<open>Policy\<close>, \<open>Policy_Walk\<close> (\<open>policy/pathdeny.go\<close>): the parts of \<open>path/filepath\<close> in use, the denylist
    against a declarative form, and the recursive check: soundness for every reachable directory, and that it ends.
  \<^item> \<open>Engine_Run\<close> (\<open>engine/*.go\<close>): the stream collector, bounded buffers, the turn record, the version pin.
  \<^item> \<open>Process_Group\<close> (\<open>run\<close> and \<open>termGroup\<close> of \<open>engine/engine.go\<close>): signals to the child's group and what they make of a
    turn; a killed turn leaves nothing of its group running.
  \<^item> \<open>Migrate\<close> (\<open>store/migrate.go\<close>), \<open>Store_Open\<close> (\<open>store/store.go\<close>): the migration batch with its escape guard; the
    posture of the files and pragmas.
  \<^item> \<open>Admin\<close> (\<open>admin/admin.go\<close>, operator verbs and hooks of \<open>cli/daemon.go\<close>): the socket protocol on both sides.
  \<^item> \<open>Admin_Serve\<close> (\<open>Serve\<close> of \<open>admin/admin.go\<close>): accept loop, watcher and handlers inside a daemon that moves on its own;
    when it returns, that it returns when asked, and that it is a refinement of what \<open>Lifecycle\<close> assumes of it.
  \<^item> \<open>Gateway\<close> (\<open>adapter/discord/discord.go\<close>): session posture, the connect loop, the message boundary, the join.
  \<^item> \<open>Daemon\<close>, \<open>Lifecycle\<close> (\<open>cli/daemon.go\<close>, \<open>cli/cli.go\<close>, the lock of \<open>admin/admin.go\<close>): start-up as one function
    with every refusal, and shutdown as an interleaving.
  \<^item> \<open>Ownership\<close> (\<open>Server\<close>, \<open>New\<close>, \<open>Close\<close> of \<open>admin/admin.go\<close>, the deferred calls of \<open>runDaemon\<close>, \<open>cmd/approach/main.go\<close>): any
    number of processes on one state directory, at most one of which has the store; the exit codes.
  \<^item> \<open>Wiring\<close>: handler, session manager and engine put together as \<open>runDaemon\<close> does; the assumptions each makes of the
    next are discharged, and every turn ends in a durable state whatever the child process does.

  \<^bold>\<open>Interfaces.\<close>  Contracts between components are locales, interpreted on the model's own functions:
  \<open>ranked_meet\<close> (trust levels), \<open>row_lifecycle\<close>, \<open>row_history\<close> and \<open>keyed_insert\<close> (tables), \<open>step_invariant\<close> (step relations),
  \<open>guarded_transition\<close> (status changes of an event), \<open>notice_writer\<close>
  (whoever surfaces a parked or dead event), \<open>readmitter\<close> (the queue as recovery and the operator see it),
  \<open>admin_hook\<close> (what the socket may call), \<open>admin_service\<close> (what the serving loop needs of the daemon around it).

  \<^bold>\<open>Loops and bounds.\<close>  Loops are structural recursion or functions with a measure.  The one loop whose end depends
  on the machine, the queue of directories in the recursive path check, is a partial function whose result is
  proved to exist whenever the machine has finitely many directories.  No definition uses fuel; the cap of 255 links
  on one path, the caps on lines, diagnostics, requests and messages are the source's own constants.

  \<^bold>\<open>Parameters.\<close>  Code outside the repository appears as an argument: the JSON and TOML decoders, what a migration's
  SQL does, the Unicode case table above ASCII, the file system, discordgo's session with its channel cache and
  calls, the engine's child process, floating-point summation in SQLite.  Where a property needs something of
  one (that an encoder is faithful on the value at hand, that the listing of a directory agrees with its links) it
  is a named hypothesis with a witness.

  \<^bold>\<open>Not modelled.\<close>  The lengths of tickers and deadlines (a tick or a deadline may come at any time), the text of log
  records, errors and usage, among it the excerpt of a child's diagnostics; the SQLite connection string and pool;
  the parsing of flags and durations, which the flag and TOML libraries do; the wiring of discordgo's calls into the
  adapter's function fields, each of which is a parameter of the operation that uses it.
\<close>

end
